(* ===== verification/Prelude.thy ===== *)
theory Prelude
  imports Main "HOL-Library.Word"
begin

text \<open>
  Shared vocabulary of the development: the C integer types as machine words, the outcome of
  a kernel routine (a value, or what stopped it), the scan loop that most kernel
  tables are searched with, and the constants of \<open>param.h\<close> and \<open>memlayout.h\<close>. The
  collections \<open>outcome_simps\<close> and \<open>const_simps\<close> carry the component proofs.
\<close>

named_theorems outcome_simps \<open>rewriting of routine outcomes\<close>
named_theorems const_simps \<open>the C preprocessor constants\<close>

section \<open>Machine integers\<close>

text \<open>
  \<open>types.h\<close>: \<open>uchar\<close>, \<open>ushort\<close>, \<open>uint\<close>. A C \<open>int\<close> is a \<open>32 word\<close> that is compared
  through \<^const>\<open>sint\<close>; \<open>s32\<close> marks the places where the C declaration is signed.
\<close>

type_synonym u8 = "8 word"
type_synonym u16 = "16 word"
type_synonym u32 = "32 word"
type_synonym s16 = "16 word"
type_synonym s32 = "32 word"

lemma u32_bound: "unat (x :: u32) < 2 ^ 32"
  using unsigned_less [of x, where 'a = nat] by simp

lemma unat_nonneg:
  assumes "0 \<le> sint (x :: s32)"
  shows "unat x = nat (sint x)"
proof -
  have "uint x = sint x mod 2 ^ 32"
    using uint_word_of_int [of "sint x", where 'a = 32] by simp
  moreover have "sint x < 2 ^ 31" using sint_lt [of x] by simp
  ultimately show ?thesis
    using assms by (simp add: unat_eq_nat_uint)
qed

lemma sint_eq_iff: "sint a = sint b \<longleftrightarrow> a = (b :: s32)"
  by (auto intro: signed_word_eqI)

section \<open>Outcomes of kernel routines\<close>

text \<open>
  Processes sleep on kernel addresses; the code uses the addresses of these objects: a
  process (in \<open>wait\<close>), \<open>ticks\<close>, the log, the console input, the counters of a pipe, a
  buffer (disk transfer), the sleep lock of a buffer or of an inode.
\<close>

datatype chan =
    ChanProc nat | ChanTicks | ChanLog | ChanInput
  | ChanPipeRead u32 | ChanPipeWrite u32 | ChanBuf nat | ChanBufLock nat | ChanInodeLock nat

text \<open>
  A routine returns, or calls \<open>panic\<close> (with its argument), which never returns, or makes an
  access that C leaves undefined (an index outside its array, a null pointer), or has to
  sleep on a channel before it can go on, or runs a loop that does not end (\<open>Loop\<close>).
\<close>

datatype 'a outcome = Ret 'a | Panic string | Fault | Block chan | Loop

primrec obind :: "'a outcome \<Rightarrow> ('a \<Rightarrow> 'b outcome) \<Rightarrow> 'b outcome" where
  "obind (Ret x) f = f x"
| "obind (Panic msg) f = Panic msg"
| "obind Fault f = Fault"
| "obind (Block c) f = Block c"
| "obind Loop f = Loop"

lemma obind_cong [fundef_cong]:
  "m = m' \<Longrightarrow> (\<And>x. m' = Ret x \<Longrightarrow> f x = f' x) \<Longrightarrow> obind m f = obind m' f'"
  by (cases m') simp_all

lemma obind_eq_Ret [outcome_simps]:
  "obind m f = Ret y \<longleftrightarrow> (\<exists>x. m = Ret x \<and> f x = Ret y)"
  by (cases m) simp_all

lemma obind_eq_Panic [outcome_simps]:
  "obind m f = Panic e \<longleftrightarrow> m = Panic e \<or> (\<exists>x. m = Ret x \<and> f x = Panic e)"
  by (cases m) auto

lemma obind_eq_Fault [outcome_simps]:
  "obind m f = Fault \<longleftrightarrow> m = Fault \<or> (\<exists>x. m = Ret x \<and> f x = Fault)"
  by (cases m) auto

lemma obind_assoc: "obind (obind m f) g = obind m (\<lambda>x. obind (f x) g)"
  by (cases m) simp_all

lemma obind_Ret_id [simp]: "obind m Ret = m"
  by (cases m) simp_all

text \<open>A loop over the elements of a table whose body may panic.\<close>

primrec ofold :: "('a \<Rightarrow> 's \<Rightarrow> 's outcome) \<Rightarrow> 'a list \<Rightarrow> 's \<Rightarrow> 's outcome" where
  "ofold f [] s = Ret s"
| "ofold f (x # xs) s = obind (f x s) (ofold f xs)"

lemma ofold_append: "ofold f (xs @ ys) s = obind (ofold f xs s) (ofold f ys)"
  by (induction xs arbitrary: s) (auto simp: obind_assoc intro!: obind_cong)

lemma ofold_invariant:
  assumes "ofold f xs s = Ret t" and "I s"
    and "\<And>x s t. x \<in> set xs \<Longrightarrow> I s \<Longrightarrow> f x s = Ret t \<Longrightarrow> I t"
  shows "I t"
  using assms
proof (induction xs arbitrary: s)
  case Nil
  then show ?case by simp
next
  case (Cons x xs)
  from Cons.prems(1) obtain u where u: "f x s = Ret u" and rest: "ofold f xs u = Ret t"
    by (auto simp: outcome_simps)
  from Cons.prems(2,3) u have "I u" by auto
  from rest this Cons.prems(3) show ?case by (rule Cons.IH) auto
qed

lemma ofold_total:
  assumes "\<And>x s. x \<in> set xs \<Longrightarrow> I s \<Longrightarrow> \<exists>t. f x s = Ret t \<and> I t" and "I s"
  shows "\<exists>t. ofold f xs s = Ret t \<and> I t"
  using assms
proof (induction xs arbitrary: s)
  case Nil
  then show ?case by simp
next
  case (Cons x xs)
  obtain u where u: "f x s = Ret u" "I u" using Cons.prems by (meson list.set_intros(1))
  have "\<exists>t. ofold f xs u = Ret t \<and> I t"
    by (rule Cons.IH) (use Cons.prems(1) u(2) in \<open>auto\<close>)
  with u(1) show ?case by simp
qed

section \<open>Table scans\<close>

text \<open>
  The kernel's loops \<open>for (p = table; p < &table[N]; p++) if (P(p)) goto found;\<close> return
  the first index that satisfies the test.
\<close>

primrec find_slot :: "('a \<Rightarrow> bool) \<Rightarrow> 'a list \<Rightarrow> nat option" where
  "find_slot P [] = None"
| "find_slot P (x # xs) = (if P x then Some 0 else map_option Suc (find_slot P xs))"

lemma find_slot_None_iff: "find_slot P xs = None \<longleftrightarrow> (\<forall>x \<in> set xs. \<not> P x)"
  by (induction xs) auto

lemma find_slot_Some_iff:
  "find_slot P xs = Some i \<longleftrightarrow> i < length xs \<and> P (xs ! i) \<and> (\<forall>j < i. \<not> P (xs ! j))"
proof (induction xs arbitrary: i)
  case Nil
  then show ?case by simp
next
  case (Cons x xs)
  show ?case
  proof (cases i)
    case 0
    then show ?thesis by auto
  next
    case (Suc k)
    then show ?thesis
      using Cons.IH [of k] by (auto simp: All_less_Suc2)
  qed
qed

lemma find_slot_SomeD:
  assumes "find_slot P xs = Some i"
  shows "i < length xs" and "P (xs ! i)" and "\<And>j. j < i \<Longrightarrow> \<not> P (xs ! j)"
  using assms by (auto simp: find_slot_Some_iff)

lemma find_slot_exists: "x \<in> set xs \<Longrightarrow> P x \<Longrightarrow> \<exists>i. find_slot P xs = Some i"
  by (metis find_slot_None_iff option.exhaust)

lemma find_slot_cong:
  "xs = ys \<Longrightarrow> (\<And>x. x \<in> set ys \<Longrightarrow> P x = Q x) \<Longrightarrow> find_slot P xs = find_slot Q ys"
  by (induction ys arbitrary: xs) auto

lemma nth_upd_if: "(xs[k := x]) ! i = (if i = k \<and> k < length xs then x else xs ! i)"
  by (cases "k < length xs") (simp_all add: nth_list_update list_update_beyond)

lemma filter_list_update_len:
  assumes "i < length xs"
  shows "length (filter P (xs[i := v])) + (if P (xs ! i) then 1 else 0)
       = length (filter P xs) + (if P v then 1 else 0)"
  using assms
proof (induction xs arbitrary: i)
  case Nil
  then show ?case by simp
next
  case (Cons x xs)
  then show ?case by (cases i) (auto split: if_splits)
qed

section \<open>Constants of \<open>param.h\<close> and \<open>memlayout.h\<close>\<close>

definition NPROC :: nat where "NPROC = 64"
definition NCPU :: nat where "NCPU = 8"
definition NOFILE :: nat where "NOFILE = 16"
definition NFILE :: nat where "NFILE = 100"
definition NINODE :: nat where "NINODE = 50"
definition NDEV :: nat where "NDEV = 10"
definition ROOTDEV :: u32 where "ROOTDEV = 1"
definition MAXARG :: nat where "MAXARG = 32"
definition MAXOPBLOCKS :: nat where "MAXOPBLOCKS = 10"
definition LOGSIZE :: nat where "LOGSIZE = MAXOPBLOCKS * 3"
definition NBUF :: nat where "NBUF = MAXOPBLOCKS * 3"
definition FSSIZE :: nat where "FSSIZE = 1000"
definition QUANTUM :: u32 where "QUANTUM = 1000"
definition KSTACKSIZE :: u32 where "KSTACKSIZE = 4096"

text \<open>\<open>fcntl.h\<close>\<close>

definition O_RDONLY :: s32 where "O_RDONLY = 0x000"
definition O_WRONLY :: s32 where "O_WRONLY = 0x001"
definition O_RDWR :: s32 where "O_RDWR = 0x002"
definition O_CREATE :: s32 where "O_CREATE = 0x200"

definition EXTMEM :: u32 where "EXTMEM = 0x100000"
definition PHYSTOP :: u32 where "PHYSTOP = 0xE000000"
definition DEVSPACE :: u32 where "DEVSPACE = 0xFE000000"
definition KERNBASE :: u32 where "KERNBASE = 0x80000000"
definition KERNLINK :: u32 where "KERNLINK = KERNBASE + EXTMEM"

definition V2P :: "u32 \<Rightarrow> u32" where "V2P a = a - KERNBASE"
definition P2V :: "u32 \<Rightarrow> u32" where "P2V a = a + KERNBASE"

lemmas param_defs [const_simps] =
  NPROC_def NCPU_def NOFILE_def NFILE_def NINODE_def NDEV_def ROOTDEV_def MAXARG_def
  MAXOPBLOCKS_def LOGSIZE_def NBUF_def FSSIZE_def QUANTUM_def KSTACKSIZE_def

lemmas layout_defs [const_simps] =
  EXTMEM_def PHYSTOP_def DEVSPACE_def KERNBASE_def KERNLINK_def

lemma V2P_P2V [simp]: "V2P (P2V a) = a" and P2V_V2P [simp]: "P2V (V2P a) = a"
  by (simp_all add: V2P_def P2V_def)

end
