(* ===== verification/Memory.thy ===== *)
theory Memory
  imports Prelude
begin

unbundle bit_operations_syntax

text \<open>
  Byte-addressed kernel memory and the address arithmetic of \<open>mmu.h\<close>. A 32-bit load or
  store is four little-endian byte accesses, as on the x86; addresses wrap at 32 bits.
  The lemmas give the laws the allocator, the string routines and the page tables rest on:
  what a load sees after a store, and which stores a page does not see.
\<close>

named_theorems page_simps \<open>page arithmetic\<close>

section \<open>Bytes and words in memory\<close>

type_synonym mem = "u32 \<Rightarrow> u8"

definition rd32 :: "mem \<Rightarrow> u32 \<Rightarrow> u32" where
  "rd32 m a = ucast (m a) OR push_bit 8 (ucast (m (a + 1)))
     OR push_bit 16 (ucast (m (a + 2))) OR push_bit 24 (ucast (m (a + 3)))"

definition wr32 :: "mem \<Rightarrow> u32 \<Rightarrow> u32 \<Rightarrow> mem" where
  "wr32 m a v = m(a := ucast v, a + 1 := ucast (drop_bit 8 v),
     a + 2 := ucast (drop_bit 16 v), a + 3 := ucast (drop_bit 24 v))"

text \<open>
  The x86 string instructions behind \<open>stosb\<close> and \<open>stosl\<close> of \<open>x86.h\<close>: \<open>rep stosb\<close>
  stores the byte \<open>c\<close> at \<open>n\<close> consecutive addresses, \<open>rep stosl\<close> the word \<open>v\<close> at
  \<open>n\<close> consecutive words.
\<close>

definition stosb :: "mem \<Rightarrow> u32 \<Rightarrow> u8 \<Rightarrow> u32 \<Rightarrow> mem" where
  "stosb m a c n = (\<lambda>x. if x - a < n then c else m x)"

definition stosl :: "mem \<Rightarrow> u32 \<Rightarrow> u32 \<Rightarrow> u32 \<Rightarrow> mem" where
  "stosl m a v n = (\<lambda>x. if unat (x - a) < 4 * unat n
     then ucast (drop_bit (8 * (unat (x - a) mod 4)) v) else m x)"

definition put_bytes :: "mem \<Rightarrow> u32 \<Rightarrow> u8 list \<Rightarrow> mem" where
  "put_bytes m a bs = (\<lambda>x. if unat (x - a) < length bs then bs ! unat (x - a) else m x)"

definition in_range :: "u32 \<Rightarrow> u32 \<Rightarrow> u32 \<Rightarrow> bool" where
  "in_range a n x \<longleftrightarrow> x - a < n"

lemma bytes_of_word:
  fixes v :: u32
  shows "ucast (ucast v :: u8) OR push_bit 8 (ucast (ucast (drop_bit 8 v) :: u8))
     OR push_bit 16 (ucast (ucast (drop_bit 16 v) :: u8))
     OR push_bit 24 (ucast (ucast (drop_bit 24 v) :: u8)) = v" (is "?w = v")
proof (rule bit_word_eqI)
  fix n
  assume n: "n < LENGTH(32)"
  consider "n < 8" | "8 \<le> n" "n < 16" | "16 \<le> n" "n < 24" | "24 \<le> n" by linarith
  then show "bit ?w n = bit v n"
    using n by cases (auto simp: bit_simps)
qed

lemma rd32_wr32_same [simp]: "rd32 (wr32 m a v) a = v"
  by (simp add: rd32_def wr32_def bytes_of_word)

lemma rd32_cong: "(\<And>x. in_range a 4 x \<Longrightarrow> m x = m' x) \<Longrightarrow> rd32 m a = rd32 m' a"
  by (simp add: rd32_def in_range_def)

lemma less4_cases: "(d :: u32) < 4 \<Longrightarrow> d = 0 \<or> d = 1 \<or> d = 2 \<or> d = 3"
  by unat_arith

lemma wr32_outside: "\<not> in_range a 4 x \<Longrightarrow> wr32 m a v x = m x"
  by (auto simp: wr32_def in_range_def)

lemma rd32_wr32_other:
  assumes "\<And>x. in_range a 4 x \<Longrightarrow> \<not> in_range b 4 x"
  shows "rd32 (wr32 m a v) b = rd32 m b"
  using assms by (intro rd32_cong wr32_outside) blast

section \<open>Pages: \<open>mmu.h\<close>\<close>

definition PGSIZE :: u32 where "PGSIZE = 4096"
definition PTE_P :: u32 where "PTE_P = 1"
definition PTE_W :: u32 where "PTE_W = 2"
definition PTE_U :: u32 where "PTE_U = 4"
definition PTE_PS :: u32 where "PTE_PS = 0x80"

definition PDX :: "u32 \<Rightarrow> u32" where "PDX va = drop_bit 22 va AND 0x3FF"
definition PTX :: "u32 \<Rightarrow> u32" where "PTX va = drop_bit 12 va AND 0x3FF"
definition PGADDR :: "u32 \<Rightarrow> u32 \<Rightarrow> u32 \<Rightarrow> u32" where
  "PGADDR d t off = push_bit 22 d OR push_bit 12 t OR off"
definition PGROUNDUP :: "u32 \<Rightarrow> u32" where
  "PGROUNDUP sz = (sz + PGSIZE - 1) AND NOT (PGSIZE - 1)"
definition PGROUNDDOWN :: "u32 \<Rightarrow> u32" where
  "PGROUNDDOWN a = a AND NOT (PGSIZE - 1)"
definition PTE_ADDR :: "u32 \<Rightarrow> u32" where "PTE_ADDR pte = pte AND NOT 0xFFF"
definition PTE_FLAGS :: "u32 \<Rightarrow> u32" where "PTE_FLAGS pte = pte AND 0xFFF"

lemmas mmu_defs [const_simps] = PGSIZE_def PTE_P_def PTE_W_def PTE_U_def PTE_PS_def

definition page_aligned :: "u32 \<Rightarrow> bool" where
  "page_aligned a \<longleftrightarrow> a mod PGSIZE = 0"

lemma PGROUNDDOWN_shift: "PGROUNDDOWN a = push_bit 12 (drop_bit 12 a)"
proof -
  have "PGSIZE - 1 = mask 12" by (simp add: PGSIZE_def mask_eq_exp_minus_1)
  then show ?thesis
    unfolding PGROUNDDOWN_def by (intro bit_word_eqI) (auto simp: bit_simps)
qed

lemma unat_PGROUNDDOWN: "unat (PGROUNDDOWN a) = unat a div 4096 * 4096"
proof -
  have "unat a div 4096 * 4096 \<le> unat a" by simp
  also have "unat a < 2 ^ 32" using unsigned_less [of a] by simp
  finally show ?thesis
    by (simp add: PGROUNDDOWN_shift push_bit_eq_mult unat_word_ariths unat_drop_bit_eq
        drop_bit_eq_div)
qed

lemma page_aligned_unat: "page_aligned a \<longleftrightarrow> unat a mod 4096 = 0"
  by (simp add: page_aligned_def PGSIZE_def unat_eq_0 [symmetric] unat_mod)

lemma page_aligned_PGROUNDDOWN [simp, page_simps]: "page_aligned (PGROUNDDOWN a)"
  by (simp add: page_aligned_unat unat_PGROUNDDOWN)

lemma PGROUNDDOWN_aligned [page_simps]: "page_aligned a \<Longrightarrow> PGROUNDDOWN a = a"
  using div_mult_mod_eq [of "unat a" 4096]
  by (simp add: page_aligned_unat unat_PGROUNDDOWN word_unat_eq_iff)

lemma page_top:
  assumes "page_aligned a" and "d < 4096"
  shows "unat a + d < 2 ^ 32" and "(unat a + d) div 4096 * 4096 = unat a"
proof -
  obtain k where k: "unat a = 4096 * k"
    using assms(1) by (auto simp: page_aligned_unat)
  moreover have "unat a < 2 ^ 32" using unsigned_less [of a] by simp
  ultimately show "unat a + d < 2 ^ 32" using assms(2) by simp
  show "(unat a + d) div 4096 * 4096 = unat a" using assms(2) by (simp add: k)
qed

lemma in_page_iff:
  assumes "page_aligned a"
  shows "in_range a PGSIZE x \<longleftrightarrow> PGROUNDDOWN x = a"
proof
  assume "in_range a PGSIZE x"
  then have "unat (x - a) < 4096"
    by (simp add: in_range_def PGSIZE_def word_less_nat_alt)
  moreover have "unat x = (unat a + unat (x - a)) mod 2 ^ 32"
    using unat_word_ariths(1) [of a "x - a"] by simp
  ultimately show "PGROUNDDOWN x = a"
    using page_top [OF assms] by (simp add: word_unat_eq_iff unat_PGROUNDDOWN)
next
  assume "PGROUNDDOWN x = a"
  then have "unat a = unat x div 4096 * 4096" by (auto simp: unat_PGROUNDDOWN)
  moreover from this have "a \<le> x" by (simp add: word_le_nat_alt)
  ultimately have "unat (x - a) < 4096" by (simp add: unat_sub) 
  then show "in_range a PGSIZE x"
    by (simp add: in_range_def PGSIZE_def word_less_nat_alt)
qed

lemma pages_disjoint:
  assumes "page_aligned a" and "page_aligned b" and "in_range a PGSIZE x"
  shows "in_range b PGSIZE x \<longleftrightarrow> b = a"
  using assms by (auto simp: in_page_iff)

lemma PGROUNDUP_down: "PGROUNDUP a = PGROUNDDOWN (a + PGSIZE - 1)"
  by (simp add: PGROUNDUP_def PGROUNDDOWN_def)

lemma page_aligned_PGROUNDUP [simp, page_simps]: "page_aligned (PGROUNDUP a)"
  by (simp add: PGROUNDUP_down)

lemma unat_PGROUNDUP:
  assumes "unat a + 4095 < 2 ^ 32"
  shows "unat (PGROUNDUP a) = (unat a + 4095) div 4096 * 4096"
proof -
  have "unat (a + PGSIZE - 1) = unat a + 4095"
    using assms by (simp add: PGSIZE_def unat_word_ariths)
  then show ?thesis by (simp add: PGROUNDUP_down unat_PGROUNDDOWN)
qed

lemma aligned_ge_round_up:
  assumes "page_aligned p" and "unat a + 4095 < 2 ^ 32"
  shows "unat (PGROUNDUP a) \<le> unat p \<longleftrightarrow> unat a \<le> unat p"
proof -
  obtain k where "unat p = 4096 * k" using assms(1) by (auto simp: page_aligned_unat elim!: dvdE)
  then show ?thesis
    using assms(2) by (simp add: unat_PGROUNDUP) linarith
qed

end
