(* ===== verification/Strings.thy ===== *)
theory Strings
  imports Memory
begin

unbundle bit_operations_syntax

text \<open>
  \<open>string.c\<close>: the kernel's memory and string routines over byte-addressed memory. Pointers
  are 32-bit addresses and every loop of the source is a recursion that reads and writes the
  current memory, so overlapping arguments behave as in the code. The lemmas give each
  routine's effect on memory: the word-wise \<open>memset\<close> equals the byte-wise one,
  \<open>memmove\<close> copies the old contents even when the ranges overlap, \<open>safestrcpy\<close> always
  leaves a terminated string inside its buffer.
\<close>

section \<open>Definitions\<close>

definition memset :: "mem \<Rightarrow> u32 \<Rightarrow> s32 \<Rightarrow> u32 \<Rightarrow> mem" where
  "memset m dst c n =
     (if dst mod 4 = 0 \<and> n mod 4 = 0 then
        (let c = c AND 0xFF
         in stosl m dst (push_bit 24 c OR push_bit 16 c OR push_bit 8 c OR c) (n div 4))
      else stosb m dst (ucast c) n)"

primrec memcmp_loop :: "mem \<Rightarrow> nat \<Rightarrow> u32 \<Rightarrow> u32 \<Rightarrow> s32" where
  "memcmp_loop m 0 s1 s2 = 0"
| "memcmp_loop m (Suc n) s1 s2 =
     (if m s1 \<noteq> m s2 then ucast (m s1) - ucast (m s2)
      else memcmp_loop m n (s1 + 1) (s2 + 1))"

definition memcmp :: "mem \<Rightarrow> u32 \<Rightarrow> u32 \<Rightarrow> u32 \<Rightarrow> s32" where
  "memcmp m v1 v2 n = memcmp_loop m (unat n) v1 v2"

primrec copy_forward :: "mem \<Rightarrow> nat \<Rightarrow> u32 \<Rightarrow> u32 \<Rightarrow> mem" where
  "copy_forward m 0 d s = m"
| "copy_forward m (Suc n) d s = copy_forward (m(d := m s)) n (d + 1) (s + 1)"

primrec copy_backward :: "mem \<Rightarrow> nat \<Rightarrow> u32 \<Rightarrow> u32 \<Rightarrow> mem" where
  "copy_backward m 0 d s = m"
| "copy_backward m (Suc n) d s = copy_backward (m(d - 1 := m (s - 1))) n (d - 1) (s - 1)"

definition memmove :: "mem \<Rightarrow> u32 \<Rightarrow> u32 \<Rightarrow> u32 \<Rightarrow> mem" where
  "memmove m dst src n =
     (if src < dst \<and> src + n > dst
      then copy_backward m (unat n) (dst + n) (src + n)
      else copy_forward m (unat n) dst src)"

definition memcpy :: "mem \<Rightarrow> u32 \<Rightarrow> u32 \<Rightarrow> u32 \<Rightarrow> mem" where
  "memcpy m dst src n = memmove m dst src n"

primrec strncmp_loop :: "mem \<Rightarrow> nat \<Rightarrow> u32 \<Rightarrow> u32 \<Rightarrow> s32" where
  "strncmp_loop m 0 p q = 0"
| "strncmp_loop m (Suc n) p q =
     (if m p \<noteq> 0 \<and> m p = m q then strncmp_loop m n (p + 1) (q + 1)
      else ucast (m p) - ucast (m q))"

definition strncmp :: "mem \<Rightarrow> u32 \<Rightarrow> u32 \<Rightarrow> u32 \<Rightarrow> s32" where
  "strncmp m p q n = strncmp_loop m (unat n) p q"

primrec strncpy_fill :: "mem \<Rightarrow> nat \<Rightarrow> u32 \<Rightarrow> mem" where
  "strncpy_fill m 0 s = m"
| "strncpy_fill m (Suc n) s = strncpy_fill (m(s := 0)) n (s + 1)"

primrec strncpy_loop :: "mem \<Rightarrow> nat \<Rightarrow> u32 \<Rightarrow> u32 \<Rightarrow> mem" where
  "strncpy_loop m 0 s t = m"
| "strncpy_loop m (Suc n) s t =
     (let m' = m(s := m t)
      in if m t \<noteq> 0 then strncpy_loop m' n (s + 1) (t + 1)
         else strncpy_fill m' n (s + 1))"

definition strncpy :: "mem \<Rightarrow> u32 \<Rightarrow> u32 \<Rightarrow> s32 \<Rightarrow> mem" where
  "strncpy m s t n = strncpy_loop m (nat (sint n)) s t"

primrec safestrcpy_loop :: "mem \<Rightarrow> nat \<Rightarrow> u32 \<Rightarrow> u32 \<Rightarrow> mem" where
  "safestrcpy_loop m 0 s t = m(s := 0)"
| "safestrcpy_loop m (Suc n) s t =
     (let m' = m(s := m t)
      in if m t \<noteq> 0 then safestrcpy_loop m' n (s + 1) (t + 1) else m'(s + 1 := 0))"

definition safestrcpy :: "mem \<Rightarrow> u32 \<Rightarrow> u32 \<Rightarrow> s32 \<Rightarrow> mem" where
  "safestrcpy m s t n = (if sint n \<le> 0 then m else safestrcpy_loop m (nat (sint n - 1)) s t)"

text \<open>\<open>strlen\<close> has no bound: without a terminating zero byte the loop does not stop.\<close>

partial_function (option) strlen_loop :: "mem \<Rightarrow> u32 \<Rightarrow> s32 \<Rightarrow> s32 option" where
  "strlen_loop m s n = (if m (s + n) = 0 then Some n else strlen_loop m s (n + 1))"

definition strlen :: "mem \<Rightarrow> u32 \<Rightarrow> s32 option" where
  "strlen m s = strlen_loop m s 0"

section \<open>C strings in memory\<close>

fun bytes_at :: "mem \<Rightarrow> u32 \<Rightarrow> nat \<Rightarrow> u8 list" where
  "bytes_at m a 0 = []"
| "bytes_at m a (Suc n) = m a # bytes_at m (a + 1) n"

fun cstring_at :: "mem \<Rightarrow> u32 \<Rightarrow> u8 list \<Rightarrow> bool" where
  "cstring_at m a [] = (m a = 0)"
| "cstring_at m a (c # cs) = (c \<noteq> 0 \<and> m a = c \<and> cstring_at m (a + 1) cs)"

lemma length_bytes_at [simp]: "length (bytes_at m a n) = n"
  by (induction n arbitrary: a) simp_all

lemma nth_bytes_at: "i < n \<Longrightarrow> bytes_at m a n ! i = m (a + of_nat i)"
  by (induction n arbitrary: a i) (auto simp: nth_Cons algebra_simps split: nat.split)

lemma bytes_at_eq_iff:
  "bytes_at m a n = bytes_at m' b n \<longleftrightarrow> (\<forall>i < n. m (a + of_nat i) = m' (b + of_nat i))"
  by (auto simp: list_eq_iff_nth_eq nth_bytes_at)

lemma cstring_at_unique: "cstring_at m a xs \<Longrightarrow> cstring_at m a ys \<Longrightarrow> xs = ys"
  by (induction m a xs arbitrary: ys rule: cstring_at.induct) (metis cstring_at.elims(2) cstring_at.simps)+

lemma cstring_at_frame:
  assumes "cstring_at m a cs" and "\<And>j. j \<le> length cs \<Longrightarrow> m' (a + of_nat j) = m (a + of_nat j)"
  shows "cstring_at m' a cs"
  using assms
proof (induction cs arbitrary: a)
  case Nil
  from Nil.prems(2) [of 0] Nil.prems(1) show ?case by simp
next
  case (Cons c cs)
  have "m' (a + 1 + of_nat j) = m (a + 1 + of_nat j)" if "j \<le> length cs" for j
    using Cons.prems(2) [of "Suc j"] that by (simp add: algebra_simps)
  then have "cstring_at m' (a + 1) cs"
    using Cons.prems(1) by (intro Cons.IH) simp_all
  then show ?case using Cons.prems(1) Cons.prems(2) [of 0] by simp
qed

section \<open>Loops over an address range\<close>

lemma unat_minus_step:
  assumes "(x :: u32) \<noteq> d"
  shows "unat (x - d) = Suc (unat (x - (d + 1)))"
proof -
  have "x - d = (x - (d + 1)) + 1" by simp
  moreover from assms have "x - d \<noteq> 0" by simp
  ultimately show ?thesis by (metis unatSuc add.commute)
qed

lemma range_step:
  fixes x d :: u32
  assumes "n < 2 ^ 32"
  shows "unat (x - d) < Suc n \<longleftrightarrow> x = d \<or> unat (x - (d + 1)) < n"
    and "x = d \<Longrightarrow> \<not> unat (x - (d + 1)) < n"
proof -
  have top: "unat (- 1 :: u32) = 2 ^ 32 - 1"
    by (simp add: unsigned_minus_1_eq_mask mask_eq_exp_minus_1)
  show "x = d \<Longrightarrow> \<not> unat (x - (d + 1)) < n"
    using assms top by auto
  show "unat (x - d) < Suc n \<longleftrightarrow> x = d \<or> unat (x - (d + 1)) < n"
    by (cases "x = d") (simp_all add: unat_minus_step)
qed

lemma copy_forward_correct:
  assumes "n \<le> 2 ^ 32"
    and "\<And>i j. i < j \<Longrightarrow> j < n \<Longrightarrow> d + of_nat i \<noteq> s + of_nat j"
  shows "copy_forward m n d s = (\<lambda>x. if unat (x - d) < n then m (s + (x - d)) else m x)"
  using assms
proof (induction n arbitrary: m d s)
  case 0
  then show ?case by simp
next
  case (Suc n)
  let ?m = "m(d := m s)"
  have IH: "copy_forward ?m n (d + 1) (s + 1) =
      (\<lambda>x. if unat (x - (d + 1)) < n then ?m (s + 1 + (x - (d + 1))) else ?m x)"
  proof (rule Suc.IH)
    show "n \<le> 2 ^ 32" using Suc.prems(1) by simp
    show "d + 1 + of_nat i \<noteq> s + 1 + of_nat j" if "i < j" "j < n" for i j
      using Suc.prems(2) [of "Suc i" "Suc j"] that by (simp add: algebra_simps)
  qed
  have lt: "n < 2 ^ 32" using Suc.prems(1) by simp
  have later: "s + (x - d) \<noteq> d" if "x \<noteq> d" "unat (x - (d + 1)) < n" for x
    using Suc.prems(2) [of 0 "unat (x - d)"] that by (simp add: unat_minus_step)
  show ?case
  proof (rule ext)
    fix x
    have shift: "s + 1 + (x - (d + 1)) = s + (x - d)" by simp
    show "copy_forward m (Suc n) d s x = (if unat (x - d) < Suc n then m (s + (x - d)) else m x)"
    proof (cases "x = d")
      case True
      with range_step(2) [OF lt True] show ?thesis by (simp add: IH)
    next
      case False
      then show ?thesis
        using later [of x] by (simp add: IH shift range_step(1) [OF lt] del: add_diff_cancel)
    qed
  qed
qed

lemma copy_backward_correct:
  assumes "n \<le> 2 ^ 32"
    and "\<And>i j. i < j \<Longrightarrow> j < n \<Longrightarrow> d + of_nat j \<noteq> s + of_nat i"
  shows "copy_backward m n (d + of_nat n) (s + of_nat n)
       = (\<lambda>x. if unat (x - d) < n then m (s + (x - d)) else m x)"
  using assms
proof (induction n arbitrary: m)
  case 0
  then show ?case by simp
next
  case (Suc n)
  let ?m = "m(d + of_nat n := m (s + of_nat n))"
  have IH: "copy_backward ?m n (d + of_nat n) (s + of_nat n) =
      (\<lambda>x. if unat (x - d) < n then ?m (s + (x - d)) else ?m x)"
    by (rule Suc.IH) (use Suc.prems in auto)
  have un: "unat (of_nat n :: u32) = n"
    using Suc.prems(1) by (simp add: unat_of_nat take_bit_nat_eq_self)
  have "unat (x - d) = n \<longleftrightarrow> x - d = of_nat n" for x
    using un word_unat_eq_iff [of "x - d" "of_nat n"] by simp
  then have split: "unat (x - d) < Suc n \<longleftrightarrow> x = d + of_nat n \<or> unat (x - d) < n" for x
    by (auto simp: less_Suc_eq diff_eq_eq add.commute)
  have earlier: "s + (x - d) \<noteq> d + of_nat n" if "unat (x - d) < n" for x
    using Suc.prems(2) [of "unat (x - d)" n] that by auto
  show ?case
  proof (rule ext)
    fix x
    have pred: "a + of_nat (Suc n) - 1 = a + of_nat n" for a :: u32
      by (simp add: algebra_simps)
    have "copy_backward m (Suc n) (d + of_nat (Suc n)) (s + of_nat (Suc n))
        = copy_backward ?m n (d + of_nat n) (s + of_nat n)"
      by (simp only: copy_backward.simps pred)
    then show "copy_backward m (Suc n) (d + of_nat (Suc n)) (s + of_nat (Suc n)) x
        = (if unat (x - d) < Suc n then m (s + (x - d)) else m x)"
      using earlier [of x] un by (auto simp: IH split)
  qed
qed

section \<open>What the routines do to memory\<close>

definition no_wrap :: "u32 \<Rightarrow> u32 \<Rightarrow> bool" where
  "no_wrap a n \<longleftrightarrow> unat a + unat n \<le> 2 ^ 32"

lemma no_wrap_unat:
  assumes "no_wrap a n" and "i < unat n"
  shows "unat (a + of_nat i) = unat a + i"
proof -
  from assms have "unat a + i < 2 ^ 32" by (simp add: no_wrap_def)
  then show ?thesis by (simp add: unat_word_ariths unat_of_nat take_bit_nat_eq_self)
qed

lemma memmove_effect:
  assumes "no_wrap dst n" and "no_wrap src n"
  shows "memmove m dst src n = (\<lambda>x. if in_range dst n x then m (src + (x - dst)) else m x)"
proof (cases "src < dst \<and> src + n > dst")
  case True
  have "dst + of_nat j \<noteq> src + of_nat i" if "i < j" "j < unat n" for i j
  proof -
    have "unat (src + of_nat i) < unat (dst + of_nat j)"
      using no_wrap_unat [OF assms(1), of j] no_wrap_unat [OF assms(2), of i] that True
      by (simp add: word_less_nat_alt)
    then show ?thesis by auto
  qed
  then have "copy_backward m (unat n) (dst + of_nat (unat n)) (src + of_nat (unat n))
      = (\<lambda>x. if unat (x - dst) < unat n then m (src + (x - dst)) else m x)"
    by (rule copy_backward_correct [OF less_imp_le [OF u32_bound]])
  with True show ?thesis
    by (simp add: memmove_def in_range_def word_less_nat_alt)
next
  case False
  have "dst + of_nat i \<noteq> src + of_nat j" if "i < j" "j < unat n" for i j
  proof
    assume eq: "dst + of_nat i = src + of_nat j"
    with no_wrap_unat [OF assms(1), of i] no_wrap_unat [OF assms(2), of j] that
    have un: "unat dst + i = unat src + j" by simp
    with that have less: "src < dst" by (simp add: word_less_nat_alt)
    then have "unat (src + n) = unat src + unat n"
      using assms(1) by (simp add: no_wrap_def unat_word_ariths word_less_nat_alt)
    with un that have "dst < src + n" by (simp add: word_less_nat_alt)
    with False less show False by simp
  qed
  then have "copy_forward m (unat n) dst src
      = (\<lambda>x. if unat (x - dst) < unat n then m (src + (x - dst)) else m x)"
    by (rule copy_forward_correct [OF less_imp_le [OF u32_bound]])
  with False show ?thesis
    by (auto simp: memmove_def in_range_def word_less_nat_alt)
qed

lemma spread_byte:
  fixes c b :: u32
  assumes "b = c AND 0xFF" and "k < 4"
  shows "ucast (drop_bit (8 * k) (push_bit 24 b OR push_bit 16 b OR push_bit 8 b OR b)) = (ucast c :: u8)"
proof (rule bit_word_eqI)
  fix n
  assume n: "n < LENGTH(8)"
  have "b = take_bit 8 c" by (simp add: assms(1) take_bit_eq_mask mask_eq_exp_minus_1)
  then have bit_b: "bit b i \<longleftrightarrow> i < 8 \<and> bit c i" for i
    by (simp add: bit_take_bit_iff)
  consider "k = 0" | "k = 1" | "k = 2" | "k = 3" using assms(2) by linarith
  then show "bit (ucast (drop_bit (8 * k) (push_bit 24 b OR push_bit 16 b OR push_bit 8 b OR b)) :: u8) n
      = bit (ucast c :: u8) n"
    using n by cases (auto simp: bit_simps bit_b)
qed

lemma memset_effect: "memset m dst c n = stosb m dst (ucast c) n"
proof (cases "dst mod 4 = 0 \<and> n mod 4 = 0")
  case True
  then have "unat (n mod 4) = 0" by simp
  then have "unat n mod 4 = 0" by (simp add: unat_mod)
  then have "4 * unat (n div 4) = unat n"
    using mult_div_mod_eq [of 4 "unat n"] by (simp add: unat_div)
  moreover define b where "b = c AND 0xFF"
  moreover define v where "v = push_bit 24 b OR push_bit 16 b OR push_bit 8 b OR b"
  ultimately have "memset m dst c n = stosl m dst v (n div 4)"
    using True by (simp only: memset_def Let_def simp_thms if_True)
  moreover have "ucast (drop_bit (8 * (k mod 4)) v) = (ucast c :: u8)" for k
    unfolding v_def by (rule spread_byte [OF b_def]) simp
  ultimately show ?thesis
    using \<open>4 * unat (n div 4) = unat n\<close>
    by (simp add: stosl_def stosb_def word_less_nat_alt fun_eq_iff)
next
  case False
  then show ?thesis by (auto simp: memset_def)
qed

lemma safestrcpy_loop_effect:
  assumes "n < 2 ^ 31"
  shows "\<exists>cs. length cs \<le> n \<and> cstring_at (safestrcpy_loop m n s t) s cs"
    and "n < unat (x - s) \<Longrightarrow> safestrcpy_loop m n s t x = m x"
  using assms
proof (induction n arbitrary: m s t x)
  case 0
  { case 1 show ?case by (rule exI [of _ "[]"]) simp }
  { case 2 then show ?case by auto }
next
  case (Suc n)
  have pre: "unat (s - (s + 1)) = 2 ^ 32 - 1"
    by (simp add: unsigned_minus_1_eq_mask mask_eq_exp_minus_1)
  { case 1
    show ?case
    proof (cases "m t = 0")
      case True
      then show ?thesis by (intro exI [of _ "[]"]) simp
    next
      case False
      define m1 where "m1 = m(s := m t)"
      obtain cs where "length cs \<le> n"
        and cs: "cstring_at (safestrcpy_loop m1 n (s + 1) (t + 1)) (s + 1) cs"
        using Suc.IH(1) [of m1 "s + 1" "t + 1"] 1 by auto
      moreover have "safestrcpy_loop m1 n (s + 1) (t + 1) s = m1 s"
        using Suc.IH(2) [of s "s + 1" m1 "t + 1"] 1 pre by simp
      moreover have "m1 s = m t" by (simp add: m1_def)
      ultimately show ?thesis
        using False by (intro exI [of _ "m t # cs"]) (simp add: m1_def [symmetric])
    qed }
  { case 2
    then have "x \<noteq> s" by auto
    with 2 have "n < unat (x - (s + 1))" "x \<noteq> s + 1"
      by (auto simp: unat_minus_step)
    moreover from this have "safestrcpy_loop (m(s := m t)) n (s + 1) (t + 1) x = (m(s := m t)) x"
      by (intro Suc.IH(2)) (use 2 in simp_all)
    ultimately show ?case using \<open>x \<noteq> s\<close> by (simp add: Let_def) }
qed

lemma safestrcpy_loop_copies:
  assumes "n < 2 ^ 31" and "cstring_at m t cs"
    and "\<And>i j. i \<le> n \<Longrightarrow> j \<le> length cs \<Longrightarrow> s + of_nat i \<noteq> t + of_nat j"
  shows "cstring_at (safestrcpy_loop m n s t) s (take n cs)"
  using assms
proof (induction n arbitrary: m s t cs)
  case 0
  then show ?case by simp
next
  case (Suc n)
  have pre: "unat (s - (s + 1)) = 2 ^ 32 - 1"
    by (simp add: unsigned_minus_1_eq_mask mask_eq_exp_minus_1)
  show ?case
  proof (cases cs)
    case Nil
    with Suc.prems show ?thesis by simp
  next
    case (Cons c ds)
    let ?m = "m(s := m t)"
    have "cstring_at ?m (t + 1) ds"
    proof (rule cstring_at_frame)
      show "cstring_at m (t + 1) ds" using Suc.prems(2) Cons by simp
      show "?m (t + 1 + of_nat j) = m (t + 1 + of_nat j)" if "j \<le> length ds" for j
        using Suc.prems(3) [of 0 "Suc j"] that Cons by (simp add: algebra_simps)
    qed
    moreover have "s + 1 + of_nat i \<noteq> t + 1 + of_nat j" if "i \<le> n" "j \<le> length ds" for i j
      using Suc.prems(3) [of "Suc i" "Suc j"] that Cons by (simp add: algebra_simps)
    ultimately have "cstring_at (safestrcpy_loop ?m n (s + 1) (t + 1)) (s + 1) (take n ds)"
      using Suc.prems(1) by (intro Suc.IH) (assumption | simp)+
    moreover have "safestrcpy_loop ?m n (s + 1) (t + 1) s = ?m s"
      by (rule safestrcpy_loop_effect(2)) (use Suc.prems(1) pre in simp_all)
    ultimately show ?thesis
      using Suc.prems(2) Cons by simp
  qed
qed

lemma ucast_up_inj: "ucast (a :: u8) = (ucast b :: u32) \<longleftrightarrow> a = b"
proof -
  have "unat (ucast x :: u32) = unat x" for x :: u8
    using unsigned_less [of x, where 'a = nat]
    by (simp add: unsigned_ucast_eq take_bit_nat_eq_self)
  then show ?thesis by (metis word_unat_eq_iff)
qed

lemma strncmp_loop_zero:
  assumes "cstring_at m p xs" and "cstring_at m q ys"
  shows "strncmp_loop m n p q = 0 \<longleftrightarrow> take n xs = take n ys"
  using assms
proof (induction n arbitrary: p q xs ys)
  case 0
  then show ?case by simp
next
  case (Suc n)
  then show ?case
    using ucast_up_inj [of _ 0] ucast_up_inj [of 0]
    by (cases xs; cases ys) (auto simp: ucast_up_inj)
qed

section \<open>Properties\<close>

lemma bytes_at_memmove:
  assumes "no_wrap dst n" and "no_wrap src n"
  shows "bytes_at (memmove m dst src n) dst (unat n) = bytes_at m src (unat n)"
proof -
  have "in_range dst n (dst + of_nat i)" if "i < unat n" for i
    using that u32_bound [of n]
    by (simp add: in_range_def word_less_nat_alt unat_of_nat take_bit_nat_eq_self)
  then show ?thesis
    by (simp add: bytes_at_eq_iff memmove_effect [OF assms])
qed

text \<open>
  C1. \<open>memmove\<close> leaves at the destination the bytes the source held before the call, also
  when the two ranges overlap in either direction, and changes no byte outside the
  destination, provided neither range runs past the end of the address space.
\<close>

theorem memmove_copies:
  assumes "no_wrap dst n" and "no_wrap src n"
  shows "bytes_at (memmove m dst src n) dst (unat n) = bytes_at m src (unat n)
    \<and> (\<forall>x. \<not> in_range dst n x \<longrightarrow> memmove m dst src n x = m x)"
  using bytes_at_memmove [OF assms] by (simp add: memmove_effect [OF assms])

theorem memmove_copies_witness:
  "no_wrap 0x1002 4 \<and> no_wrap 0x1000 4
   \<and> bytes_at (memmove (\<lambda>x. ucast x) 0x1002 0x1000 4) 0x1002 4 = [0, 1, 2, 3]
   \<and> memmove (\<lambda>x. ucast x) 0x1002 0x1000 4 0x1006 = 6"
proof -
  have h: "no_wrap 0x1002 4" "no_wrap 0x1000 4" by (simp_all add: no_wrap_def)
  have "\<not> in_range 0x1002 4 0x1006" by (simp add: in_range_def)
  moreover have "bytes_at f a 4 = [f a, f (a + 1), f (a + 2), f (a + 3)]" for f :: mem and a
    by (simp add: numeral_eq_Suc add.commute)
  ultimately show ?thesis
    using h memmove_copies [OF h, of "\<lambda>x. ucast x"] by simp
qed

text \<open>
  C2. \<open>safestrcpy\<close> with a positive buffer size always leaves a terminated string that fits
  the buffer and never writes outside it; if the source is a string that does not share
  bytes with the buffer, the result is its longest prefix that fits.
\<close>

theorem safestrcpy_terminated:
  assumes "0 < sint n"
  shows "(\<exists>cs. length cs < nat (sint n) \<and> cstring_at (safestrcpy m s t n) s cs)
    \<and> (\<forall>x. \<not> in_range s n x \<longrightarrow> safestrcpy m s t n x = m x)
    \<and> (\<forall>cs. cstring_at m t cs
        \<longrightarrow> (\<forall>i < nat (sint n). \<forall>j \<le> length cs. s + of_nat i \<noteq> t + of_nat j)
        \<longrightarrow> cstring_at (safestrcpy m s t n) s (take (nat (sint n) - 1) cs))"
proof -
  define k where "k = nat (sint n - 1)"
  have n: "nat (sint n) = Suc k" using assms by (simp add: k_def)
  have "sint n < 2 ^ 31" using sint_lt [of n] by simp
  then have k: "k < 2 ^ 31" using assms by (simp add: k_def)
  have un: "unat n = Suc k"
    using assms unat_nonneg [of n] by (simp add: k_def)
  have cpy: "safestrcpy m s t n = safestrcpy_loop m k s t"
    using assms by (simp add: safestrcpy_def k_def)
  have "\<exists>cs. length cs < Suc k \<and> cstring_at (safestrcpy_loop m k s t) s cs"
    using safestrcpy_loop_effect(1) [OF k] by (simp only: less_Suc_eq_le)
  moreover have "safestrcpy_loop m k s t x = m x" if "\<not> in_range s n x" for x
    using that un by (intro safestrcpy_loop_effect(2) [OF k]) (simp add: in_range_def word_less_nat_alt)
  moreover have "cstring_at (safestrcpy_loop m k s t) s (take k cs)"
    if "cstring_at m t cs" "\<forall>i < Suc k. \<forall>j \<le> length cs. s + of_nat i \<noteq> t + of_nat j" for cs
    by (rule safestrcpy_loop_copies [OF k that(1)]) (use that(2) in \<open>simp add: less_Suc_eq_le\<close>)
  ultimately show ?thesis
    unfolding cpy n diff_Suc_1 by blast
qed

theorem safestrcpy_terminated_witness:
  "cstring_at (safestrcpy (\<lambda>x. if x = 0x20 then 7 else if x = 0x21 then 8 else 0) 0x10 0x20 2) 0x10 [7]"
proof -
  let ?m = "\<lambda>x :: u32. if x = 0x20 then 7 else if x = 0x21 then 8 else (0 :: u8)"
  have "cstring_at ?m 0x20 [7, 8]" by simp
  moreover have "(0x10 :: u32) + of_nat i \<noteq> 0x20 + of_nat j" if "i < 2" "j \<le> 2" for i j :: nat
  proof -
    have "i = 0 \<or> i = 1" "j = 0 \<or> j = 1 \<or> j = 2" using that by auto
    then show ?thesis by auto
  qed
  ultimately have "cstring_at (safestrcpy ?m 0x10 0x20 2) 0x10 (take (nat (sint (2 :: s32)) - 1) [7, 8])"
    using safestrcpy_terminated [where n = 2 and m = ?m and s = "0x10" and t = "0x20", THEN conjunct2,
        THEN conjunct2, rule_format, of "[7, 8]"] by simp
  then show ?thesis by simp
qed

end
