(* ===== verification/Kalloc.thy ===== *)
theory Kalloc
  imports Strings
begin

unbundle bit_operations_syntax

text \<open>
  \<open>kalloc.c\<close>: the physical page allocator. The free list is threaded through the free
  pages themselves, as in the code: \<open>freelist\<close> is the address of the first free page and
  the word stored at a free page is the address of the next one. \<open>free_chain\<close> relates that
  memory to the list of free pages; the locale \<open>page_allocator\<close> states the contract the
  rest of the kernel relies on, and \<open>kalloc\<close>/\<open>kfree\<close> are shown to meet it. The address
  \<open>end\<close> is a linker symbol and so a parameter, \<open>kend\<close>. Acquiring and releasing
  \<open>kmem.lock\<close> only delimits the atomic step that each definition describes.
\<close>

section \<open>State and operations\<close>

record kmem =
  mem :: mem
  use_lock :: bool
  freelist :: u32

definition kfree :: "u32 \<Rightarrow> u32 \<Rightarrow> 'a kmem_scheme \<Rightarrow> 'a kmem_scheme outcome" where
  "kfree kend v s =
     (if v mod PGSIZE \<noteq> 0 \<or> v < kend \<or> V2P v \<ge> PHYSTOP then Panic ''kfree''
      else let m = memset (mem s) v 1 PGSIZE
           in Ret (s\<lparr>mem := wr32 m v (freelist s), freelist := v\<rparr>))"

definition kalloc :: "'a kmem_scheme \<Rightarrow> u32 \<times> 'a kmem_scheme" where
  "kalloc s =
     (let r = freelist s
      in (r, if r \<noteq> 0 then s\<lparr>freelist := rd32 (mem s) r\<rparr> else s))"

definition kfree_ok :: "u32 \<Rightarrow> u32 \<Rightarrow> bool" where
  "kfree_ok kend v \<longleftrightarrow> page_aligned v \<and> kend \<le> v \<and> V2P v < PHYSTOP"

lemma kfree_ok_iff: "kfree_ok kend v \<longleftrightarrow> (\<exists>s'. kfree kend v s = Ret s')"
  by (auto simp: kfree_ok_def kfree_def page_aligned_def not_less Let_def)

lemma kfree_ok_range:
  assumes "kfree_ok kend v"
  shows "0x80000000 \<le> unat v" and "unat v + 4096 \<le> 0x8E000000"
proof -
  have "unat (V2P v) < 0xE000000"
    using assms by (simp add: kfree_ok_def PHYSTOP_def word_less_nat_alt)
  moreover have "unat v = (unat (V2P v) + 0x80000000) mod 2 ^ 32"
    using unat_word_ariths(1) [of "V2P v" KERNBASE] by (simp add: V2P_def KERNBASE_def)
  ultimately have v: "0x80000000 \<le> unat v" "unat v < 0x8E000000" by auto
  show "0x80000000 \<le> unat v" by (rule v)
  obtain k where "unat v = 4096 * k"
    using assms by (auto simp: kfree_ok_def page_aligned_unat)
  with v(2) show "unat v + 4096 \<le> 0x8E000000" by simp
qed

lemma kfree_ok_nonzero: "kfree_ok kend v \<Longrightarrow> v \<noteq> 0"
  using kfree_ok_range(1) [of kend v] by auto

lemma kfree_ok_next: "kfree_ok kend v \<Longrightarrow> unat (v + PGSIZE) = unat v + 4096"
  using kfree_ok_range(2) [of kend v] by (simp add: PGSIZE_def unat_word_ariths)

text \<open>
  \<open>freerange\<close>'s loop. It stops: a page that \<open>kfree\<close> accepts lies below
  \<open>KERNBASE + PHYSTOP\<close>, so adding \<open>PGSIZE\<close> does not wrap.
\<close>

function freerange_loop :: "u32 \<Rightarrow> u32 \<Rightarrow> u32 \<Rightarrow> 'a kmem_scheme \<Rightarrow> 'a kmem_scheme outcome" where
  "freerange_loop kend vend p s =
     (if p + PGSIZE \<le> vend then obind (kfree kend p s) (freerange_loop kend vend (p + PGSIZE))
      else Ret s)"
  by pat_completeness auto
termination
proof (relation "measure (\<lambda>(kend, vend, p, s). 2 ^ 32 - unat p)")
  fix kend vend p and s t :: "'a kmem_scheme"
  assume "kfree kend p s = Ret t"
  then have "kfree_ok kend p" using kfree_ok_iff by blast
  then have "unat (p + PGSIZE) = unat p + 4096" by (rule kfree_ok_next)
  then show "((kend, vend, p + PGSIZE, t), (kend, vend, p, s))
      \<in> measure (\<lambda>(kend, vend, p, s). 2 ^ 32 - unat p)"
    using u32_bound [of "p + PGSIZE"] by simp
qed simp

declare freerange_loop.simps [simp del]

definition freerange :: "u32 \<Rightarrow> u32 \<Rightarrow> u32 \<Rightarrow> 'a kmem_scheme \<Rightarrow> 'a kmem_scheme outcome" where
  "freerange kend vstart vend s = freerange_loop kend vend (PGROUNDUP vstart) s"

definition kinit1 :: "u32 \<Rightarrow> u32 \<Rightarrow> u32 \<Rightarrow> 'a kmem_scheme \<Rightarrow> 'a kmem_scheme outcome" where
  "kinit1 kend vstart vend s = freerange kend vstart vend (s\<lparr>use_lock := False\<rparr>)"

definition kinit2 :: "u32 \<Rightarrow> u32 \<Rightarrow> u32 \<Rightarrow> 'a kmem_scheme \<Rightarrow> 'a kmem_scheme outcome" where
  "kinit2 kend vstart vend s =
     obind (freerange kend vstart vend s) (\<lambda>s. Ret (s\<lparr>use_lock := True\<rparr>))"

section \<open>The free list in memory\<close>

fun free_chain :: "mem \<Rightarrow> u32 \<Rightarrow> u32 list \<Rightarrow> bool" where
  "free_chain m p [] = (p = 0)"
| "free_chain m p (a # as) = (p = a \<and> a \<noteq> 0 \<and> free_chain m (rd32 m a) as)"

definition kmem_rep :: "u32 \<Rightarrow> 'a kmem_scheme \<Rightarrow> u32 list \<Rightarrow> bool" where
  "kmem_rep kend s ps \<longleftrightarrow>
     free_chain (mem s) (freelist s) ps \<and> distinct ps \<and> (\<forall>p \<in> set ps. kfree_ok kend p)"

lemma free_chain_cong:
  assumes "\<And>a x. a \<in> set ps \<Longrightarrow> in_range a 4 x \<Longrightarrow> m x = m' x"
  shows "free_chain m p ps = free_chain m' p ps"
  using assms
proof (induction ps arbitrary: p)
  case Nil
  then show ?case by simp
next
  case (Cons a ps)
  have "rd32 m a = rd32 m' a" using Cons.prems by (intro rd32_cong) auto
  with Cons show ?case by auto
qed

lemma in_range_page: "in_range a 4 x \<Longrightarrow> in_range a PGSIZE x"
  by (simp add: in_range_def PGSIZE_def word_less_nat_alt)

lemma kfree_effect:
  assumes "kfree kend v s = Ret s'"
  shows "freelist s' = v" and "rd32 (mem s') v = freelist s"
    and "\<And>x. \<not> in_range v PGSIZE x \<Longrightarrow> mem s' x = mem s x"
    and "\<And>x. in_range v PGSIZE x \<Longrightarrow> \<not> in_range v 4 x \<Longrightarrow> mem s' x = 1"
    and "kmem.more s' = kmem.more s" and "use_lock s' = use_lock s"
proof -
  have s': "s' = s\<lparr>mem := wr32 (stosb (mem s) v 1 PGSIZE) v (freelist s), freelist := v\<rparr>"
    using assms by (simp add: kfree_def Let_def memset_effect split: if_splits)
  show "freelist s' = v" "rd32 (mem s') v = freelist s" "kmem.more s' = kmem.more s"
    "use_lock s' = use_lock s"
    by (simp_all add: s')
  show "mem s' x = mem s x" if "\<not> in_range v PGSIZE x" for x
  proof -
    have "\<not> in_range v 4 x" using that in_range_page by blast
    with that show ?thesis by (simp add: s' wr32_outside) (simp add: stosb_def in_range_def)
  qed
  show "mem s' x = 1" if "in_range v PGSIZE x" "\<not> in_range v 4 x" for x
    using that by (simp add: s' wr32_outside) (simp add: stosb_def in_range_def)
qed

lemma kmem_rep_kfree:
  assumes "kmem_rep kend s ps" and "kfree_ok kend v" and "v \<notin> set ps"
  shows "\<exists>s'. kfree kend v s = Ret s' \<and> kmem_rep kend s' (v # ps)"
proof -
  obtain s' where s': "kfree kend v s = Ret s'" using assms(2) kfree_ok_iff by blast
  note eff = kfree_effect [OF s']
  have "free_chain (mem s') p ps = free_chain (mem s) p ps" for p
  proof (rule free_chain_cong)
    fix a x
    assume "a \<in> set ps" and "in_range a 4 x"
    moreover from this assms have "a \<noteq> v" "page_aligned a" "page_aligned v"
      by (auto simp: kmem_rep_def kfree_ok_def)
    ultimately have "\<not> in_range v PGSIZE x"
      using pages_disjoint [of a v x] in_range_page by blast
    then show "mem s' x = mem s x" by (rule eff)
  qed
  with assms eff kfree_ok_nonzero [OF assms(2)] have "kmem_rep kend s' (v # ps)"
    by (simp add: kmem_rep_def)
  with s' show ?thesis by blast
qed

lemma kmem_rep_kalloc:
  assumes "kmem_rep kend s (p # ps)"
  shows "\<exists>s'. kalloc s = (p, s') \<and> kmem_rep kend s' ps \<and> mem s' = mem s \<and> kmem.more s' = kmem.more s"
  using assms by (auto simp: kmem_rep_def kalloc_def Let_def)

lemma kmem_rep_kalloc_none: "kmem_rep kend s [] \<Longrightarrow> kalloc s = (0, s)"
  by (simp add: kmem_rep_def kalloc_def)

section \<open>The allocator's contract\<close>

locale page_allocator =
  fixes alloc :: "'s \<Rightarrow> u32 \<times> 's"
    and free :: "u32 \<Rightarrow> 's \<Rightarrow> 's outcome"
    and ok :: "u32 \<Rightarrow> bool"
    and rep :: "'s \<Rightarrow> u32 list \<Rightarrow> bool"
  assumes alloc_page: "rep s (p # ps) \<Longrightarrow> \<exists>s'. alloc s = (p, s') \<and> rep s' ps"
    and alloc_none: "rep s [] \<Longrightarrow> alloc s = (0, s)"
    and free_page: "rep s ps \<Longrightarrow> ok v \<Longrightarrow> v \<notin> set ps \<Longrightarrow> \<exists>s'. free v s = Ret s' \<and> rep s' (v # ps)"
    and rep_distinct: "rep s ps \<Longrightarrow> distinct ps"
    and rep_ok: "rep s ps \<Longrightarrow> p \<in> set ps \<Longrightarrow> ok p"
    and ok_nonzero: "ok p \<Longrightarrow> p \<noteq> 0"

text \<open>
  A client: a sequence of requests, with the pages it currently holds. A page is given
  back by its position among the held pages.
\<close>

datatype request = Get | Put nat

fun serve :: "('s \<Rightarrow> u32 \<times> 's) \<Rightarrow> (u32 \<Rightarrow> 's \<Rightarrow> 's outcome) \<Rightarrow> request list \<Rightarrow> u32 list \<Rightarrow> 's
    \<Rightarrow> (u32 list \<times> 's) outcome" where
  "serve al fr [] held s = Ret (held, s)"
| "serve al fr (Get # rs) held s =
     (let (p, s') = al s in serve al fr rs (if p = 0 then held else p # held) s')"
| "serve al fr (Put k # rs) held s =
     (if k < length held
      then obind (fr (held ! k) s) (serve al fr rs (take k held @ drop (Suc k) held))
      else serve al fr rs held s)"

context page_allocator
begin

lemma serve_conserves:
  assumes "rep s ps" and "distinct (held @ ps)" and "\<forall>p \<in> set held. ok p"
  shows "\<exists>held' s' ps'. serve alloc free rs held s = Ret (held', s') \<and> rep s' ps'
    \<and> distinct (held' @ ps') \<and> set held' \<union> set ps' = set held \<union> set ps"
  using assms
proof (induction rs arbitrary: held s ps)
  case Nil
  then show ?case by auto
next
  case (Cons r rs)
  show ?case
  proof (cases r)
    case Get
    show ?thesis
    proof (cases ps)
      case Nil
      with Cons.IH [OF Cons.prems] Cons.prems Get show ?thesis by (simp add: alloc_none)
    next
      case (Cons p qs)
      from alloc_page Cons.prems(1) Cons obtain s' where s': "alloc s = (p, s')" "rep s' qs"
        by blast
      have p: "ok p" "p \<noteq> 0"
        using rep_ok [OF Cons.prems(1)] Cons ok_nonzero by auto
      have "\<exists>held' s'' ps'. serve alloc free rs (p # held) s' = Ret (held', s'') \<and> rep s'' ps'
          \<and> distinct (held' @ ps') \<and> set held' \<union> set ps' = set (p # held) \<union> set qs"
        using s'(2) Cons.prems(2,3) Cons p by (intro Cons.IH) auto
      with Get s'(1) p Cons show ?thesis by simp
    qed
  next
    case (Put k)
    show ?thesis
    proof (cases "k < length held")
      case False
      with Cons Put show ?thesis by simp
    next
      case True
      let ?p = "held ! k" and ?rest = "take k held @ drop (Suc k) held"
      have split: "held = take k held @ ?p # drop (Suc k) held"
        using True by (rule id_take_nth_drop)
      have "?p \<notin> set ps" "ok ?p" using Cons.prems(2,3) nth_mem [OF True] by auto
      then obtain s' where s': "free ?p s = Ret s'" "rep s' (?p # ps)"
        using free_page [OF Cons.prems(1)] by blast
      have "distinct (?rest @ ?p # ps)"
        using Cons.prems(2) by (subst (asm) split) auto
      moreover have "\<forall>q \<in> set ?rest. ok q"
        using Cons.prems(3) by (auto dest: in_set_takeD in_set_dropD)
      ultimately have "\<exists>held' s'' ps'. serve alloc free rs ?rest s' = Ret (held', s'') \<and> rep s'' ps'
          \<and> distinct (held' @ ps') \<and> set held' \<union> set ps' = set ?rest \<union> set (?p # ps)"
        by (rule Cons.IH [OF s'(2)])
      moreover have "set ?rest \<union> set (?p # ps) = set held \<union> set ps"
        by (subst (3) split) auto
      ultimately show ?thesis using Put True s'(1) by simp
    qed
  qed
qed

end

interpretation ka: page_allocator kalloc "kfree kend" "kfree_ok kend" "kmem_rep kend" for kend
proof unfold_locales
  show "\<exists>s'. kalloc s = (p, s') \<and> kmem_rep kend s' ps" if "kmem_rep kend s (p # ps)"
    for s :: "'a kmem_scheme" and p ps
    using kmem_rep_kalloc [OF that] by blast
  show "\<exists>s'. kfree kend v s = Ret s' \<and> kmem_rep kend s' (v # ps)"
    if "kmem_rep kend s ps" "kfree_ok kend v" "v \<notin> set ps" for s :: "'a kmem_scheme" and v ps
    using that by (rule kmem_rep_kfree)
qed (auto simp: kmem_rep_kalloc_none kfree_ok_nonzero, auto simp: kmem_rep_def)

section \<open>What \<open>freerange\<close> puts on the list\<close>

definition whole_pages :: "u32 \<Rightarrow> u32 \<Rightarrow> u32 set" where
  "whole_pages lo hi = {a. page_aligned a \<and> unat lo \<le> unat a \<and> unat a + 4096 \<le> unat hi}"

lemma whole_pages_step:
  assumes "page_aligned p" and "unat p + 4096 \<le> unat vend" and nx: "unat q = unat p + 4096"
  shows "whole_pages p vend = insert p (whole_pages q vend)" and "p \<notin> whole_pages q vend"
proof -
  have "a = p \<or> unat p + 4096 \<le> unat a" if "page_aligned a" "unat p \<le> unat a" for a
  proof -
    obtain j k where "unat p = 4096 * j" "unat a = 4096 * k"
      using assms(1) \<open>page_aligned a\<close> by (auto simp: page_aligned_unat elim!: dvdE)
    with \<open>unat p \<le> unat a\<close> show ?thesis by (auto simp: word_unat_eq_iff)
  qed
  then show "whole_pages p vend = insert p (whole_pages q vend)"
    using assms by (auto simp: whole_pages_def)
  show "p \<notin> whole_pages q vend" using nx by (simp add: whole_pages_def)
qed

lemma freerange_loop_frees:
  assumes "page_aligned p" and "unat kend \<le> unat p" and "0x80000000 \<le> unat p"
    and "unat p < 0x8F000000" and "unat vend \<le> 0x8E000000"
    and "kmem_rep kend s ps" and "set ps \<inter> whole_pages p vend = {}"
  shows "\<exists>s' ps'. freerange_loop kend vend p s = Ret s' \<and> kmem_rep kend s' ps'
    \<and> set ps' = set ps \<union> whole_pages p vend"
  using assms
proof (induction kend vend p s arbitrary: ps rule: freerange_loop.induct)
  case (1 kend vend p s)
  have nxt: "unat (p + PGSIZE) = unat p + 4096"
    using 1(5) by (simp add: PGSIZE_def unat_word_ariths)
  show ?case
  proof (cases "p + PGSIZE \<le> vend")
    case False
    then have "whole_pages p vend = {}"
      using nxt by (auto simp: whole_pages_def word_le_nat_alt)
    with False 1(7) show ?thesis
      by (subst freerange_loop.simps) auto
  next
    case True
    then have top: "unat p + 4096 \<le> unat vend" using nxt by (simp add: word_le_nat_alt)
    note step = whole_pages_step [OF 1(2) top nxt]
    have "unat (V2P p) = unat p - 0x80000000"
      using 1(4) by (simp add: V2P_def KERNBASE_def unat_sub word_le_nat_alt)
    then have ok: "kfree_ok kend p"
      using 1(2,3,6) top by (simp add: kfree_ok_def word_le_nat_alt word_less_nat_alt PHYSTOP_def)
    moreover have "p \<notin> set ps" using 1(8) step by auto
    ultimately obtain t where t: "kfree kend p s = Ret t" "kmem_rep kend t (p # ps)"
      using kmem_rep_kfree [OF 1(7)] by blast
    have "page_aligned (p + PGSIZE)"
      using 1(2) nxt by (simp add: page_aligned_unat)
    moreover have "unat (p + PGSIZE) < 0x8F000000"
      using nxt top 1(6) by simp
    moreover have "set (p # ps) \<inter> whole_pages (p + PGSIZE) vend = {}"
      using 1(8) step by auto
    ultimately obtain s' ps' where
      "freerange_loop kend vend (p + PGSIZE) t = Ret s'" "kmem_rep kend s' ps'"
      "set ps' = set (p # ps) \<union> whole_pages (p + PGSIZE) vend"
      using 1(1) [OF True t(1) _ _ _ _ 1(6) t(2)] 1(3,4) nxt by auto
    then show ?thesis
      using True t(1) step by (subst freerange_loop.simps) auto
  qed
qed

section \<open>Properties\<close>

text \<open>
  C3. Whatever sequence of \<open>kalloc\<close> and \<open>kfree\<close> calls a client makes that only frees pages
  it holds, no call panics, no page is handed out while it is held or free, and no page is
  lost: the held pages and the free pages stay disjoint and together are the same pages.
\<close>

theorem kalloc_conserves_pages:
  assumes "kmem_rep kend s ps" and "distinct (held @ ps)" and "\<forall>p \<in> set held. kfree_ok kend p"
  shows "\<exists>held' s' ps'. serve kalloc (kfree kend) rs held s = Ret (held', s') \<and> kmem_rep kend s' ps'
    \<and> distinct (held' @ ps') \<and> set held' \<union> set ps' = set held \<union> set ps"
  using assms by (rule ka.serve_conserves)

theorem kalloc_conserves_pages_witness:
  "\<exists>held' s' ps'. serve kalloc (kfree 0x80100000) [Get, Get, Put 0, Get] []
      \<lparr>mem = (\<lambda>_. 0), use_lock = True, freelist = 0x80400000\<rparr> = Ret (held', s')
    \<and> kmem_rep 0x80100000 s' ps' \<and> distinct (held' @ ps') \<and> set held' \<union> set ps' = {0x80400000}"
proof -
  let ?s = "\<lparr>mem = (\<lambda>_. 0), use_lock = True, freelist = 0x80400000\<rparr>"
  have ok: "kfree_ok 0x80100000 0x80400000"
    by (simp add: kfree_ok_def page_aligned_def const_simps V2P_def)
  then have "kmem_rep 0x80100000 ?s [0x80400000]"
    by (simp add: kmem_rep_def rd32_def)
  from kalloc_conserves_pages [OF this, of "[]" "[Get, Get, Put 0, Get]"] show ?thesis by simp
qed

text \<open>
  C4. \<open>freerange\<close> over \<open>[vstart, vend)\<close> inside the kernel's direct map terminates
  without a panic and adds exactly the whole pages of the range to the free list.
\<close>

theorem freerange_frees_pages:
  assumes "unat kend \<le> unat vstart" and "0x80000000 \<le> unat vstart" and "unat vstart < 0x8E000000"
    and "unat vend \<le> 0x8E000000"
    and "kmem_rep kend s ps" and "set ps \<inter> whole_pages vstart vend = {}"
  shows "\<exists>s' ps'. freerange kend vstart vend s = Ret s' \<and> kmem_rep kend s' ps'
    \<and> set ps' = set ps \<union> whole_pages vstart vend"
proof -
  have small: "unat vstart + 4095 < 2 ^ 32" using assms(3) by simp
  have eq: "whole_pages (PGROUNDUP vstart) vend = whole_pages vstart vend"
    using aligned_ge_round_up [OF _ small] by (auto simp: whole_pages_def)
  have "unat vstart \<le> unat (PGROUNDUP vstart)"
    using aligned_ge_round_up [OF page_aligned_PGROUNDUP [of vstart] small] by simp
  moreover have "unat (PGROUNDUP vstart) < 0x8F000000"
    using assms(3) by (simp add: unat_PGROUNDUP [OF small])
  ultimately show ?thesis
    using freerange_loop_frees [of "PGROUNDUP vstart" kend vend s ps] assms eq
    by (simp add: freerange_def)
qed

theorem freerange_frees_pages_witness:
  "\<exists>s' ps'. freerange 0x80100000 0x80100800 0x80103000
      \<lparr>mem = (\<lambda>_. 0), use_lock = False, freelist = 0\<rparr> = Ret s'
    \<and> kmem_rep 0x80100000 s' ps' \<and> {0x80101000, 0x80102000} \<subseteq> set ps'"
proof -
  let ?s = "\<lparr>mem = (\<lambda>_. 0), use_lock = False, freelist = 0\<rparr>"
  have rep: "kmem_rep 0x80100000 ?s []" by (simp add: kmem_rep_def)
  have "{0x80101000, 0x80102000} \<subseteq> whole_pages 0x80100800 0x80103000"
    by (simp add: whole_pages_def page_aligned_def PGSIZE_def)
  then show ?thesis
    using freerange_frees_pages [OF _ _ _ _ rep, of "0x80100800" "0x80103000"] by auto
qed

end
