(* ===== verification/Vm.thy ===== *)
theory Vm
  imports Kalloc
begin

unbundle bit_operations_syntax

text \<open>
  \<open>vm.c\<close>: two-level page tables in kernel memory. A page directory or page table is a page
  of 1024 little-endian words, reached through the kernel's direct map (\<open>P2V\<close>). The
  routines return the address the C code returns (0 for failure) and the new state. A loop
  over the pages of a range carries a bound on its rounds, computed from the range; running
  out of it is the outcome \<open>Loop\<close>. The messages of \<open>cprintf\<close> are not part of the state.
\<close>

section \<open>Walking and mapping\<close>

definition walkpgdir :: "u32 \<Rightarrow> u32 \<Rightarrow> bool \<Rightarrow> 'a kmem_scheme \<Rightarrow> u32 \<times> 'a kmem_scheme" where
  "walkpgdir pgdir va alloc s =
     (let pde = pgdir + 4 * PDX va;
          e = rd32 (mem s) pde
      in if e AND PTE_P \<noteq> 0 then (P2V (PTE_ADDR e) + 4 * PTX va, s)
         else if \<not> alloc then (0, s)
         else let (pgtab, s) = kalloc s
              in if pgtab = 0 then (0, s)
                 else let m = memset (mem s) pgtab 0 PGSIZE;
                          m = wr32 m pde (V2P pgtab OR PTE_P OR PTE_W OR PTE_U)
                      in (pgtab + 4 * PTX va, s\<lparr>mem := m\<rparr>))"

fun mappages_loop :: "nat \<Rightarrow> u32 \<Rightarrow> u32 \<Rightarrow> u32 \<Rightarrow> u32 \<Rightarrow> u32 \<Rightarrow> 'a kmem_scheme
    \<Rightarrow> (s32 \<times> 'a kmem_scheme) outcome" where
  "mappages_loop 0 pgdir a lst pa perm s = Loop"
| "mappages_loop (Suc n) pgdir a lst pa perm s =
     (let (pte, s) = walkpgdir pgdir a True s
      in if pte = 0 then Ret (-1, s)
         else if rd32 (mem s) pte AND PTE_P \<noteq> 0 then Panic ''remap''
         else let s = s\<lparr>mem := wr32 (mem s) pte (pa OR perm OR PTE_P)\<rparr>
              in if a = lst then Ret (0, s)
                 else mappages_loop n pgdir (a + PGSIZE) lst (pa + PGSIZE) perm s)"

definition mappages :: "u32 \<Rightarrow> u32 \<Rightarrow> u32 \<Rightarrow> u32 \<Rightarrow> u32 \<Rightarrow> 'a kmem_scheme
    \<Rightarrow> (s32 \<times> 'a kmem_scheme) outcome" where
  "mappages pgdir va sz pa perm s =
     (let a = PGROUNDDOWN va;
          lst = PGROUNDDOWN (va + sz - 1)
      in mappages_loop (Suc (unat (lst - a) div 4096)) pgdir a lst pa perm s)"

section \<open>Releasing user memory\<close>

fun deallocuvm_loop :: "nat \<Rightarrow> u32 \<Rightarrow> u32 \<Rightarrow> u32 \<Rightarrow> u32 \<Rightarrow> 'a kmem_scheme \<Rightarrow> 'a kmem_scheme outcome" where
  "deallocuvm_loop 0 kend pgdir a oldsz s = (if a < oldsz then Loop else Ret s)"
| "deallocuvm_loop (Suc n) kend pgdir a oldsz s =
     (if a < oldsz then
        let (pte, s) = walkpgdir pgdir a False s
        in if pte = 0 then deallocuvm_loop n kend pgdir (PGADDR (PDX a + 1) 0 0 - PGSIZE + PGSIZE) oldsz s
           else if rd32 (mem s) pte AND PTE_P \<noteq> 0 then
             let pa = PTE_ADDR (rd32 (mem s) pte)
             in if pa = 0 then Panic ''kfree''
                else obind (kfree kend (P2V pa) s) (\<lambda>s.
                  deallocuvm_loop n kend pgdir (a + PGSIZE) oldsz (s\<lparr>mem := wr32 (mem s) pte 0\<rparr>))
           else deallocuvm_loop n kend pgdir (a + PGSIZE) oldsz s
      else Ret s)"

definition deallocuvm :: "u32 \<Rightarrow> u32 \<Rightarrow> u32 \<Rightarrow> u32 \<Rightarrow> 'a kmem_scheme \<Rightarrow> (u32 \<times> 'a kmem_scheme) outcome" where
  "deallocuvm kend pgdir oldsz newsz s =
     (if newsz \<ge> oldsz then Ret (oldsz, s)
      else obind (deallocuvm_loop (Suc (unat oldsz div 4096)) kend pgdir (PGROUNDUP newsz) oldsz s)
             (\<lambda>s. Ret (newsz, s)))"

definition NPDENTRIES :: nat where "NPDENTRIES = 1024"

definition freevm_entry :: "u32 \<Rightarrow> u32 \<Rightarrow> nat \<Rightarrow> 'a kmem_scheme \<Rightarrow> 'a kmem_scheme outcome" where
  "freevm_entry kend pgdir i s =
     (let e = rd32 (mem s) (pgdir + 4 * of_nat i)
      in if e AND PTE_P \<noteq> 0 then kfree kend (P2V (PTE_ADDR e)) s else Ret s)"

definition freevm :: "u32 \<Rightarrow> u32 \<Rightarrow> 'a kmem_scheme \<Rightarrow> 'a kmem_scheme outcome" where
  "freevm kend pgdir s =
     (if pgdir = 0 then Panic ''freevm: no pgdir''
      else obind (deallocuvm kend pgdir KERNBASE 0 s) (\<lambda>(_, s).
           obind (ofold (freevm_entry kend pgdir) [0..<NPDENTRIES] s) (kfree kend pgdir)))"

section \<open>Building address spaces\<close>

text \<open>\<open>kmap\<close>: (virtual start, physical start, physical end, permissions); \<open>data\<close> is set by the linker.\<close>

definition kmap :: "u32 \<Rightarrow> (u32 \<times> u32 \<times> u32 \<times> u32) list" where
  "kmap data =
     [(KERNBASE, 0, EXTMEM, PTE_W),
      (KERNLINK, V2P KERNLINK, V2P data, 0),
      (data, V2P data, PHYSTOP, PTE_W),
      (DEVSPACE, DEVSPACE, 0, PTE_W)]"

fun setupkvm_loop :: "u32 \<Rightarrow> u32 \<Rightarrow> (u32 \<times> u32 \<times> u32 \<times> u32) list \<Rightarrow> 'a kmem_scheme
    \<Rightarrow> (u32 \<times> 'a kmem_scheme) outcome" where
  "setupkvm_loop kend pgdir [] s = Ret (pgdir, s)"
| "setupkvm_loop kend pgdir ((virt, lo, hi, perm) # ks) s =
     obind (mappages pgdir virt (hi - lo) lo perm s) (\<lambda>(r, s).
       if sint r < 0 then obind (freevm kend pgdir s) (\<lambda>s. Ret (0, s))
       else setupkvm_loop kend pgdir ks s)"

definition setupkvm :: "u32 \<Rightarrow> u32 \<Rightarrow> 'a kmem_scheme \<Rightarrow> (u32 \<times> 'a kmem_scheme) outcome" where
  "setupkvm kend data s =
     (let (pgdir, s) = kalloc s
      in if pgdir = 0 then Ret (0, s)
         else let s = s\<lparr>mem := memset (mem s) pgdir 0 PGSIZE\<rparr>
              in if P2V PHYSTOP > DEVSPACE then Panic ''PHYSTOP too high''
                 else setupkvm_loop kend pgdir (kmap data) s)"

definition inituvm :: "u32 \<Rightarrow> u8 list \<Rightarrow> 'a kmem_scheme \<Rightarrow> 'a kmem_scheme outcome" where
  "inituvm pgdir init s =
     (if length init \<ge> 4096 then Panic ''inituvm: more than a page''
      else let (p, s) = kalloc s
           in if p = 0 then Fault
              else obind (mappages pgdir 0 PGSIZE (V2P p) (PTE_W OR PTE_U)
                           (s\<lparr>mem := memset (mem s) p 0 PGSIZE\<rparr>))
                     (\<lambda>(_, s). Ret (s\<lparr>mem := put_bytes (mem s) p init\<rparr>)))"

fun allocuvm_loop :: "nat \<Rightarrow> u32 \<Rightarrow> u32 \<Rightarrow> u32 \<Rightarrow> u32 \<Rightarrow> u32 \<Rightarrow> 'a kmem_scheme
    \<Rightarrow> (u32 \<times> 'a kmem_scheme) outcome" where
  "allocuvm_loop 0 kend pgdir a oldsz newsz s = (if a < newsz then Loop else Ret (newsz, s))"
| "allocuvm_loop (Suc n) kend pgdir a oldsz newsz s =
     (if a < newsz then
        let (p, s) = kalloc s
        in if p = 0 then obind (deallocuvm kend pgdir newsz oldsz s) (\<lambda>(_, s). Ret (0, s))
           else obind (mappages pgdir a PGSIZE (V2P p) (PTE_W OR PTE_U)
                        (s\<lparr>mem := memset (mem s) p 0 PGSIZE\<rparr>)) (\<lambda>(r, s).
             if sint r < 0 then
               obind (deallocuvm kend pgdir newsz oldsz s) (\<lambda>(_, s).
               obind (kfree kend p s) (\<lambda>s. Ret (0, s)))
             else allocuvm_loop n kend pgdir (a + PGSIZE) oldsz newsz s)
      else Ret (newsz, s))"

definition allocuvm :: "u32 \<Rightarrow> u32 \<Rightarrow> u32 \<Rightarrow> u32 \<Rightarrow> 'a kmem_scheme \<Rightarrow> (u32 \<times> 'a kmem_scheme) outcome" where
  "allocuvm kend pgdir oldsz newsz s =
     (if newsz \<ge> KERNBASE then Ret (0, s)
      else if newsz < oldsz then Ret (oldsz, s)
      else allocuvm_loop (Suc (unat newsz div 4096)) kend pgdir (PGROUNDUP oldsz) oldsz newsz s)"

definition clearpteu :: "u32 \<Rightarrow> u32 \<Rightarrow> 'a kmem_scheme \<Rightarrow> 'a kmem_scheme outcome" where
  "clearpteu pgdir uva s =
     (let (pte, s) = walkpgdir pgdir uva False s
      in if pte = 0 then Panic ''clearpteu''
         else Ret (s\<lparr>mem := wr32 (mem s) pte (rd32 (mem s) pte AND NOT PTE_U)\<rparr>))"

fun copyuvm_loop :: "nat \<Rightarrow> u32 \<Rightarrow> u32 \<Rightarrow> u32 \<Rightarrow> u32 \<Rightarrow> u32 \<Rightarrow> 'a kmem_scheme
    \<Rightarrow> (u32 \<times> 'a kmem_scheme) outcome" where
  "copyuvm_loop 0 kend pgdir d i sz s = (if i < sz then Loop else Ret (d, s))"
| "copyuvm_loop (Suc n) kend pgdir d i sz s =
     (if i < sz then
        let (pte, s) = walkpgdir pgdir i False s
        in if pte = 0 then Panic ''copyuvm: pte should exist''
           else let e = rd32 (mem s) pte
                in if e AND PTE_P = 0 then Panic ''copyuvm: page not present''
                   else let (p, s) = kalloc s
                        in if p = 0 then obind (freevm kend d s) (\<lambda>s. Ret (0, s))
                           else obind (mappages d i PGSIZE (V2P p) (PTE_FLAGS e)
                                  (s\<lparr>mem := memmove (mem s) p (P2V (PTE_ADDR e)) PGSIZE\<rparr>)) (\<lambda>(r, s).
                             if sint r < 0 then
                               obind (kfree kend p s) (\<lambda>s.
                               obind (freevm kend d s) (\<lambda>s. Ret (0, s)))
                             else copyuvm_loop n kend pgdir d (i + PGSIZE) sz s)
      else Ret (d, s))"

definition copyuvm :: "u32 \<Rightarrow> u32 \<Rightarrow> u32 \<Rightarrow> u32 \<Rightarrow> 'a kmem_scheme \<Rightarrow> (u32 \<times> 'a kmem_scheme) outcome" where
  "copyuvm kend data pgdir sz s =
     obind (setupkvm kend data s) (\<lambda>(d, s).
       if d = 0 then Ret (0, s)
       else copyuvm_loop (Suc (unat sz div 4096)) kend pgdir d 0 sz s)"

text \<open>\<open>uva2ka\<close> dereferences the result of \<open>walkpgdir\<close> unchecked: a null pointer is a \<open>Fault\<close>.\<close>

definition uva2ka :: "u32 \<Rightarrow> u32 \<Rightarrow> 'a kmem_scheme \<Rightarrow> u32 outcome" where
  "uva2ka pgdir uva s =
     (let (pte, s) = walkpgdir pgdir uva False s
      in if pte = 0 then Fault
         else let e = rd32 (mem s) pte
              in if e AND PTE_P = 0 then Ret 0
                 else if e AND PTE_U = 0 then Ret 0
                 else Ret (P2V (PTE_ADDR e)))"

text \<open>
  \<open>copyout\<close>: the source bytes are passed by value. Each round writes at least one byte.
\<close>

lemma page_offset: "unat (va - PGROUNDDOWN va) < 4096"
  using in_page_iff [of "PGROUNDDOWN va" va]
  by (simp add: in_range_def PGSIZE_def word_less_nat_alt)

function copyout :: "u32 \<Rightarrow> u32 \<Rightarrow> u8 list \<Rightarrow> 'a kmem_scheme \<Rightarrow> (s32 \<times> 'a kmem_scheme) outcome" where
  "copyout pgdir va bs s =
     (if bs = [] then Ret (0, s)
      else let va0 = PGROUNDDOWN va
           in obind (uva2ka pgdir va0 s) (\<lambda>pa0.
                if pa0 = 0 then Ret (-1, s)
                else let n = min (4096 - unat (va - va0)) (length bs)
                     in copyout pgdir (va0 + PGSIZE) (drop n bs)
                          (s\<lparr>mem := put_bytes (mem s) (pa0 + (va - va0)) (take n bs)\<rparr>)))"
  by pat_completeness auto
termination
  by (relation "measure (\<lambda>(_, _, bs, _). length bs)") (use page_offset in auto)

declare copyout.simps [simp del]

end
