(* ===== verification/Spinlock.thy ===== *)
theory Spinlock
  imports Prelude
begin

text \<open>
  \<open>spinlock.c\<close> and the per-CPU state of \<open>proc.h\<close>. \<open>pushcli\<close>/\<open>popcli\<close> and the lock
  routines are functions on the current CPU and the lock. The second half is a step
  relation in which several CPUs interleave the memory operations of \<open>acquire\<close> and
  \<open>release\<close> one by one (the atomic \<open>xchg\<close>, the write of \<open>lk->cpu\<close>, the two writes of
  \<open>release\<close>): in every reachable state a lock has at most one owner, and a CPU that owns or
  waits for a lock runs with interrupts off, its \<open>ncli\<close> counting exactly those locks.
\<close>

section \<open>CPUs and locks\<close>

text \<open>
  \<open>fl_if\<close> is the interrupt flag of the CPU's \<open>eflags\<close>, \<open>cr3\<close> its page table register; the
  \<open>ts_\<close> fields are those of the task state segment that the kernel sets.
\<close>

record cpu =
  apicid :: u8
  started :: u32
  ncli :: s32
  intena :: bool
  cproc :: "nat option"
  fl_if :: bool
  cr3 :: u32
  ts_ss0 :: u16
  ts_esp0 :: u32
  ts_iomb :: u16

record spinlock =
  locked :: u32
  lname :: string
  lcpu :: "nat option"

definition initlock :: "string \<Rightarrow> spinlock" where
  "initlock nm = \<lparr>locked = 0, lname = nm, lcpu = None\<rparr>"

text \<open>
  \<open>mycpu\<close> in \<open>proc.c\<close>: \<open>aid\<close> is the APIC id the hardware reports, \<open>ifl\<close> the interrupt flag.
\<close>

definition mycpu :: "bool \<Rightarrow> s32 \<Rightarrow> cpu list \<Rightarrow> nat outcome" where
  "mycpu ifl aid cs =
     (if ifl then Panic (''mycpu called with interrupts enabled'' @ [CHR 0x0A])
      else case find_slot (\<lambda>c. ucast (apicid c) = aid) cs of
             Some i \<Rightarrow> Ret i
           | None \<Rightarrow> Panic (''unknown apicid'' @ [CHR 0x0A]))"

definition pushcli :: "cpu \<Rightarrow> cpu" where
  "pushcli c =
     (let eflags = fl_if c;
          c = c\<lparr>fl_if := False\<rparr>;
          c = (if ncli c = 0 then c\<lparr>intena := eflags\<rparr> else c)
      in c\<lparr>ncli := ncli c + 1\<rparr>)"

definition popcli :: "cpu \<Rightarrow> cpu outcome" where
  "popcli c =
     (if fl_if c then Panic ''popcli - interruptible''
      else let c = c\<lparr>ncli := ncli c - 1\<rparr>
           in if sint (ncli c) < 0 then Panic ''popcli''
              else if ncli c = 0 \<and> intena c then Ret (c\<lparr>fl_if := True\<rparr>)
              else Ret c)"

definition holding :: "nat \<Rightarrow> spinlock \<Rightarrow> cpu \<Rightarrow> (bool \<times> cpu) outcome" where
  "holding me lk c =
     (let c = pushcli c; r = (locked lk \<noteq> 0 \<and> lcpu lk = Some me)
      in obind (popcli c) (\<lambda>c. Ret (r, c)))"

text \<open>
  \<open>acquire\<close> in three parts: what precedes the spin loop, one round of the loop (the
  atomic exchange, which tells whether the lock was free), and the write of the owner.
\<close>

definition acquire_enter :: "nat \<Rightarrow> spinlock \<Rightarrow> cpu \<Rightarrow> cpu outcome" where
  "acquire_enter me lk c =
     obind (holding me lk (pushcli c)) (\<lambda>(r, c). if r then Panic ''acquire'' else Ret c)"

definition acquire_xchg :: "spinlock \<Rightarrow> bool \<times> spinlock" where
  "acquire_xchg lk = (locked lk = 0, lk\<lparr>locked := 1\<rparr>)"

definition acquire_record :: "nat \<Rightarrow> spinlock \<Rightarrow> spinlock" where
  "acquire_record me lk = lk\<lparr>lcpu := Some me\<rparr>"

text \<open>\<open>release\<close>: the check and the write of \<open>lk->cpu\<close>, then the unlocking write and \<open>popcli\<close>.\<close>

definition release_enter :: "nat \<Rightarrow> spinlock \<Rightarrow> cpu \<Rightarrow> (spinlock \<times> cpu) outcome" where
  "release_enter me lk c =
     obind (holding me lk c) (\<lambda>(r, c).
       if \<not> r then Panic ''release'' else Ret (lk\<lparr>lcpu := None\<rparr>, c))"

definition release_unlock :: "spinlock \<Rightarrow> cpu \<Rightarrow> (spinlock \<times> cpu) outcome" where
  "release_unlock lk c = obind (popcli c) (\<lambda>c. Ret (lk\<lparr>locked := 0\<rparr>, c))"

text \<open>
  The whole routines as one CPU runs them: \<open>acquire\<close> of a lock that another CPU holds spins
  (until that CPU releases it, which the step relation below covers).
\<close>

definition acquire :: "nat \<Rightarrow> spinlock \<Rightarrow> cpu \<Rightarrow> (spinlock \<times> cpu) outcome" where
  "acquire me lk c =
     obind (acquire_enter me lk c) (\<lambda>c.
       case acquire_xchg lk of (free, lk) \<Rightarrow>
         if free then Ret (acquire_record me lk, c) else Loop)"

definition release :: "nat \<Rightarrow> spinlock \<Rightarrow> cpu \<Rightarrow> (spinlock \<times> cpu) outcome" where
  "release me lk c = obind (release_enter me lk c) (\<lambda>(lk, c). release_unlock lk c)"

section \<open>Nesting of \<open>pushcli\<close> and \<open>popcli\<close>\<close>

definition cli_ok :: "cpu \<Rightarrow> bool" where
  "cli_ok c \<longleftrightarrow> 0 \<le> sint (ncli c) \<and> (0 < sint (ncli c) \<longrightarrow> \<not> fl_if c)"

fun pushes :: "nat \<Rightarrow> cpu \<Rightarrow> cpu" where
  "pushes 0 c = c"
| "pushes (Suc n) c = pushes n (pushcli c)"

fun pops :: "nat \<Rightarrow> cpu \<Rightarrow> cpu outcome" where
  "pops 0 c = Ret c"
| "pops (Suc n) c = obind (popcli c) (pops n)"

lemma sint_succ: "sint (w :: s32) < 2 ^ 31 - 1 \<Longrightarrow> sint (w + 1) = sint w + 1"
  using sint_ge [of w] by (simp add: sint_word_ariths signed_take_bit_int_eq_self)

lemma sint_pred: "- (2 ^ 31) < sint (w :: s32) \<Longrightarrow> sint (w - 1) = sint w - 1"
  using sint_lt [of w] by (simp add: sint_word_ariths signed_take_bit_int_eq_self)

lemma pushcli_simps [simp]:
  "fl_if (pushcli c) = False" "ncli (pushcli c) = ncli c + 1"
  "intena (pushcli c) = (if ncli c = 0 then fl_if c else intena c)"
  by (simp_all add: pushcli_def Let_def)

lemma popcli_nested:
  assumes "1 < sint (ncli c)" and "\<not> fl_if c"
  shows "popcli c = Ret (c\<lparr>ncli := ncli c - 1\<rparr>)"
proof -
  have "sint (ncli c - 1) = sint (ncli c) - 1" using assms by (intro sint_pred) simp
  with assms show ?thesis by (auto simp: popcli_def Let_def)
qed

lemma popcli_last:
  assumes "ncli c = 1" and "\<not> fl_if c"
  shows "popcli c = Ret (c\<lparr>ncli := 0, fl_if := intena c\<rparr>)"
  using assms by (simp add: popcli_def Let_def)

lemma push_then_pop:
  assumes "cli_ok c" and "sint (ncli c) < 2 ^ 31 - 1"
  shows "popcli (pushcli c) = Ret (if ncli c = 0 then c\<lparr>intena := fl_if c\<rparr> else c)"
proof (cases "ncli c = 0")
  case True
  then show ?thesis by (simp add: popcli_last) (simp add: pushcli_def Let_def)
next
  case False
  have "sint (ncli c) \<noteq> 0" using False word_eq_iff_signed [of "ncli c" 0] by simp
  with assms have "0 < sint (ncli c)" "\<not> fl_if c" by (auto simp: cli_ok_def)
  moreover from this assms have "popcli (pushcli c) = Ret ((pushcli c)\<lparr>ncli := ncli (pushcli c) - 1\<rparr>)"
    by (intro popcli_nested) (simp_all add: sint_succ)
  ultimately show ?thesis
    using False by (simp add: pushcli_def Let_def)
qed

lemma cli_ok_pushcli: "cli_ok c \<Longrightarrow> sint (ncli c) < 2 ^ 31 - 1 \<Longrightarrow> cli_ok (pushcli c)"
  by (simp add: cli_ok_def sint_succ)

lemma holding_cpu:
  assumes "cli_ok c" and "sint (ncli c) < 2 ^ 31 - 1"
  shows "holding me lk c = Ret (locked lk \<noteq> 0 \<and> lcpu lk = Some me,
           if ncli c = 0 then c\<lparr>intena := fl_if c\<rparr> else c)"
  by (simp add: holding_def Let_def push_then_pop [OF assms])

lemma acquire_free:
  assumes "cli_ok c" and "sint (ncli c) < 2 ^ 30" and "locked lk = 0"
  shows "acquire me lk c = Ret (lk\<lparr>locked := 1, lcpu := Some me\<rparr>, pushcli c)"
proof -
  have p: "cli_ok (pushcli c)" "sint (ncli (pushcli c)) < 2 ^ 31 - 1" "sint (ncli c + 1) \<noteq> 0"
    using assms by (simp_all add: cli_ok_pushcli sint_succ) (simp add: cli_ok_def sint_succ)
  then have "ncli c + 1 \<noteq> 0" by auto
  then show ?thesis
    using assms(3) by (simp add: acquire_def acquire_enter_def holding_cpu [OF p(1,2)] acquire_xchg_def
        acquire_record_def)
qed

lemma release_held:
  assumes "cli_ok c" and "0 < sint (ncli c)" and "sint (ncli c) < 2 ^ 30"
    and "locked lk \<noteq> 0" and "lcpu lk = Some me"
  shows "release me lk c = obind (popcli c) (\<lambda>c. Ret (lk\<lparr>lcpu := None, locked := 0\<rparr>, c))"
proof -
  have "ncli c \<noteq> 0" "sint (ncli c) < 2 ^ 31 - 1" using assms(2,3) by auto
  then show ?thesis
    using assms(4,5) by (simp add: release_def release_enter_def holding_cpu [OF assms(1)] release_unlock_def)
qed

section \<open>Several CPUs\<close>

datatype lpc = Idle | Spinning nat | Got nat | Releasing nat

record lsys =
  cpus :: "cpu list"
  lks :: "spinlock list"
  pcs :: "lpc list"

inductive lock_step :: "lsys \<Rightarrow> lsys \<Rightarrow> bool" where
  enter: "i < length (cpus s) \<Longrightarrow> l < length (lks s) \<Longrightarrow> pcs s ! i = Idle \<Longrightarrow>
    acquire_enter i (lks s ! l) (cpus s ! i) = Ret c \<Longrightarrow>
    lock_step s (s\<lparr>cpus := (cpus s)[i := c], pcs := (pcs s)[i := Spinning l]\<rparr>)"
| spin: "i < length (cpus s) \<Longrightarrow> pcs s ! i = Spinning l \<Longrightarrow>
    acquire_xchg (lks s ! l) = (False, lk) \<Longrightarrow>
    lock_step s (s\<lparr>lks := (lks s)[l := lk]\<rparr>)"
| grab: "i < length (cpus s) \<Longrightarrow> pcs s ! i = Spinning l \<Longrightarrow>
    acquire_xchg (lks s ! l) = (True, lk) \<Longrightarrow>
    lock_step s (s\<lparr>lks := (lks s)[l := lk], pcs := (pcs s)[i := Got l]\<rparr>)"
| note_owner: "i < length (cpus s) \<Longrightarrow> pcs s ! i = Got l \<Longrightarrow>
    lock_step s (s\<lparr>lks := (lks s)[l := acquire_record i (lks s ! l)], pcs := (pcs s)[i := Idle]\<rparr>)"
| leave: "i < length (cpus s) \<Longrightarrow> l < length (lks s) \<Longrightarrow> pcs s ! i = Idle \<Longrightarrow>
    release_enter i (lks s ! l) (cpus s ! i) = Ret (lk, c) \<Longrightarrow>
    lock_step s (s\<lparr>cpus := (cpus s)[i := c], lks := (lks s)[l := lk], pcs := (pcs s)[i := Releasing l]\<rparr>)"
| unlock: "i < length (cpus s) \<Longrightarrow> pcs s ! i = Releasing l \<Longrightarrow>
    release_unlock (lks s ! l) (cpus s ! i) = Ret (lk, c) \<Longrightarrow>
    lock_step s (s\<lparr>cpus := (cpus s)[i := c], lks := (lks s)[l := lk], pcs := (pcs s)[i := Idle]\<rparr>)"

definition lock_init :: "lsys \<Rightarrow> bool" where
  "lock_init s \<longleftrightarrow> length (pcs s) = length (cpus s) \<and> length (lks s) < 2 ^ 30
     \<and> (\<forall>c \<in> set (cpus s). ncli c = 0) \<and> (\<forall>p \<in> set (pcs s). p = Idle)
     \<and> (\<forall>lk \<in> set (lks s). locked lk = 0 \<and> lcpu lk = None)"

inductive lock_reach :: "lsys \<Rightarrow> lsys \<Rightarrow> bool" for s0 where
  start: "lock_init s0 \<Longrightarrow> lock_reach s0 s0"
| step: "lock_reach s0 s \<Longrightarrow> lock_step s t \<Longrightarrow> lock_reach s0 t"

definition owns :: "lsys \<Rightarrow> nat \<Rightarrow> nat \<Rightarrow> bool" where
  "owns s i l \<longleftrightarrow> i < length (cpus s) \<and> l < length (lks s)
     \<and> (pcs s ! i = Got l \<or> pcs s ! i = Releasing l \<or> lcpu (lks s ! l) = Some i)"

definition nheld :: "lsys \<Rightarrow> nat \<Rightarrow> nat" where
  "nheld s i = card {l. owns s i l} + (case pcs s ! i of Spinning _ \<Rightarrow> 1 | _ \<Rightarrow> 0)"

definition lock_inv :: "lsys \<Rightarrow> bool" where
  "lock_inv s \<longleftrightarrow> length (pcs s) = length (cpus s) \<and> length (lks s) < 2 ^ 30
     \<and> (\<forall>l < length (lks s). \<forall>i. lcpu (lks s ! l) = Some i \<longrightarrow> i < length (cpus s))
     \<and> (\<forall>i < length (cpus s). \<forall>l. pcs s ! i = Spinning l \<longrightarrow> l < length (lks s) \<and> \<not> owns s i l)
     \<and> (\<forall>i < length (cpus s). \<forall>l. pcs s ! i = Got l \<or> pcs s ! i = Releasing l
          \<longrightarrow> l < length (lks s) \<and> lcpu (lks s ! l) = None)
     \<and> (\<forall>i l. owns s i l \<longrightarrow> locked (lks s ! l) \<noteq> 0)
     \<and> (\<forall>i j l. owns s i l \<longrightarrow> owns s j l \<longrightarrow> i = j)
     \<and> (\<forall>i < length (cpus s). cli_ok (cpus s ! i) \<and> sint (ncli (cpus s ! i)) = int (nheld s i))"

lemma lock_invI:
  assumes "length (pcs s) = length (cpus s)" and "length (lks s) < 2 ^ 30"
    and "\<And>l i. l < length (lks s) \<Longrightarrow> lcpu (lks s ! l) = Some i \<Longrightarrow> i < length (cpus s)"
    and "\<And>i l. i < length (cpus s) \<Longrightarrow> pcs s ! i = Spinning l \<Longrightarrow> l < length (lks s) \<and> \<not> owns s i l"
    and "\<And>i l. i < length (cpus s) \<Longrightarrow> pcs s ! i = Got l \<or> pcs s ! i = Releasing l
          \<Longrightarrow> l < length (lks s) \<and> lcpu (lks s ! l) = None"
    and "\<And>i l. owns s i l \<Longrightarrow> locked (lks s ! l) \<noteq> 0"
    and "\<And>i j l. owns s i l \<Longrightarrow> owns s j l \<Longrightarrow> i = j"
    and "\<And>i. i < length (cpus s) \<Longrightarrow> cli_ok (cpus s ! i) \<and> sint (ncli (cpus s ! i)) = int (nheld s i)"
  shows "lock_inv s"
  using assms unfolding lock_inv_def by blast

lemma lock_invD:
  assumes "lock_inv s"
  shows "length (pcs s) = length (cpus s)" and "length (lks s) < 2 ^ 30"
    and "\<And>l i. l < length (lks s) \<Longrightarrow> lcpu (lks s ! l) = Some i \<Longrightarrow> i < length (cpus s)"
    and "\<And>i l. i < length (cpus s) \<Longrightarrow> pcs s ! i = Spinning l \<Longrightarrow> l < length (lks s) \<and> \<not> owns s i l"
    and "\<And>i l. i < length (cpus s) \<Longrightarrow> pcs s ! i = Got l \<or> pcs s ! i = Releasing l
          \<Longrightarrow> l < length (lks s) \<and> lcpu (lks s ! l) = None"
    and "\<And>i l. owns s i l \<Longrightarrow> locked (lks s ! l) \<noteq> 0"
    and "\<And>i j l. owns s i l \<Longrightarrow> owns s j l \<Longrightarrow> i = j"
    and "\<And>i. i < length (cpus s) \<Longrightarrow> cli_ok (cpus s ! i)"
    and "\<And>i. i < length (cpus s) \<Longrightarrow> sint (ncli (cpus s ! i)) = int (nheld s i)"
  using assms unfolding lock_inv_def by blast+

lemma finite_owns [simp]: "finite {l. owns s i l}"
  by (rule finite_subset [of _ "{..<length (lks s)}"]) (auto simp: owns_def)

lemma nheld_bound:
  assumes "lock_inv s" and "i < length (cpus s)"
  shows "sint (ncli (cpus s ! i)) < 2 ^ 30 + 1"
proof -
  have "card {l. owns s i l} \<le> card {..<length (lks s)}"
    by (rule card_mono) (auto simp: owns_def)
  then have "nheld s i < 2 ^ 30 + 1"
    using lock_invD(2) [OF assms(1)] by (simp add: nheld_def split: lpc.split)
  with lock_invD(9) [OF assms] show ?thesis by simp
qed

lemma owns_nheld: "owns s i l \<Longrightarrow> 0 < nheld s i"
  by (auto simp: nheld_def card_gt_0_iff)

lemma popcli_ok:
  assumes "cli_ok c" and "0 < sint (ncli c)"
  shows "\<exists>c'. popcli c = Ret c' \<and> cli_ok c' \<and> sint (ncli c') = sint (ncli c) - 1"
proof (cases "ncli c = 1")
  case True
  with assms show ?thesis by (simp add: popcli_last cli_ok_def)
next
  case False
  then have "sint (ncli c) \<noteq> 1" using word_eq_iff_signed [of "ncli c" 1] by simp
  with assms show ?thesis
    using sint_pred [of "ncli c"] by (simp add: popcli_nested cli_ok_def)
qed

text \<open>One lemma per step: what it changes of the ownership and of the CPU's counter.\<close>

lemma lock_inv_enter:
  assumes inv: "lock_inv s" and i: "i < length (cpus s)" and l: "l < length (lks s)"
    and pc: "pcs s ! i = Idle" and ac: "acquire_enter i (lks s ! l) (cpus s ! i) = Ret c"
  shows "lock_inv (s\<lparr>cpus := (cpus s)[i := c], pcs := (pcs s)[i := Spinning l]\<rparr>)" (is "lock_inv ?t")
proof -
  note D = lock_invD [OF inv]
  define c0 where "c0 = cpus s ! i"
  have ok: "cli_ok c0" "sint (ncli c0) < 2 ^ 30 + 1"
    using D(8) [OF i] nheld_bound [OF inv i] by (simp_all add: c0_def)
  have ok': "cli_ok (pushcli c0)" "sint (ncli (pushcli c0)) < 2 ^ 31 - 1"
    using ok by (simp_all add: cli_ok_pushcli sint_succ)
  have "sint (ncli c0 + 1) \<noteq> 0" using ok by (simp add: cli_ok_def sint_succ)
  then have "ncli (pushcli c0) \<noteq> 0" by auto
  then have c: "c = pushcli c0"
    and free: "\<not> (locked (lks s ! l) \<noteq> 0 \<and> lcpu (lks s ! l) = Some i)"
    using ac by (simp_all add: acquire_enter_def holding_cpu [OF ok'] c0_def [symmetric] split: if_splits)
  have own: "owns ?t j m = owns s j m" for j m
    using pc D(1) i by (auto simp: owns_def nth_list_update)
  have mine: "\<not> owns s i l"
    using free pc D(6) [of i l] by (auto simp: owns_def)
  have nh: "nheld ?t j = (if j = i then Suc (nheld s j) else nheld s j)" for j
    using pc D(1) i by (simp add: nheld_def own nth_list_update)
  have "sint (ncli c) = sint (ncli c0) + 1"
    using ok by (simp add: c sint_succ)
  then have cnt: "cli_ok c" "sint (ncli c) = int (nheld ?t i)"
    using D(9) [OF i] ok'(1) unfolding nh by (simp_all add: c c0_def)
  show ?thesis
  proof (rule lock_invI)
    show "m < length (lks ?t) \<and> \<not> owns ?t j m" if "j < length (cpus ?t)" "pcs ?t ! j = Spinning m" for j m
      unfolding own using that D(1,4) mine l i by (auto simp: nth_list_update split: if_splits)
    show "m < length (lks ?t) \<and> lcpu (lks ?t ! m) = None"
      if "j < length (cpus ?t)" "pcs ?t ! j = Got m \<or> pcs ?t ! j = Releasing m" for j m
      using that D(1,5) i by (auto simp: nth_list_update split: if_splits)
    show "cli_ok (cpus ?t ! j) \<and> sint (ncli (cpus ?t ! j)) = int (nheld ?t j)" if "j < length (cpus ?t)" for j
      using that cnt D(8,9) by (cases "j = i") (auto simp: nh)
    show "j = k" if "owns ?t j m" "owns ?t k m" for j k m
      using that D(7) unfolding own by blast
  qed (use D(1,2,3,6) in \<open>simp_all add: own\<close>)
qed

lemma lock_inv_spin:
  assumes inv: "lock_inv s" and i: "i < length (cpus s)" and pc: "pcs s ! i = Spinning l"
    and x: "acquire_xchg (lks s ! l) = (False, lk)"
  shows "lock_inv (s\<lparr>lks := (lks s)[l := lk]\<rparr>)" (is "lock_inv ?t")
proof -
  note D = lock_invD [OF inv]
  have lk: "lcpu lk = lcpu (lks s ! l)" "locked lk = 1"
    using x by (auto simp: acquire_xchg_def)
  have lcpu: "lcpu (lks ?t ! m) = lcpu (lks s ! m)" for m
    using D(4) [OF i pc] lk by (cases "m = l") simp_all
  have own: "owns ?t j m = owns s j m" for j m
    unfolding owns_def lcpu by simp
  have nh: "nheld ?t j = nheld s j" for j by (simp add: nheld_def own)
  show ?thesis
  proof (rule lock_invI)
    show "locked (lks ?t ! m) \<noteq> 0" if "owns ?t j m" for j m
      using that D(6) [of j m] lk D(4) [OF i pc] by (cases "m = l") (simp_all add: own)
    show "j = k" if "owns ?t j m" "owns ?t k m" for j k m
      using that D(7) unfolding own by blast
    show "j < length (cpus ?t)" if "m < length (lks ?t)" "lcpu (lks ?t ! m) = Some j" for m j
      using that D(3) unfolding lcpu by simp
    show "m < length (lks ?t) \<and> \<not> owns ?t j m" if "j < length (cpus ?t)" "pcs ?t ! j = Spinning m" for j m
      using that D(4) unfolding own by simp
    show "m < length (lks ?t) \<and> lcpu (lks ?t ! m) = None"
      if "j < length (cpus ?t)" "pcs ?t ! j = Got m \<or> pcs ?t ! j = Releasing m" for j m
      using that D(5) unfolding lcpu by simp
    show "cli_ok (cpus ?t ! j) \<and> sint (ncli (cpus ?t ! j)) = int (nheld ?t j)" if "j < length (cpus ?t)" for j
      using that D(8,9) unfolding nh by simp
  qed (use D(1,2) in simp_all)
qed

lemma lock_inv_grab:
  assumes inv: "lock_inv s" and i: "i < length (cpus s)" and pc: "pcs s ! i = Spinning l"
    and x: "acquire_xchg (lks s ! l) = (True, lk)"
  shows "lock_inv (s\<lparr>lks := (lks s)[l := lk], pcs := (pcs s)[i := Got l]\<rparr>)" (is "lock_inv ?t")
proof -
  note D = lock_invD [OF inv]
  have lk: "lcpu lk = lcpu (lks s ! l)" "locked lk = 1" and free: "locked (lks s ! l) = 0"
    using x by (auto simp: acquire_xchg_def)
  have l: "l < length (lks s)" using D(4) [OF i pc] by simp
  have nobody: "\<not> owns s j l" for j using free D(6) [of j l] by auto
  have unowned: "lcpu (lks s ! l) = None"
    using nobody D(3) [OF l] l by (cases "lcpu (lks s ! l)") (auto simp: owns_def)
  have lcpu: "lcpu (lks ?t ! m) = lcpu (lks s ! m)" for m
    using l lk by (cases "m = l") simp_all
  have own: "owns ?t j m \<longleftrightarrow> owns s j m \<or> (j = i \<and> m = l)" for j m
    unfolding owns_def lcpu using pc D(1) i l by (auto simp: nth_list_update)
  have "{m. owns ?t i m} = insert l {m. owns s i m}" by (auto simp: own)
  then have nh: "nheld ?t j = nheld s j" for j
    using pc D(1) i nobody [of i] finite_owns [of s i]
    by (cases "j = i") (simp_all add: nheld_def own)
  show ?thesis
  proof (rule lock_invI)
    show "m < length (lks ?t) \<and> \<not> owns ?t j m" if "j < length (cpus ?t)" "pcs ?t ! j = Spinning m" for j m
      unfolding own using that D(1,4) i by (auto simp: nth_list_update split: if_splits)
    show "m < length (lks ?t) \<and> lcpu (lks ?t ! m) = None"
      if "j < length (cpus ?t)" "pcs ?t ! j = Got m \<or> pcs ?t ! j = Releasing m" for j m
      unfolding lcpu using that D(1,5) i l unowned by (auto simp: nth_list_update split: if_splits)
    show "locked (lks ?t ! m) \<noteq> 0" if "owns ?t j m" for j m
      using that D(6) [of j m] lk l by (cases "m = l") (simp_all add: own)
    show "j = k" if "owns ?t j m" "owns ?t k m" for j k m
      using that D(7) [of j m k] nobody by (auto simp: own)
    show "j < length (cpus ?t)" if "m < length (lks ?t)" "lcpu (lks ?t ! m) = Some j" for m j
      using that D(3) unfolding lcpu by simp
    show "cli_ok (cpus ?t ! j) \<and> sint (ncli (cpus ?t ! j)) = int (nheld ?t j)" if "j < length (cpus ?t)" for j
      using that D(8,9) unfolding nh by simp
  qed (use D(1,2) in simp_all)
qed

lemma lock_inv_note_owner:
  assumes inv: "lock_inv s" and i: "i < length (cpus s)" and pc: "pcs s ! i = Got l"
  shows "lock_inv (s\<lparr>lks := (lks s)[l := acquire_record i (lks s ! l)], pcs := (pcs s)[i := Idle]\<rparr>)"
    (is "lock_inv ?t")
proof -
  note D = lock_invD [OF inv]
  have l: "l < length (lks s)" and none: "lcpu (lks s ! l) = None" using D(5) [OF i] pc by auto
  have mine: "owns s i l" using pc i l by (simp add: owns_def)
  have lcpu: "lcpu (lks ?t ! m) = (if m = l then Some i else lcpu (lks s ! m))" for m
    using l by (simp add: acquire_record_def)
  have lckd: "locked (lks ?t ! m) = locked (lks s ! m)" for m
    using l by (cases "m = l") (simp_all add: acquire_record_def)
  have other: "j = i" if "j < length (cpus s)" "pcs s ! j = Got l \<or> pcs s ! j = Releasing l" for j
    using D(7) [OF mine, of j] that l by (auto simp: owns_def)
  have own: "owns ?t j m = owns s j m" for j m
  proof (cases "m = l")
    case True
    have "owns s j l \<longleftrightarrow> j = i" using mine D(7) [of i l j] by blast
    moreover have "owns ?t j l \<longleftrightarrow> j = i"
      using l i D(1) other [of j] unfolding owns_def lcpu by (cases "j = i") auto
    ultimately show ?thesis using True by simp
  next
    case False
    with pc D(1) i show ?thesis
      unfolding owns_def lcpu by (auto simp: nth_list_update)
  qed
  have nh: "nheld ?t j = nheld s j" for j
    using pc D(1) i by (cases "j = i") (simp_all add: nheld_def own)
  show ?thesis
  proof (rule lock_invI)
    show "j < length (cpus ?t)" if "m < length (lks ?t)" "lcpu (lks ?t ! m) = Some j" for m j
      using that D(3) i unfolding lcpu by (auto split: if_splits)
    show "m < length (lks ?t) \<and> \<not> owns ?t j m" if "j < length (cpus ?t)" "pcs ?t ! j = Spinning m" for j m
      unfolding own using that D(1,4) i by (auto simp: nth_list_update split: if_splits)
    show "m < length (lks ?t) \<and> lcpu (lks ?t ! m) = None"
      if "j < length (cpus ?t)" "pcs ?t ! j = Got m \<or> pcs ?t ! j = Releasing m" for j m
    proof -
      have ji: "j \<noteq> i" using that D(1) i by auto
      then have "pcs s ! j = Got m \<or> pcs s ! j = Releasing m" using that by simp
      then have "m \<noteq> l" "m < length (lks s) \<and> lcpu (lks s ! m) = None"
        using ji other [of j] D(5) [of j m] that by auto
      then show ?thesis unfolding lcpu by simp
    qed
    show "locked (lks ?t ! m) \<noteq> 0" if "owns ?t j m" for j m
      using that D(6) unfolding lckd own by blast
    show "j = k" if "owns ?t j m" "owns ?t k m" for j k m
      using that D(7) unfolding own by blast
    show "cli_ok (cpus ?t ! j) \<and> sint (ncli (cpus ?t ! j)) = int (nheld ?t j)" if "j < length (cpus ?t)" for j
      using that D(8,9) unfolding nh by simp
  qed (use D(1,2) in simp_all)
qed

lemma lock_inv_leave:
  assumes inv: "lock_inv s" and i: "i < length (cpus s)" and l: "l < length (lks s)"
    and pc: "pcs s ! i = Idle" and rel: "release_enter i (lks s ! l) (cpus s ! i) = Ret (lk, c)"
  shows "lock_inv (s\<lparr>cpus := (cpus s)[i := c], lks := (lks s)[l := lk], pcs := (pcs s)[i := Releasing l]\<rparr>)"
    (is "lock_inv ?t")
proof -
  note D = lock_invD [OF inv]
  have small: "sint (ncli (cpus s ! i)) < 2 ^ 31 - 1" using nheld_bound [OF inv i] by simp
  have lk: "lk = (lks s ! l)\<lparr>lcpu := None\<rparr>" and me: "lcpu (lks s ! l) = Some i"
    and c: "c = (if ncli (cpus s ! i) = 0 then (cpus s ! i)\<lparr>intena := fl_if (cpus s ! i)\<rparr> else cpus s ! i)"
    using rel by (simp_all add: release_enter_def holding_cpu [OF D(8) [OF i] small] split: if_splits)
  have mine: "owns s i l" using i l me by (simp add: owns_def)
  have cli: "cli_ok c = cli_ok (cpus s ! i)" "ncli c = ncli (cpus s ! i)"
    by (simp_all add: c cli_ok_def)
  have lcpu: "lcpu (lks ?t ! m) = (if m = l then None else lcpu (lks s ! m))" for m
    using l lk by simp
  have lckd: "locked (lks ?t ! m) = locked (lks s ! m)" for m
    using l lk by (cases "m = l") simp_all
  have other: "j = i" if "j < length (cpus s)" "pcs s ! j = Got l \<or> pcs s ! j = Releasing l" for j
    using D(7) [OF mine, of j] that l by (auto simp: owns_def)
  have own: "owns ?t j m = owns s j m" for j m
  proof (cases "m = l")
    case True
    have "owns s j l \<longleftrightarrow> j = i" using mine D(7) [of i l j] by blast
    moreover have "owns ?t j l \<longleftrightarrow> j = i"
      using l i D(1) other [of j] unfolding owns_def lcpu by (cases "j = i") auto
    ultimately show ?thesis using True by simp
  next
    case False
    with pc D(1) i show ?thesis
      unfolding owns_def lcpu by (auto simp: nth_list_update)
  qed
  have nh: "nheld ?t j = nheld s j" for j
    using pc D(1) i by (cases "j = i") (simp_all add: nheld_def own)
  show ?thesis
  proof (rule lock_invI)
    show "j < length (cpus ?t)" if "m < length (lks ?t)" "lcpu (lks ?t ! m) = Some j" for m j
      using that D(3) unfolding lcpu by (auto split: if_splits)
    show "m < length (lks ?t) \<and> \<not> owns ?t j m" if "j < length (cpus ?t)" "pcs ?t ! j = Spinning m" for j m
      unfolding own using that D(1,4) i by (auto simp: nth_list_update split: if_splits)
    show "m < length (lks ?t) \<and> lcpu (lks ?t ! m) = None"
      if "j < length (cpus ?t)" "pcs ?t ! j = Got m \<or> pcs ?t ! j = Releasing m" for j m
      unfolding lcpu using that D(1,5) i l by (auto simp: nth_list_update split: if_splits)
    show "locked (lks ?t ! m) \<noteq> 0" if "owns ?t j m" for j m
      using that D(6) unfolding lckd own by blast
    show "j = k" if "owns ?t j m" "owns ?t k m" for j k m
      using that D(7) unfolding own by blast
    show "cli_ok (cpus ?t ! j) \<and> sint (ncli (cpus ?t ! j)) = int (nheld ?t j)" if "j < length (cpus ?t)" for j
      unfolding nh using that cli D(8,9) by (cases "j = i") simp_all
  qed (use D(1,2) in simp_all)
qed

lemma lock_inv_unlock:
  assumes inv: "lock_inv s" and i: "i < length (cpus s)" and pc: "pcs s ! i = Releasing l"
    and rel: "release_unlock (lks s ! l) (cpus s ! i) = Ret (lk, c)"
  shows "lock_inv (s\<lparr>cpus := (cpus s)[i := c], lks := (lks s)[l := lk], pcs := (pcs s)[i := Idle]\<rparr>)"
    (is "lock_inv ?t")
proof -
  note D = lock_invD [OF inv]
  have l: "l < length (lks s)" and none: "lcpu (lks s ! l) = None" using D(5) [OF i] pc by auto
  have mine: "owns s i l" using pc i l by (simp add: owns_def)
  have lk: "lk = (lks s ! l)\<lparr>locked := 0\<rparr>" and pop: "popcli (cpus s ! i) = Ret c"
    using rel by (auto simp: release_unlock_def outcome_simps)
  have c: "cli_ok c" "sint (ncli c) = sint (ncli (cpus s ! i)) - 1"
    using popcli_ok [OF D(8) [OF i]] owns_nheld [OF mine] D(9) [OF i] pop by auto
  have lcpu: "lcpu (lks ?t ! m) = lcpu (lks s ! m)" for m
    using l lk by (cases "m = l") simp_all
  have own: "owns ?t j m \<longleftrightarrow> owns s j m \<and> m \<noteq> l" for j m
  proof (cases "m = l")
    case True
    have "pcs s ! j \<noteq> Got l \<and> pcs s ! j \<noteq> Releasing l" if "j < length (cpus s)" "j \<noteq> i"
      using D(7) [OF mine, of j] that l by (auto simp: owns_def)
    with True none D(1) i show ?thesis
      unfolding owns_def lcpu by (auto simp: nth_list_update)
  next
    case False
    with pc D(1) i show ?thesis unfolding owns_def lcpu by (auto simp: nth_list_update)
  qed
  have mem: "{m. owns ?t i m} = {m. owns s i m} - {l}" by (auto simp: own)
  have "nheld s i = card {m. owns s i m}" using pc by (simp add: nheld_def)
  moreover have "nheld ?t i = card ({m. owns s i m} - {l})"
    using D(1) i unfolding nheld_def mem by simp
  ultimately have nhi: "nheld s i = Suc (nheld ?t i)"
    using card_Suc_Diff1 [OF finite_owns, of l s i] mine by simp
  have nh: "nheld ?t j = nheld s j" if "j \<noteq> i" for j
  proof -
    have "{m. owns ?t j m} = {m. owns s j m}" using D(7) [OF mine, of j] that by (auto simp: own)
    then show ?thesis using that by (simp add: nheld_def)
  qed
  show ?thesis
  proof (rule lock_invI)
    show "m < length (lks ?t) \<and> \<not> owns ?t j m" if "j < length (cpus ?t)" "pcs ?t ! j = Spinning m" for j m
      unfolding own using that D(1,4) i by (auto simp: nth_list_update split: if_splits)
    show "m < length (lks ?t) \<and> lcpu (lks ?t ! m) = None"
      if "j < length (cpus ?t)" "pcs ?t ! j = Got m \<or> pcs ?t ! j = Releasing m" for j m
      unfolding lcpu using that D(1,5) i by (auto simp: nth_list_update split: if_splits)
    show "locked (lks ?t ! m) \<noteq> 0" if "owns ?t j m" for j m
      using that D(6) [of j m] by (simp add: own)
    show "j = k" if "owns ?t j m" "owns ?t k m" for j k m
      using that D(7) unfolding own by blast
    show "cli_ok (cpus ?t ! j) \<and> sint (ncli (cpus ?t ! j)) = int (nheld ?t j)" if "j < length (cpus ?t)" for j
      using that c nhi nh D(8) D(9) [of j] by (cases "j = i") simp_all
    show "j < length (cpus ?t)" if "m < length (lks ?t)" "lcpu (lks ?t ! m) = Some j" for m j
      using that D(3) unfolding lcpu by simp
  qed (use D(1,2) in simp_all)
qed

lemma owner_enter_leave:
  assumes "cli_ok c" and "0 < sint (ncli c)" and "sint (ncli c) < 2 ^ 30 + 1"
    and "locked lk \<noteq> 0" and "lcpu lk = Some i"
  shows "acquire_enter i lk c = Panic ''acquire''"
    and "release_enter i lk c = Ret (lk\<lparr>lcpu := None\<rparr>, c)"
proof -
  have c': "cli_ok (pushcli c)" "sint (ncli (pushcli c)) < 2 ^ 31 - 1" "sint (ncli c) < 2 ^ 31 - 1"
    using assms by (simp_all add: cli_ok_pushcli sint_succ)
  have "ncli c \<noteq> 0" using assms(2) by auto
  then show "acquire_enter i lk c = Panic ''acquire''"
    and "release_enter i lk c = Ret (lk\<lparr>lcpu := None\<rparr>, c)"
    using assms(4,5)
    by (simp_all add: acquire_enter_def release_enter_def holding_cpu [OF c'(1,2)]
        holding_cpu [OF assms(1) c'(3)])
qed

lemma lock_inv_step: "lock_step s t \<Longrightarrow> lock_inv s \<Longrightarrow> lock_inv t"
  by (induction rule: lock_step.induct)
    (simp_all add: lock_inv_enter lock_inv_spin lock_inv_grab lock_inv_note_owner lock_inv_leave
       lock_inv_unlock)

lemma lock_inv_init:
  assumes "lock_init s"
  shows "lock_inv s"
proof -
  have idle: "pcs s ! i = Idle" if "i < length (cpus s)" for i
    using assms that by (simp add: lock_init_def)
  have free: "lcpu (lks s ! l) = None" if "l < length (lks s)" for l
    using assms that by (simp add: lock_init_def)
  have own: "\<not> owns s i l" for i l
    using idle free by (auto simp: owns_def)
  have nh: "nheld s i = 0" if "i < length (cpus s)" for i
    using idle [OF that] own by (simp add: nheld_def)
  show ?thesis
    by (rule lock_invI) (use assms idle free own nh in \<open>auto simp: lock_init_def cli_ok_def\<close>)
qed

lemma lock_inv_reach: "lock_reach s0 s \<Longrightarrow> lock_inv s"
  by (induction rule: lock_reach.induct) (auto intro: lock_inv_init lock_inv_step)

text \<open>
  C5. Mutual exclusion of the spin lock: whatever number of CPUs run \<open>acquire\<close> and
  \<open>release\<close> interleaved at the granularity of the atomic exchange, the write of the owner
  field, the write that clears it and the unlocking write, no lock is ever owned by two CPUs,
  and a lock that is owned reads as locked.
\<close>

theorem spinlock_mutual_exclusion:
  assumes "lock_reach s0 s" and "owns s i l" and "owns s j l"
  shows "i = j \<and> locked (lks s ! l) \<noteq> 0"
  using lock_invD(6,7) [OF lock_inv_reach [OF assms(1)]] assms(2,3) by blast

definition cpu0 :: cpu where
  "cpu0 = \<lparr>apicid = 0, started = 1, ncli = 0, intena = False, cproc = None, fl_if = True,
     cr3 = 0, ts_ss0 = 0, ts_esp0 = 0, ts_iomb = 0\<rparr>"

definition two_cpus :: lsys where
  "two_cpus = \<lparr>cpus = [cpu0, cpu0], lks = [initlock ''ptable''], pcs = [Idle, Idle]\<rparr>"

definition one_got :: lsys where
  "one_got = \<lparr>cpus = [cpu0, pushcli cpu0], lks = [(initlock ''ptable'')\<lparr>locked := 1\<rparr>], pcs = [Idle, Got 0]\<rparr>"

lemma one_got_reach: "lock_reach two_cpus one_got"
proof -
  define sp where "sp = \<lparr>cpus = [cpu0, pushcli cpu0], lks = [initlock ''ptable''], pcs = [Idle, Spinning 0]\<rparr>"
  have "lock_reach two_cpus two_cpus"
    by (rule lock_reach.start) (simp add: lock_init_def two_cpus_def cpu0_def initlock_def)
  moreover have "lock_step two_cpus sp"
    using lock_step.enter [of 1 two_cpus 0 "pushcli cpu0"]
    by (simp add: two_cpus_def sp_def acquire_enter_def holding_def popcli_def pushcli_def Let_def
        initlock_def cpu0_def)
  moreover have "lock_step sp one_got"
    using lock_step.grab [of 1 sp 0 "(initlock ''ptable'')\<lparr>locked := 1\<rparr>"]
    by (simp add: sp_def one_got_def acquire_xchg_def initlock_def)
  ultimately show ?thesis by (blast intro: lock_reach.step)
qed

theorem spinlock_mutual_exclusion_witness:
  "lock_reach two_cpus one_got \<and> owns one_got 1 0 \<and> (1::nat) = 1 \<and> locked (lks one_got ! 0) \<noteq> 0"
  using spinlock_mutual_exclusion [OF one_got_reach, of 1 0 1] one_got_reach
  by (simp add: owns_def one_got_def)

text \<open>
  C6. Interrupts and the nesting counter: on every CPU of every reachable state \<open>ncli\<close> is
  the number of locks the CPU owns plus one while it spins, it never goes negative, and
  interrupts are off on a CPU that owns a lock or spins for one. A CPU that owns a lock whose
  owner field is written panics in \<open>acquire\<close> of the same lock, and its \<open>release\<close> succeeds.
\<close>

theorem spinlock_interrupts_off:
  assumes "lock_reach s0 s" and "i < length (cpus s)"
  shows "sint (ncli (cpus s ! i)) = int (nheld s i)
    \<and> (owns s i l \<or> pcs s ! i = Spinning l \<longrightarrow> \<not> fl_if (cpus s ! i))
    \<and> (l < length (lks s) \<and> lcpu (lks s ! l) = Some i \<longrightarrow>
        acquire_enter i (lks s ! l) (cpus s ! i) = Panic ''acquire''
        \<and> release_enter i (lks s ! l) (cpus s ! i) = Ret ((lks s ! l)\<lparr>lcpu := None\<rparr>, cpus s ! i))"
proof (intro conjI impI)
  note inv = lock_inv_reach [OF assms(1)]
  note D = lock_invD [OF inv]
  show "sint (ncli (cpus s ! i)) = int (nheld s i)" by (rule D(9) [OF assms(2)])
  show "\<not> fl_if (cpus s ! i)" if "owns s i l \<or> pcs s ! i = Spinning l"
  proof -
    have "0 < nheld s i"
      using that owns_nheld [of s i l] by (cases "owns s i l") (simp_all add: nheld_def)
    then show ?thesis using D(8,9) [OF assms(2)] by (simp add: cli_ok_def)
  qed
  assume l: "l < length (lks s) \<and> lcpu (lks s ! l) = Some i"
  then have own: "owns s i l" using assms(2) by (simp add: owns_def)
  show "acquire_enter i (lks s ! l) (cpus s ! i) = Panic ''acquire''"
    and "release_enter i (lks s ! l) (cpus s ! i) = Ret ((lks s ! l)\<lparr>lcpu := None\<rparr>, cpus s ! i)"
    using owner_enter_leave [of "cpus s ! i" "lks s ! l" i] l D(6) [OF own] D(8,9) [OF assms(2)]
      owns_nheld [OF own] nheld_bound [OF inv assms(2)] by simp_all
qed

theorem spinlock_interrupts_off_witness:
  "lock_reach two_cpus one_got \<and> owns one_got 1 0 \<and> \<not> fl_if (cpus one_got ! 1)
   \<and> sint (ncli (cpus one_got ! 1)) = int (nheld one_got 1)"
  using spinlock_interrupts_off [OF one_got_reach, of 1 0] one_got_reach
  by (simp add: owns_def one_got_def)

end
