(* ===== verification/Queue.thy ===== *)
theory Queue
  imports Prelude
begin

text \<open>
  The scheduling queues of \<open>proc.c\<close> (\<open>struct queue\<close>): rings of \<open>NPROC\<close> process pointers,
  here indices into the process table. \<open>q_rep\<close> relates a ring to the list of its entries;
  \<open>q_put\<close> (the enqueueing code of \<open>allocproc\<close> and \<open>setqueue\<close>) and \<open>q_pick\<close> (the
  selection loop of \<open>scheduler\<close>) refine list operations. The locale \<open>rr_queue\<close> is what a
  round-robin scheduler needs of them; it gives the order in which processes get their turn.
\<close>

section \<open>The ring\<close>

record queue =
  front :: nat
  rear :: nat
  qsize :: s32
  qarray :: "nat option list"

definition q_init :: queue where
  "q_init = \<lparr>front = 0, rear = NPROC - 1, qsize = 0, qarray = replicate NPROC None\<rparr>"

definition q_put :: "nat \<Rightarrow> queue \<Rightarrow> queue" where
  "q_put p q =
     (let q = q\<lparr>rear := (rear q + 1) mod NPROC\<rparr>;
          q = q\<lparr>qarray := (qarray q)[rear q := Some p]\<rparr>
      in q\<lparr>qsize := qsize q + 1\<rparr>)"

text \<open>
  The loop that looks for the next process in a round-robin queue. \<open>last\<close> is the loop's
  \<open>p\<close>, which keeps the last entry read when the queue runs empty; \<open>stale\<close> tells the entries
  to drop. An entry that was never written is a null pointer.
\<close>

function q_pick :: "(nat \<Rightarrow> bool) \<Rightarrow> nat option \<Rightarrow> queue \<Rightarrow> (nat option \<times> queue) outcome" where
  "q_pick stale lst q =
     (if qsize q = 0 then Ret (lst, q)
      else case qarray q ! front q of
             None \<Rightarrow> Fault
           | Some p \<Rightarrow>
               let q = q\<lparr>front := (front q + 1) mod NPROC\<rparr>
               in if stale p then q_pick stale (Some p) (q\<lparr>qsize := qsize q - 1\<rparr>)
                  else let q = q\<lparr>rear := (rear q + 1) mod NPROC\<rparr>
                       in Ret (Some p, q\<lparr>qarray := (qarray q)[rear q := Some p]\<rparr>))"
  by pat_completeness auto
termination
  by (relation "measure (\<lambda>(_, _, q). unat (qsize q))") (simp_all add: unat_gt_0 unat_minus_one)

declare q_pick.simps [simp del]

section \<open>The list a ring stands for\<close>

definition q_rep :: "queue \<Rightarrow> nat list \<Rightarrow> bool" where
  "q_rep q xs \<longleftrightarrow> length xs \<le> NPROC \<and> front q < NPROC \<and> length (qarray q) = NPROC
     \<and> qsize q = of_nat (length xs) \<and> rear q = (front q + length xs + NPROC - 1) mod NPROC
     \<and> (\<forall>i < length xs. qarray q ! ((front q + i) mod NPROC) = Some (xs ! i))"

lemma q_rep_init: "q_rep q_init []"
  by (simp add: q_rep_def q_init_def NPROC_def)

lemma ring_inj:
  assumes "i < NPROC" and "j < NPROC" and "(f + i) mod NPROC = (f + j) mod NPROC"
  shows "i = j"
proof -
  have "(int f + int i) mod 64 = (int f + int j) mod 64"
    using arg_cong [OF assms(3), of int] by (simp add: NPROC_def zmod_int)
  then have "int i mod 64 = int j mod 64"
    by (simp add: mod_eq_dvd_iff)
  then show ?thesis using assms(1,2) by (simp add: NPROC_def)
qed

lemma q_rep_put:
  assumes "q_rep q xs" and "length xs < NPROC"
  shows "q_rep (q_put p q) (xs @ [p])"
proof -
  define r where "r = (front q + length xs) mod NPROC"
  have r: "(rear q + 1) mod NPROC = r" and "r < NPROC"
    using assms by (simp_all add: q_rep_def r_def NPROC_def mod_Suc_eq)
  have other: "(front q + i) mod NPROC \<noteq> r" if "i < length xs" for i
    using ring_inj [of i "length xs" "front q"] assms(2) that by (auto simp: r_def)
  have "rear (q_put p q) = (front q + length (xs @ [p]) + NPROC - 1) mod NPROC"
    using r by (simp add: q_put_def Let_def r_def NPROC_def)
  moreover have "qarray (q_put p q) ! ((front q + i) mod NPROC) = Some ((xs @ [p]) ! i)"
    if "i < length (xs @ [p])" for i
    using that assms other [of i] \<open>r < NPROC\<close> r
    by (cases "i = length xs") (auto simp: q_put_def Let_def q_rep_def nth_append r_def)
  ultimately show ?thesis
    using assms by (simp add: q_rep_def q_put_def Let_def)
qed

lemma q_rep_drop:
  assumes "q_rep q (x # xs)"
  shows "q_rep (q\<lparr>front := (front q + 1) mod NPROC, qsize := qsize q - 1\<rparr>) xs"
proof -
  have "qarray q ! (((front q + 1) mod NPROC + i) mod NPROC) = Some (xs ! i)" if "i < length xs" for i
    using assms that unfolding q_rep_def
    by (auto simp: mod_add_left_eq add.assoc dest!: spec [where x = "Suc i"])
  moreover have "rear q = ((front q + 1) mod NPROC + length xs + NPROC - 1) mod NPROC"
  proof -
    have "((front q + 1) mod 64 + length xs + 63) mod 64 = ((front q + 1) mod 64 + (length xs + 63)) mod 64"
      by (simp add: add.assoc)
    also have "\<dots> = (front q + 1 + (length xs + 63)) mod 64" by (rule mod_add_left_eq)
    finally show ?thesis using assms by (simp add: q_rep_def NPROC_def add.commute)
  qed
  ultimately show ?thesis
    using assms by (simp add: q_rep_def NPROC_def)
qed

lemma q_rep_head:
  assumes "q_rep q (x # xs)"
  shows "qarray q ! front q = Some x" and "qsize q \<noteq> 0"
proof -
  have "qarray q ! ((front q + 0) mod NPROC) = Some ((x # xs) ! 0)"
    using assms unfolding q_rep_def by (auto dest!: spec [where x = 0])
  then show "qarray q ! front q = Some x" using assms by (simp add: q_rep_def)
  have "qsize q = of_nat (Suc (length xs))" "Suc (length xs) \<le> 64"
    using assms by (simp_all add: q_rep_def NPROC_def)
  then have "unat (qsize q) = Suc (length xs)"
    by (simp only: unat_of_nat) (simp add: take_bit_nat_eq_self)
  then show "qsize q \<noteq> 0" by auto
qed

lemma q_rep_rotate:
  assumes "q_rep q (x # xs)"
  shows "q_rep (q\<lparr>front := (front q + 1) mod NPROC, rear := (rear q + 1) mod NPROC,
           qarray := (qarray q)[(rear q + 1) mod NPROC := Some x]\<rparr>) (xs @ [x])"
proof -
  have "q_put x (q\<lparr>front := (front q + 1) mod NPROC, qsize := qsize q - 1\<rparr>) =
      q\<lparr>front := (front q + 1) mod NPROC, rear := (rear q + 1) mod NPROC,
        qarray := (qarray q)[(rear q + 1) mod NPROC := Some x]\<rparr>"
    by (simp add: q_put_def Let_def)
  moreover have "length xs < NPROC" using assms by (simp add: q_rep_def)
  ultimately show ?thesis using q_rep_put [OF q_rep_drop [OF assms]] by metis
qed

text \<open>What the selection loop does to the list: it drops the stale prefix and rotates.\<close>

lemma q_pick_live:
  assumes "q_rep q xs" and "dropWhile stale xs = y # ys"
  shows "\<exists>q'. q_pick stale lst q = Ret (Some y, q') \<and> q_rep q' (ys @ [y])"
  using assms
proof (induction xs arbitrary: q lst)
  case Nil
  then show ?case by simp
next
  case (Cons x xs)
  note h = q_rep_head [OF Cons.prems(1)]
  show ?case
  proof (cases "stale x")
    case True
    then show ?thesis
      using Cons.IH [OF q_rep_drop [OF Cons.prems(1)], of "Some x"] Cons.prems(2) h
      by (simp add: q_pick.simps [of stale lst q] Let_def)
  next
    case False
    then show ?thesis
      using q_rep_rotate [OF Cons.prems(1)] Cons.prems(2) h
      by (simp add: q_pick.simps [of stale lst q] Let_def)
  qed
qed

lemma q_pick_stale:
  assumes "q_rep q xs" and "\<forall>x \<in> set xs. stale x"
  shows "\<exists>q'. q_pick stale lst q = Ret (if xs = [] then lst else Some (last xs), q') \<and> q_rep q' []"
  using assms
proof (induction xs arbitrary: q lst)
  case Nil
  then show ?case by (auto simp: q_pick.simps [of stale lst q] q_rep_def)
next
  case (Cons x xs)
  then show ?case
    using Cons.IH [OF q_rep_drop [OF Cons.prems(1)], of "Some x"] q_rep_head [OF Cons.prems(1)]
    by (auto simp: q_pick.simps [of stale lst q] Let_def)
qed

text \<open>
  A ring whose size counts more entries than it has slots (repeated \<open>setqueue\<close> of one process
  can bring that about) no longer stands for a list, but the slots it will read are still written.
\<close>

definition q_safe :: "queue \<Rightarrow> bool" where
  "q_safe q \<longleftrightarrow> front q < NPROC \<and> length (qarray q) = NPROC
     \<and> rear q = (front q + unat (qsize q) + NPROC - 1) mod NPROC
     \<and> (\<forall>i < NPROC. i < unat (qsize q) \<longrightarrow>
          (\<exists>p < NPROC. qarray q ! ((front q + i) mod NPROC) = Some p))"

lemma q_safe_head:
  assumes "q_safe q" and "qsize q \<noteq> 0"
  shows "\<exists>p < NPROC. qarray q ! front q = Some p"
proof -
  have "0 < unat (qsize q)" using assms(2) by (simp add: unat_gt_0)
  moreover have "front q < NPROC" using assms(1) by (simp add: q_safe_def)
  ultimately show ?thesis
    using assms(1) unfolding q_safe_def by (auto dest!: spec [where x = 0])
qed

lemma q_safe_drop:
  assumes "q_safe q" and "qsize q \<noteq> 0"
  shows "q_safe (q\<lparr>front := (front q + 1) mod NPROC, qsize := qsize q - 1\<rparr>)" (is "q_safe ?q")
proof -
  have n: "unat (qsize q) = Suc (unat (qsize q - 1))"
    using assms(2) by (simp add: unat_minus_one unat_gt_0)
  have slot: "\<exists>p < NPROC. qarray q ! ((Suc (front q) mod NPROC + i) mod NPROC) = Some p"
    if "i < NPROC" "i < unat (qsize q - 1)" for i
  proof (cases "Suc i < NPROC")
    case True
    then have "\<exists>p < NPROC. qarray q ! ((front q + Suc i) mod NPROC) = Some p"
      using assms(1) that n unfolding q_safe_def by auto
    then show ?thesis by (simp add: mod_add_left_eq add.assoc [symmetric])
  next
    case False
    then have "i = NPROC - 1" using that(1) by simp
    then have "(Suc (front q) mod NPROC + i) mod NPROC = front q"
      using assms(1) mod_add_left_eq [of "Suc (front q)" NPROC i]
      by (simp add: q_safe_def NPROC_def)
    then show ?thesis using q_safe_head [OF assms] by simp
  qed
  have "((front q + 1) mod 64 + unat (qsize q - 1) + 63) mod 64 = ((front q + 1) mod 64 + (unat (qsize q - 1) + 63)) mod 64"
    by (simp add: add.assoc)
  also have "\<dots> = (front q + 1 + (unat (qsize q - 1) + 63)) mod 64" by (rule mod_add_left_eq)
  finally have "rear q = ((front q + 1) mod NPROC + unat (qsize q - 1) + NPROC - 1) mod NPROC"
    using assms(1) n by (simp add: q_safe_def NPROC_def add.commute)
  then show ?thesis using assms(1) slot by (simp add: q_safe_def NPROC_def)
qed

lemma q_safe_rotate:
  assumes "q_safe q" and "qsize q \<noteq> 0" and "p < NPROC"
  shows "q_safe (q\<lparr>front := (front q + 1) mod NPROC, rear := (rear q + 1) mod NPROC,
           qarray := (qarray q)[(rear q + 1) mod NPROC := Some p]\<rparr>)" (is "q_safe ?q")
proof -
  let ?r = "(rear q + 1) mod NPROC"
  have n: "unat (qsize q) = Suc (unat (qsize q - 1))"
    using assms(2) by (simp add: unat_minus_one unat_gt_0)
  have d: "q_safe (q\<lparr>front := (front q + 1) mod NPROC, qsize := qsize q - 1\<rparr>)"
    by (rule q_safe_drop [OF assms(1,2)])
  have r: "?r = ((front q + 1) mod NPROC + unat (qsize q - 1)) mod NPROC"
    using d by (simp add: q_safe_def NPROC_def mod_Suc_eq)
  have slot: "\<exists>x < NPROC. qarray ?q ! ((Suc (front q) mod NPROC + i) mod NPROC) = Some x"
    if "i < NPROC" "i < unat (qsize q)" for i
  proof (cases "(Suc (front q) mod NPROC + i) mod NPROC = ?r")
    case True
    then show ?thesis using assms(1,3) by (simp add: q_safe_def NPROC_def)
  next
    case False
    then have "i \<noteq> unat (qsize q - 1)" using r by auto
    then have "i < unat (qsize q - 1)" using that n by simp
    then have "\<exists>x < NPROC. qarray q ! ((Suc (front q) mod NPROC + i) mod NPROC) = Some x"
      using d that(1) by (simp add: q_safe_def)
    then show ?thesis using False by auto
  qed
  have "?r = ((front q + 1) mod NPROC + unat (qsize q) + NPROC - 1) mod NPROC"
    using r n by (simp add: NPROC_def)
  then show ?thesis using assms(1) slot by (simp add: q_safe_def NPROC_def)
qed

lemma q_safe_pick:
  assumes "q_safe q"
  shows "\<exists>r q'. q_pick stale lst q = Ret (r, q') \<and> q_safe q' \<and> (r = lst \<or> (\<exists>j < NPROC. r = Some j))"
  using assms
proof (induction stale lst q rule: q_pick.induct)
  case (1 stale lst q)
  show ?case
  proof (cases "qsize q = 0")
    case True
    then show ?thesis using 1(2) by (simp add: q_pick.simps)
  next
    case False
    obtain p where p: "p < NPROC" "qarray q ! front q = Some p"
      using q_safe_head [OF 1(2) False] by auto
    show ?thesis
    proof (cases "stale p")
      case True
      then show ?thesis
        using 1(1) [OF False p(2) refl True] q_safe_drop [OF 1(2) False] False p
        by (auto simp: q_pick.simps [of stale lst q])
    next
      case live: False
      then show ?thesis
        using q_safe_rotate [OF 1(2) False p(1)] False p
        by (simp add: q_pick.simps [of stale lst q])
    qed
  qed
qed

section \<open>The contract of a round-robin queue\<close>

locale rr_queue =
  fixes rep :: "'q \<Rightarrow> nat list \<Rightarrow> bool"
    and cap :: nat
    and new :: 'q
    and put :: "nat \<Rightarrow> 'q \<Rightarrow> 'q"
    and pick :: "(nat \<Rightarrow> bool) \<Rightarrow> nat option \<Rightarrow> 'q \<Rightarrow> (nat option \<times> 'q) outcome"
  assumes rep_new: "rep new []"
    and rep_put: "rep q xs \<Longrightarrow> length xs < cap \<Longrightarrow> rep (put p q) (xs @ [p])"
    and pick_live: "rep q xs \<Longrightarrow> dropWhile stale xs = y # ys \<Longrightarrow>
      \<exists>q'. pick stale r q = Ret (Some y, q') \<and> rep q' (ys @ [y])"
    and pick_stale: "rep q xs \<Longrightarrow> \<forall>x \<in> set xs. stale x \<Longrightarrow>
      \<exists>q'. pick stale r q = Ret (if xs = [] then r else Some (last xs), q') \<and> rep q' []"
begin

lemma rep_puts: "length ps \<le> cap \<Longrightarrow> rep (fold put ps new) ps"
proof (induction ps rule: rev_induct)
  case Nil
  then show ?case by (simp add: rep_new)
next
  case (snoc p ps)
  then show ?case by (simp add: rep_put)
qed

lemma pick_total: "rep q xs \<Longrightarrow> \<exists>r' q'. pick stale r q = Ret (r', q')"
  using pick_live [of q xs stale _ _ r] pick_stale [of q xs stale r]
  by (cases "dropWhile stale xs") (fastforce simp: dropWhile_eq_Nil_conv)+

end

fun turns :: "((nat \<Rightarrow> bool) \<Rightarrow> nat option \<Rightarrow> 'q \<Rightarrow> (nat option \<times> 'q) outcome)
    \<Rightarrow> (nat \<Rightarrow> bool) \<Rightarrow> nat \<Rightarrow> 'q \<Rightarrow> (nat option list \<times> 'q) outcome" where
  "turns pk stale 0 q = Ret ([], q)"
| "turns pk stale (Suc n) q =
     obind (pk stale None q) (\<lambda>(r, q). obind (turns pk stale n q) (\<lambda>(rs, q). Ret (r # rs, q)))"

context rr_queue
begin

text \<open>Every entry that stays live gets its turn, in order, before any other gets a second one.\<close>

lemma round_robin:
  assumes "rep q xs" and "xs \<noteq> []" and "\<forall>x \<in> set xs. \<not> stale x"
  shows "\<exists>q'. turns pick stale n q = Ret (map (\<lambda>i. Some (xs ! (i mod length xs))) [0..<n], q')
    \<and> rep q' (rotate n xs)"
  using assms
proof (induction n arbitrary: q xs)
  case 0
  then show ?case by simp
next
  case (Suc n)
  obtain x ys where xs: "xs = x # ys" using Suc.prems(2) by (cases xs) auto
  then have "dropWhile stale xs = x # ys" using Suc.prems(3) by simp
  from pick_live [OF Suc.prems(1) this, of None] obtain q1
    where q1: "pick stale None q = Ret (Some x, q1)" "rep q1 (rotate1 xs)" by (auto simp: xs)
  have nth: "rotate1 xs ! (i mod length xs) = xs ! (Suc i mod length xs)" for i
    using nth_rotate1 [of "i mod length xs" xs] Suc.prems(2) by (simp add: mod_Suc_eq)
  from Suc.IH [OF q1(2)] Suc.prems(2,3) obtain q2
    where q2: "turns pick stale n q1 = Ret (map (\<lambda>i. Some (xs ! (Suc i mod length xs))) [0..<n], q2)"
      "rep q2 (rotate n (rotate1 xs))" by (auto simp: nth)
  have "map (\<lambda>i. Some (xs ! (i mod length xs))) [0..<Suc n]
      = Some x # map (\<lambda>i. Some (xs ! (Suc i mod length xs))) [0..<n]"
    by (simp add: upt_conv_Cons map_Suc_upt [symmetric] xs del: upt_Suc)
  with q1(1) q2 show ?case by (simp add: rotate1_rotate_swap [symmetric] del: upt_Suc)
qed

end

interpretation sq: rr_queue q_rep NPROC q_init q_put q_pick
  by unfold_locales (rule q_rep_init q_rep_put q_pick_live q_pick_stale; assumption)+

text \<open>
  C7. The scheduling queue is a fair round robin: entries put into a fresh queue (at most
  \<open>NPROC\<close>, none stale) are selected by the scheduler's loop in the order they were put in,
  cyclically: the \<open>i\<close>-th selection is entry \<open>i mod n\<close>, so each of the \<open>n\<close> entries gets
  its turn within \<open>n\<close> selections, no entry is lost, and no selection faults on an unwritten slot.
\<close>

theorem queue_round_robin:
  assumes "ps \<noteq> []" and "length ps \<le> NPROC" and "\<forall>p \<in> set ps. \<not> stale p"
  shows "\<exists>q'. turns q_pick stale n (fold q_put ps q_init)
      = Ret (map (\<lambda>i. Some (ps ! (i mod length ps))) [0..<n], q') \<and> q_rep q' (rotate n ps)"
  using sq.round_robin [OF sq.rep_puts [OF assms(2)] assms(1,3)] .

theorem queue_round_robin_witness:
  "\<exists>q'. turns q_pick (\<lambda>p. p = 9) 5 (fold q_put [4, 7] q_init)
      = Ret ([Some 4, Some 7, Some 4, Some 7, Some 4], q') \<and> q_rep q' [7, 4]"
proof -
  have "map (\<lambda>i. Some ([4, 7] ! (i mod length [4, 7::nat]))) [0..<5]
      = [Some 4, Some 7, Some 4, Some 7, Some (4::nat)]"
    by code_simp
  moreover have "rotate 5 [4, 7::nat] = [7, 4]"
    by code_simp
  ultimately show ?thesis
    using queue_round_robin [of "[4, 7]" "\<lambda>p. p = 9" 5] by (simp add: NPROC_def del: turns.simps)
qed

end
