(* ===== verification/Proc.thy ===== *)
theory Proc
  imports Vm Spinlock Queue "HOL-Library.Signed_Division"
begin

unbundle bit_operations_syntax

text \<open>
  The process table and the scheduler of \<open>proc.c\<close>. Processes are indices into \<open>ptable\<close>;
  trap frames, contexts and the system call counters live in kernel memory, at the offsets of
  \<open>x86.h\<close> and \<open>proc.h\<close>. The short critical sections under \<open>ptable.lock\<close> and the queue locks
  are single steps; \<open>sched\<close>, \<open>yield\<close>, \<open>sleep\<close> and \<open>scheduler\<close>, whose correctness depends
  on the lock and on the interrupt nesting, manipulate \<open>ptable.lock\<close> explicitly. A context switch
  separates the two halves of \<open>sched\<close>, \<open>yield\<close> and \<open>sleep\<close>; in \<open>scheduler\<close> it is the parameter \<open>run\<close>:
  what happens from the switch to a process until control comes back.
\<close>

section \<open>State\<close>

datatype procstate = UNUSED | EMBRYO | SLEEPING | RUNNABLE | RUNNING | ZOMBIE

record info =
  inf_creation_time :: u32
  inf_running_time :: u32
  inf_ready_time :: u32
  inf_sleep_time :: u32
  inf_termination_time :: u32

record proc =
  psz :: u32
  pgdir :: u32
  kstack :: u32
  pstate :: procstate
  pid :: s32
  parent :: "nat option"
  tf :: u32
  pcontext :: u32
  pchan :: "chan option"
  killed :: bool
  ofile :: "nat option list"
  cwd :: "nat option"
  pname :: "u8 list"
  syscallhistory :: u32
  priority :: s32
  queueNumber :: s32
  scheduled_times :: s32
  creation_time :: u32
  running_time :: u32
  ready_time :: u32
  sleep_time :: u32
  termination_time :: u32
  last_time :: u32

definition POLICY_DEFAULT :: s32 where "POLICY_DEFAULT = 0"
definition POLICY_ROUND_ROBIN :: s32 where "POLICY_ROUND_ROBIN = 1"
definition POLICY_PRIORITY :: s32 where "POLICY_PRIORITY = 2"
definition POLICY_MLQ :: s32 where "POLICY_MLQ = 3"
definition QUEUE_DEFAULT :: s32 where "QUEUE_DEFAULT = 0"
definition QUEUE_PRIORITY :: s32 where "QUEUE_PRIORITY = 1"
definition QUEUE_PRIORITY_REVERSE :: s32 where "QUEUE_PRIORITY_REVERSE = 2"
definition QUEUE_PRIORITY_RR :: s32 where "QUEUE_PRIORITY_RR = 3"

lemmas sched_consts [const_simps] =
  POLICY_DEFAULT_def POLICY_ROUND_ROBIN_def POLICY_PRIORITY_def POLICY_MLQ_def
  QUEUE_DEFAULT_def QUEUE_PRIORITY_def QUEUE_PRIORITY_REVERSE_def QUEUE_PRIORITY_RR_def

record kst = kmem +
  cpus :: "cpu list"
  plock :: spinlock
  ptable :: "proc list"
  lastQueue :: "s32 list"
  schedulingQueues :: "queue list"
  policy :: s32
  initproc :: "nat option"
  nextpid :: s32
  ticks :: u32
  infos :: "info list"
  kpgdir :: u32

definition upd_proc :: "nat \<Rightarrow> (proc \<Rightarrow> proc) \<Rightarrow> 'a kst_scheme \<Rightarrow> 'a kst_scheme" where
  "upd_proc i f s = s\<lparr>ptable := (ptable s)[i := f (ptable s ! i)]\<rparr>"

definition upd_cpu :: "nat \<Rightarrow> (cpu \<Rightarrow> cpu) \<Rightarrow> 'a kst_scheme \<Rightarrow> 'a kst_scheme" where
  "upd_cpu i f s = s\<lparr>cpus := (cpus s)[i := f (cpus s ! i)]\<rparr>"

definition upd_queue :: "nat \<Rightarrow> (queue \<Rightarrow> queue) \<Rightarrow> 'a kst_scheme \<Rightarrow> 'a kst_scheme" where
  "upd_queue i f s = s\<lparr>schedulingQueues := (schedulingQueues s)[i := f (schedulingQueues s ! i)]\<rparr>"

definition pinit :: "'a kst_scheme \<Rightarrow> 'a kst_scheme" where
  "pinit s = s\<lparr>plock := initlock ''ptable''\<rparr>"

text \<open>\<open>myproc\<close> on CPU \<open>me\<close> (which \<open>mycpu\<close> finds): the process pointer, read with interrupts off.\<close>

definition myproc :: "nat \<Rightarrow> 'a kst_scheme \<Rightarrow> (nat option \<times> 'a kst_scheme) outcome" where
  "myproc me s =
     (let c = pushcli (cpus s ! me); p = cproc c
      in obind (popcli c) (\<lambda>c. Ret (p, upd_cpu me (\<lambda>_. c) s)))"

section \<open>Creating a process\<close>

text \<open>\<open>sizeof(struct trapframe)\<close>, \<open>sizeof(struct context)\<close> and the offset of \<open>eip\<close> in the latter.\<close>

definition TF_SIZE :: u32 where "TF_SIZE = 76"
definition CONTEXT_SIZE :: u32 where "CONTEXT_SIZE = 20"
definition CONTEXT_EIP :: u32 where "CONTEXT_EIP = 16"

definition allocproc :: "u32 \<Rightarrow> u32 \<Rightarrow> 'a kst_scheme \<Rightarrow> nat option \<times> 'a kst_scheme" where
  "allocproc trapret forkret s =
     (case find_slot (\<lambda>p. pstate p = UNUSED) (ptable s) of
        None \<Rightarrow> (None, s)
      | Some i \<Rightarrow>
          let s = upd_proc i (\<lambda>p. p\<lparr>pstate := EMBRYO, priority := 3, scheduled_times := 0,
                    queueNumber := QUEUE_DEFAULT\<rparr>) s;
              s = upd_queue 0 (q_put i) s;
              s = upd_proc i (\<lambda>p. p\<lparr>pid := nextpid s, syscallhistory := 0\<rparr>) s;
              s = s\<lparr>nextpid := nextpid s + 1\<rparr>;
              (k, s) = kalloc s;
              s = upd_proc i (\<lambda>p. p\<lparr>kstack := k\<rparr>) s
          in if k = 0 then (None, upd_proc i (\<lambda>p. p\<lparr>pstate := UNUSED\<rparr>) s)
             else
               let sp = k + KSTACKSIZE - TF_SIZE;
                   s = upd_proc i (\<lambda>p. p\<lparr>tf := sp\<rparr>) s;
                   sp = sp - 4;
                   s = s\<lparr>mem := wr32 (mem s) sp trapret\<rparr>;
                   sp = sp - CONTEXT_SIZE;
                   s = upd_proc i (\<lambda>p. p\<lparr>pcontext := sp\<rparr>) s;
                   s = s\<lparr>mem := memset (mem s) sp 0 CONTEXT_SIZE\<rparr>;
                   s = s\<lparr>mem := wr32 (mem s) (sp + CONTEXT_EIP) forkret\<rparr>;
                   s = upd_proc i (\<lambda>p. p\<lparr>ready_time := 0, running_time := 0, sleep_time := 0,
                         creation_time := ticks s, last_time := ticks s\<rparr>) s
               in (Some i, s))"

section \<open>Sleeping and waking\<close>

definition wakeup1 :: "chan \<Rightarrow> 'a kst_scheme \<Rightarrow> 'a kst_scheme" where
  "wakeup1 ch s = s\<lparr>ptable := map (\<lambda>p.
     if pstate p = SLEEPING \<and> pchan p = Some ch
     then p\<lparr>sleep_time := sleep_time p + (ticks s - last_time p), pstate := RUNNABLE, last_time := ticks s\<rparr>
     else p) (ptable s)\<rparr>"

definition wakeup :: "chan \<Rightarrow> 'a kst_scheme \<Rightarrow> 'a kst_scheme" where
  "wakeup ch s = wakeup1 ch s"

text \<open>\<open>ptable.lock\<close> taken and given back by CPU \<open>me\<close>.\<close>

definition acquire_ptable :: "nat \<Rightarrow> 'a kst_scheme \<Rightarrow> 'a kst_scheme outcome" where
  "acquire_ptable me s =
     obind (acquire me (plock s) (cpus s ! me)) (\<lambda>(lk, c). Ret (upd_cpu me (\<lambda>_. c) (s\<lparr>plock := lk\<rparr>)))"

definition release_ptable :: "nat \<Rightarrow> 'a kst_scheme \<Rightarrow> 'a kst_scheme outcome" where
  "release_ptable me s =
     obind (release me (plock s) (cpus s ! me)) (\<lambda>(lk, c). Ret (upd_cpu me (\<lambda>_. c) (s\<lparr>plock := lk\<rparr>)))"

text \<open>
  \<open>sched\<close> up to the context switch: the checks, and the saved \<open>intena\<close> that the second
  half restores on whatever CPU the process runs next.
\<close>

definition sched_enter :: "nat \<Rightarrow> 'a kst_scheme \<Rightarrow> (bool \<times> 'a kst_scheme) outcome" where
  "sched_enter me s =
     (case cproc (cpus s ! me) of
        None \<Rightarrow> Fault
      | Some p \<Rightarrow>
          let s = s\<lparr>lastQueue := (lastQueue s)[me := queueNumber (ptable s ! p)]\<rparr>
          in obind (holding me (plock s) (cpus s ! me)) (\<lambda>(h, c).
               let s = upd_cpu me (\<lambda>_. c) s
               in if \<not> h then Panic ''sched ptable.lock''
                  else if ncli c \<noteq> 1 then Panic ''sched locks''
                  else if pstate (ptable s ! p) = RUNNING then Panic ''sched running''
                  else if fl_if c then Panic ''sched interruptible''
                  else Ret (intena c, s)))"

definition sched_exit :: "nat \<Rightarrow> bool \<Rightarrow> 'a kst_scheme \<Rightarrow> 'a kst_scheme" where
  "sched_exit me ie s = upd_cpu me (\<lambda>c. c\<lparr>intena := ie\<rparr>) s"

definition yield_enter :: "nat \<Rightarrow> 'a kst_scheme \<Rightarrow> (bool \<times> 'a kst_scheme) outcome" where
  "yield_enter me s =
     obind (acquire_ptable me s) (\<lambda>s.
       case cproc (cpus s ! me) of
         None \<Rightarrow> Fault
       | Some p \<Rightarrow>
           let s = upd_proc p (\<lambda>p. p\<lparr>running_time := running_time p + (ticks s - last_time p)\<rparr>) s;
               s = upd_proc p (\<lambda>p. p\<lparr>pstate := RUNNABLE\<rparr>) s
           in sched_enter me s)"

definition yield_exit :: "nat \<Rightarrow> bool \<Rightarrow> 'a kst_scheme \<Rightarrow> 'a kst_scheme outcome" where
  "yield_exit me ie s =
     (let s = sched_exit me ie s
      in case cproc (cpus s ! me) of
           None \<Rightarrow> Fault
         | Some p \<Rightarrow> release_ptable me (upd_proc p (\<lambda>p. p\<lparr>last_time := ticks s\<rparr>) s))"

text \<open>
  The lock argument of \<open>sleep\<close>: a null pointer, \<open>&ptable.lock\<close>, or another lock (its
  current value).
\<close>

datatype lockref = NullLock | PtableLock | OtherLock spinlock

definition sleep_enter :: "nat \<Rightarrow> chan \<Rightarrow> lockref \<Rightarrow> 'a kst_scheme \<Rightarrow> (lockref \<times> bool \<times> 'a kst_scheme) outcome" where
  "sleep_enter me ch lk s =
     (case cproc (cpus s ! me) of
        None \<Rightarrow> Panic ''sleep''
      | Some p \<Rightarrow>
          obind (case lk of
                   NullLock \<Rightarrow> Panic ''sleep without lk''
                 | PtableLock \<Rightarrow> Ret (lk, s)
                 | OtherLock l \<Rightarrow>
                     obind (acquire_ptable me s) (\<lambda>s.
                     obind (release me l (cpus s ! me)) (\<lambda>(l, c).
                       Ret (OtherLock l, upd_cpu me (\<lambda>_. c) s)))) (\<lambda>(lk, s).
          let s = upd_proc p (\<lambda>p. p\<lparr>pchan := Some ch\<rparr>) s;
              s = (if pstate (ptable s ! p) = RUNNING
                   then upd_proc p (\<lambda>p. p\<lparr>running_time := running_time p + (ticks s - last_time p)\<rparr>) s
                   else if pstate (ptable s ! p) = RUNNABLE
                   then upd_proc p (\<lambda>p. p\<lparr>ready_time := ready_time p + (ticks s - last_time p)\<rparr>) s
                   else s);
              s = upd_proc p (\<lambda>p. p\<lparr>last_time := ticks s, pstate := SLEEPING\<rparr>) s
          in obind (sched_enter me s) (\<lambda>(ie, s). Ret (lk, ie, s))))"

definition sleep_exit :: "nat \<Rightarrow> bool \<Rightarrow> nat \<Rightarrow> lockref \<Rightarrow> 'a kst_scheme \<Rightarrow> (lockref \<times> 'a kst_scheme) outcome" where
  "sleep_exit me ie p lk s =
     (let s = upd_proc p (\<lambda>p. p\<lparr>pchan := None\<rparr>) (sched_exit me ie s)
      in case lk of
           OtherLock l \<Rightarrow>
             obind (release_ptable me s) (\<lambda>s.
             obind (acquire me l (cpus s ! me)) (\<lambda>(l, c). Ret (OtherLock l, upd_cpu me (\<lambda>_. c) s)))
         | _ \<Rightarrow> Ret (lk, s))"

section \<open>The hand-over of \<open>ptable.lock\<close>\<close>

lemma upd_simps [simp]:
  "ptable (upd_proc i f s) = (ptable s)[i := f (ptable s ! i)]" "cpus (upd_proc i f s) = cpus s"
  "plock (upd_proc i f s) = plock s" "ticks (upd_proc i f s) = ticks s" "mem (upd_proc i f s) = mem s"
  "lastQueue (upd_proc i f s) = lastQueue s" "schedulingQueues (upd_proc i f s) = schedulingQueues s"
  "nextpid (upd_proc i f s) = nextpid s" "policy (upd_proc i f s) = policy s"
  "freelist (upd_proc i f s) = freelist s" "infos (upd_proc i f s) = infos s"
  "initproc (upd_proc i f s) = initproc s" "kpgdir (upd_proc i f s) = kpgdir s"
  "ptable (upd_cpu j g s) = ptable s" "cpus (upd_cpu j g s) = (cpus s)[j := g (cpus s ! j)]"
  "plock (upd_cpu j g s) = plock s" "ticks (upd_cpu j g s) = ticks s" "mem (upd_cpu j g s) = mem s"
  "lastQueue (upd_cpu j g s) = lastQueue s" "schedulingQueues (upd_cpu j g s) = schedulingQueues s"
  "nextpid (upd_cpu j g s) = nextpid s" "policy (upd_cpu j g s) = policy s"
  "freelist (upd_cpu j g s) = freelist s" "infos (upd_cpu j g s) = infos s"
  "initproc (upd_cpu j g s) = initproc s" "kpgdir (upd_cpu j g s) = kpgdir s"
  "ptable (upd_queue k h s) = ptable s" "cpus (upd_queue k h s) = cpus s"
  "plock (upd_queue k h s) = plock s" "ticks (upd_queue k h s) = ticks s" "mem (upd_queue k h s) = mem s"
  "lastQueue (upd_queue k h s) = lastQueue s"
  "schedulingQueues (upd_queue k h s) = (schedulingQueues s)[k := h (schedulingQueues s ! k)]"
  "nextpid (upd_queue k h s) = nextpid s" "policy (upd_queue k h s) = policy s"
  "freelist (upd_queue k h s) = freelist s" "infos (upd_queue k h s) = infos s"
  "initproc (upd_queue k h s) = initproc s" "kpgdir (upd_queue k h s) = kpgdir s"
  by (simp_all add: upd_proc_def upd_cpu_def upd_queue_def)

text \<open>The situation in which a process may call \<open>sched\<close>: its CPU holds \<open>ptable.lock\<close> and no other.\<close>

definition holds_only_ptable :: "nat \<Rightarrow> 'a kst_scheme \<Rightarrow> bool" where
  "holds_only_ptable me s \<longleftrightarrow> me < length (cpus s) \<and> locked (plock s) \<noteq> 0 \<and> lcpu (plock s) = Some me
     \<and> ncli (cpus s ! me) = 1 \<and> \<not> fl_if (cpus s ! me)"

lemma holds_only_cli: "holds_only_ptable me s \<Longrightarrow> cli_ok (cpus s ! me)"
  by (simp add: holds_only_ptable_def cli_ok_def)

lemma sched_enter_ok:
  assumes "holds_only_ptable me s" and "cproc (cpus s ! me) = Some p" and "pstate (ptable s ! p) \<noteq> RUNNING"
  shows "sched_enter me s = Ret (intena (cpus s ! me), s\<lparr>lastQueue := (lastQueue s)[me := queueNumber (ptable s ! p)]\<rparr>)"
  using assms holds_only_cli [OF assms(1)]
  by (simp add: sched_enter_def holding_cpu holds_only_ptable_def upd_cpu_def Let_def)

lemma acquire_ptable_free:
  assumes "me < length (cpus s)" and "ncli (cpus s ! me) = 0" and "locked (plock s) = 0"
  shows "acquire_ptable me s = Ret (upd_cpu me pushcli (s\<lparr>plock := (plock s)\<lparr>locked := 1, lcpu := Some me\<rparr>\<rparr>))"
  using assms by (simp add: acquire_ptable_def acquire_free cli_ok_def upd_cpu_def)

lemma release_ptable_held:
  assumes "holds_only_ptable me s"
  shows "release_ptable me s = Ret (upd_cpu me (\<lambda>c. c\<lparr>ncli := 0, fl_if := intena c\<rparr>)
           (s\<lparr>plock := (plock s)\<lparr>lcpu := None, locked := 0\<rparr>\<rparr>))"
  using assms holds_only_cli [OF assms]
  by (simp add: release_ptable_def release_held holds_only_ptable_def popcli_last upd_cpu_def)

lemma pushcli_cproc [simp]: "cproc (pushcli c) = cproc c"
  by (simp add: pushcli_def Let_def)

text \<open>A zeroed slot, as the table is at boot, and a machine with one CPU for the examples.\<close>

definition proc0 :: proc where
  "proc0 = \<lparr>psz = 0, pgdir = 0, kstack = 0, pstate = UNUSED, pid = 0, parent = None, tf = 0, pcontext = 0,
     pchan = None, killed = False, ofile = replicate NOFILE None, cwd = None, pname = replicate 16 0,
     syscallhistory = 0, priority = 0, queueNumber = 0, scheduled_times = 0, creation_time = 0,
     running_time = 0, ready_time = 0, sleep_time = 0, termination_time = 0, last_time = 0\<rparr>"

definition kst0 :: kst where
  "kst0 = \<lparr>mem = (\<lambda>_. 0), use_lock = True, freelist = 0, cpus = [cpu0], plock = initlock ''ptable'',
     ptable = replicate NPROC proc0, lastQueue = replicate NCPU 0, schedulingQueues = replicate 4 q_init,
     policy = POLICY_MLQ, initproc = Some 0, nextpid = 1, ticks = 0, infos = [], kpgdir = 0\<rparr>"

lemma yield_enter_eq:
  assumes "me < length (cpus s)" and "cproc (cpus s ! me) = Some p" and "p < length (ptable s)"
    and "ncli (cpus s ! me) = 0" and "locked (plock s) = 0"
  shows "yield_enter me s = Ret (fl_if (cpus s ! me),
    upd_proc p (\<lambda>q. q\<lparr>running_time := running_time q + (ticks s - last_time q), pstate := RUNNABLE\<rparr>)
      (upd_cpu me pushcli (s\<lparr>plock := (plock s)\<lparr>locked := 1, lcpu := Some me\<rparr>,
         lastQueue := (lastQueue s)[me := queueNumber (ptable s ! p)]\<rparr>)))"
proof -
  define s1 where "s1 = upd_cpu me pushcli (s\<lparr>plock := (plock s)\<lparr>locked := 1, lcpu := Some me\<rparr>\<rparr>)"
  define s2 where "s2 = upd_proc p (\<lambda>p. p\<lparr>pstate := RUNNABLE\<rparr>)
    (upd_proc p (\<lambda>p. p\<lparr>running_time := running_time p + (ticks s1 - last_time p)\<rparr>) s1)"
  have held: "holds_only_ptable me s2"
    using assms by (simp add: s2_def s1_def holds_only_ptable_def)
  have "yield_enter me s = sched_enter me s2"
    using assms by (simp add: yield_enter_def acquire_ptable_free s1_def [symmetric] s2_def Let_def)
      (simp add: s1_def)
  also have "\<dots> = Ret (fl_if (cpus s ! me), s2\<lparr>lastQueue := (lastQueue s2)[me := queueNumber (ptable s2 ! p)]\<rparr>)"
    using sched_enter_ok [OF held, of p] assms by (simp add: s2_def s1_def)
  also have "s2\<lparr>lastQueue := (lastQueue s2)[me := queueNumber (ptable s2 ! p)]\<rparr> =
      upd_proc p (\<lambda>q. q\<lparr>running_time := running_time q + (ticks s - last_time q), pstate := RUNNABLE\<rparr>)
      (upd_cpu me pushcli (s\<lparr>plock := (plock s)\<lparr>locked := 1, lcpu := Some me\<rparr>,
         lastQueue := (lastQueue s)[me := queueNumber (ptable s ! p)]\<rparr>))"
    using assms(3) by (simp add: s2_def s1_def upd_proc_def upd_cpu_def)
  finally show ?thesis .
qed

lemma yield_exit_eq:
  assumes "holds_only_ptable me t" and "cproc (cpus t ! me) = Some p"
  shows "yield_exit me ie t = Ret (upd_cpu me (\<lambda>c. c\<lparr>intena := ie, ncli := 0, fl_if := ie\<rparr>)
    (upd_proc p (\<lambda>q. q\<lparr>last_time := ticks t\<rparr>) (t\<lparr>plock := (plock t)\<lparr>lcpu := None, locked := 0\<rparr>\<rparr>)))"
  using assms release_ptable_held
    [of me "upd_proc p (\<lambda>p. p\<lparr>last_time := ticks t\<rparr>) (upd_cpu me (\<lambda>c. c\<lparr>intena := ie\<rparr>) t)"]
  by (simp add: yield_exit_def sched_exit_def Let_def holds_only_ptable_def upd_cpu_def upd_proc_def)

text \<open>
  C8. \<open>yield\<close> hands the CPU over correctly: entered without locks by the process \<open>p\<close> of the CPU, it
  never panics, reaches the context switch with \<open>ptable.lock\<close> held by this CPU and nothing
  else, interrupts off and the process \<open>RUNNABLE\<close>; and when the process is switched to again,
  on whatever CPU, its second half releases the lock, leaves no pending \<open>pushcli\<close> and restores the
  interrupt flag the process had when it called \<open>yield\<close>, not the one of the CPU it resumes on.
\<close>

theorem yield_hand_over:
  assumes "me < length (cpus s)" and "cproc (cpus s ! me) = Some p" and "p < length (ptable s)"
    and "ncli (cpus s ! me) = 0" and "locked (plock s) = 0"
  shows "\<exists>ie s'. yield_enter me s = Ret (ie, s') \<and> holds_only_ptable me s'
    \<and> pstate (ptable s' ! p) = RUNNABLE
    \<and> (\<forall>you t. holds_only_ptable you t \<and> cproc (cpus t ! you) = Some p \<longrightarrow>
         (\<exists>t'. yield_exit you ie t = Ret t' \<and> locked (plock t') = 0 \<and> ncli (cpus t' ! you) = 0
            \<and> fl_if (cpus t' ! you) = fl_if (cpus s ! me)))"
  using assms by (auto simp: yield_enter_eq yield_exit_eq holds_only_ptable_def)

theorem yield_hand_over_witness:
  "\<exists>ie s'. yield_enter 0 (upd_cpu 0 (\<lambda>c. c\<lparr>cproc := Some 5\<rparr>) kst0) = Ret (ie, s') \<and> holds_only_ptable 0 s'
    \<and> pstate (ptable s' ! 5) = RUNNABLE"
  using yield_hand_over [of 0 "upd_cpu 0 (\<lambda>c. c\<lparr>cproc := Some 5\<rparr>) kst0" 5]
  by (auto simp: kst0_def cpu0_def initlock_def NPROC_def)

section \<open>Sleeping, waking and the clock\<close>

text \<open>The times of a process add up to its age at the last change of state (modulo \<open>2^32\<close>).\<close>

definition accounted :: "proc \<Rightarrow> bool" where
  "accounted p \<longleftrightarrow> running_time p + ready_time p + sleep_time p = last_time p - creation_time p"

lemma length_wakeup1 [simp]: "length (ptable (wakeup1 ch s)) = length (ptable s)"
  by (simp add: wakeup1_def)

lemma wakeup1_nth:
  "i < length (ptable s) \<Longrightarrow> ptable (wakeup1 ch s) ! i =
     (let p = ptable s ! i
      in if pstate p = SLEEPING \<and> pchan p = Some ch
         then p\<lparr>sleep_time := sleep_time p + (ticks s - last_time p), pstate := RUNNABLE, last_time := ticks s\<rparr>
         else p)"
  by (simp add: wakeup1_def Let_def)

lemma accounted_wakeup1:
  assumes "i < length (ptable s)" and "accounted (ptable s ! i)"
  shows "accounted (ptable (wakeup1 ch s) ! i)"
  using assms by (auto simp: wakeup1_nth accounted_def Let_def algebra_simps)



end
