(* ===== verification/Sched.thy ===== *)
theory Sched
  imports Proc
begin

unbundle bit_operations_syntax

text \<open>
  The scheduler of \<open>proc.c\<close> with its three policies, and the system calls that steer it.
  \<open>findPriority\<close> is shown against a reference definition (the least pair of priority and
  number of runs), the multi-level queue round against the ring queues of \<^theory_text>\<open>Queue\<close>.
\<close>

section \<open>Dispatching\<close>

definition SEG_KDATA :: u16 where "SEG_KDATA = 2"

text \<open>
  \<open>switchuvm\<close> on CPU \<open>me\<close>. The segment descriptor of the task state is the same for every
  process; what depends on the process is the kernel stack pointer and \<open>cr3\<close>.
\<close>

definition switchuvm :: "nat \<Rightarrow> nat option \<Rightarrow> 'a kst_scheme \<Rightarrow> 'a kst_scheme outcome" where
  "switchuvm me po s =
     (case po of
        None \<Rightarrow> Panic ''switchuvm: no process''
      | Some i \<Rightarrow>
          let p = ptable s ! i
          in if kstack p = 0 then Panic ''switchuvm: no kstack''
             else if pgdir p = 0 then Panic ''switchuvm: no pgdir''
             else let c = pushcli (cpus s ! me);
                      c = c\<lparr>ts_ss0 := push_bit 3 SEG_KDATA, ts_esp0 := kstack p + KSTACKSIZE,
                            ts_iomb := 0xFFFF, cr3 := V2P (pgdir p)\<rparr>
                  in obind (popcli c) (\<lambda>c. Ret (upd_cpu me (\<lambda>_. c) s)))"

definition switchkvm :: "nat \<Rightarrow> 'a kst_scheme \<Rightarrow> 'a kst_scheme" where
  "switchkvm me s = upd_cpu me (\<lambda>c. c\<lparr>cr3 := V2P (kpgdir s)\<rparr>) s"

text \<open>
  What all the branches of \<open>scheduler\<close> do with the chosen process, before the context switch and around it;
  only the default policy does not count the run (\<open>count\<close>).
\<close>

definition dispatch :: "bool \<Rightarrow> nat \<Rightarrow> nat \<Rightarrow> 'a kst_scheme \<Rightarrow> 'a kst_scheme outcome" where
  "dispatch count me i s =
     obind (switchuvm me (Some i) (upd_cpu me (\<lambda>c. c\<lparr>cproc := Some i\<rparr>) s)) (\<lambda>s.
       let s = upd_proc i (\<lambda>p. p\<lparr>ready_time := ready_time p + (ticks s - last_time p)\<rparr>) s;
           s = upd_proc i (\<lambda>p. p\<lparr>pstate := RUNNING, last_time := ticks s\<rparr>) s
       in Ret (if count then upd_proc i (\<lambda>p. p\<lparr>scheduled_times := scheduled_times p + 1\<rparr>) s else s))"

definition run_proc :: "('a kst_scheme \<Rightarrow> 'a kst_scheme outcome) \<Rightarrow> bool \<Rightarrow> nat \<Rightarrow> nat
    \<Rightarrow> 'a kst_scheme \<Rightarrow> 'a kst_scheme outcome" where
  "run_proc run count me i s =
     obind (dispatch count me i s) (\<lambda>s.
     obind (run s) (\<lambda>s. Ret (upd_cpu me (\<lambda>c. c\<lparr>cproc := None\<rparr>) (switchkvm me s))))"

section \<open>Choosing by priority\<close>

definition prefer_proc :: "(int \<Rightarrow> int \<Rightarrow> bool) \<Rightarrow> proc list \<Rightarrow> nat option \<Rightarrow> nat \<Rightarrow> nat option" where
  "prefer_proc worse pt sel i =
     (let j = (case sel of None \<Rightarrow> i | Some j \<Rightarrow> j)
      in if worse (sint (priority (pt ! j))) (sint (priority (pt ! i))) then Some i else Some j)"

definition find_step :: "nat \<Rightarrow> proc list \<Rightarrow> nat \<Rightarrow> nat option \<Rightarrow> nat option" where
  "find_step mode pt i sel =
     (let p = pt ! i
      in if pstate p \<noteq> RUNNABLE then sel
         else
           let sel = (if mode = 1 \<and> queueNumber p = QUEUE_PRIORITY then prefer_proc (>) pt sel i
                      else if mode = 2 \<and> queueNumber p = QUEUE_PRIORITY_REVERSE then prefer_proc (<) pt sel i
                      else if mode = 3 then prefer_proc (>) pt sel i
                      else sel)
           in case sel of
                None \<Rightarrow> None
              | Some j \<Rightarrow>
                  if priority (pt ! j) = priority p \<and> sint (scheduled_times (pt ! j)) > sint (scheduled_times p)
                  then Some i else Some j)"

definition findPriority :: "nat \<Rightarrow> proc list \<Rightarrow> nat option" where
  "findPriority mode pt = fold (find_step mode pt) [0..<length pt] None"

section \<open>The scheduler's rounds\<close>

definition priority_round :: "('a kst_scheme \<Rightarrow> 'a kst_scheme outcome) \<Rightarrow> nat \<Rightarrow> 'a kst_scheme
    \<Rightarrow> 'a kst_scheme outcome" where
  "priority_round run me s =
     (case findPriority 3 (ptable s) of
        None \<Rightarrow> Ret s
      | Some i \<Rightarrow> run_proc run True me i s)"

text \<open>
  One round of the \<open>for\<close> loop over the queues. The first component of the loop state is the
  C variable \<open>p\<close>, which survives from one queue to the next.
\<close>

definition stale_entry :: "'a kst_scheme \<Rightarrow> nat \<Rightarrow> bool" where
  "stale_entry s i \<longleftrightarrow> (let p = ptable s ! i
     in pstate p = UNUSED \<or> pstate p = ZOMBIE
        \<or> (queueNumber p \<noteq> QUEUE_DEFAULT \<and> queueNumber p \<noteq> QUEUE_PRIORITY_RR))"

definition mlq_queue :: "('a kst_scheme \<Rightarrow> 'a kst_scheme outcome) \<Rightarrow> nat \<Rightarrow> nat
    \<Rightarrow> nat option \<times> 'a kst_scheme \<Rightarrow> (nat option \<times> 'a kst_scheme) outcome" where
  "mlq_queue run me i = (\<lambda>(p, s).
     let nq = (sint (lastQueue s ! me) + int i) smod 4
     in if nq < 0 then Fault
        else let newQueue = nat nq; q = schedulingQueues s ! newQueue
             in if qsize q = 0 then Ret (p, s)
                else
                  obind (if newQueue = 0 \<or> newQueue = 3 then
                           obind (q_pick (stale_entry s) p q) (\<lambda>(p, q). Ret (p, upd_queue newQueue (\<lambda>_. q) s))
                         else
                           case findPriority (if newQueue = 1 then 1 else 2) (ptable s) of
                             None \<Rightarrow> Ret (p, s)
                           | Some j \<Rightarrow> obind (run_proc run True me j s) (\<lambda>s. Ret (p, s)))
                    (\<lambda>(p, s).
                       case p of
                         Some j \<Rightarrow> if pstate (ptable s ! j) = RUNNABLE
                                   then obind (run_proc run True me j s) (\<lambda>s. Ret (p, s)) else Ret (p, s)
                       | None \<Rightarrow> Ret (p, s)))"

definition mlq_round :: "('a kst_scheme \<Rightarrow> 'a kst_scheme outcome) \<Rightarrow> nat \<Rightarrow> 'a kst_scheme
    \<Rightarrow> 'a kst_scheme outcome" where
  "mlq_round run me s = obind (ofold (mlq_queue run me) [1, 2, 3, 4] (None, s)) (\<lambda>(_, s). Ret s)"

definition default_round :: "('a kst_scheme \<Rightarrow> 'a kst_scheme outcome) \<Rightarrow> nat \<Rightarrow> 'a kst_scheme
    \<Rightarrow> 'a kst_scheme outcome" where
  "default_round run me s =
     ofold (\<lambda>i s. if pstate (ptable s ! i) = RUNNABLE then run_proc run False me i s else Ret s)
       [0..<NPROC] s"

text \<open>One pass of the scheduler's endless loop.\<close>

definition scheduler_pass :: "('a kst_scheme \<Rightarrow> 'a kst_scheme outcome) \<Rightarrow> nat \<Rightarrow> 'a kst_scheme
    \<Rightarrow> 'a kst_scheme outcome" where
  "scheduler_pass run me s =
     (let s = upd_cpu me (\<lambda>c. c\<lparr>fl_if := True\<rparr>) s
      in obind (acquire_ptable me s) (\<lambda>s.
         obind (if policy s = POLICY_PRIORITY then priority_round run me s
                else if policy s = POLICY_MLQ then mlq_round run me s
                else default_round run me s)
           (release_ptable me)))"

fun scheduler :: "('a kst_scheme \<Rightarrow> 'a kst_scheme outcome) \<Rightarrow> nat \<Rightarrow> nat \<Rightarrow> 'a kst_scheme
    \<Rightarrow> 'a kst_scheme outcome" where
  "scheduler run me 0 s = Ret (upd_cpu me (\<lambda>c. c\<lparr>cproc := None\<rparr>) s)"
| "scheduler run me (Suc n) s = obind (scheduler run me n s) (scheduler_pass run me)"

section \<open>Steering the scheduler\<close>

definition setPriority :: "s32 \<Rightarrow> s32 \<Rightarrow> 'a kst_scheme \<Rightarrow> s32 \<times> 'a kst_scheme" where
  "setPriority n prio s =
     (case find_slot (\<lambda>p. pid p = n) (ptable s) of
        None \<Rightarrow> (-1, s)
      | Some i \<Rightarrow>
          let s = (if priority (ptable s ! i) \<noteq> prio then upd_proc i (\<lambda>p. p\<lparr>scheduled_times := 0\<rparr>) s else s);
              s = upd_proc i (\<lambda>p. p\<lparr>priority := prio\<rparr>) s;
              s = (if queueNumber (ptable s ! i) \<noteq> QUEUE_DEFAULT \<or> queueNumber (ptable s ! i) \<noteq> QUEUE_PRIORITY_RR
                   then upd_queue 1 (\<lambda>q. q\<lparr>qsize := qsize q + 1\<rparr>) s else s)
          in (n, s))"

definition changepolicy :: "s32 \<Rightarrow> 'a kst_scheme \<Rightarrow> s32 \<times> 'a kst_scheme" where
  "changepolicy p s = (if sint p < 0 \<or> sint p > 3 then (-1, s) else (p, s\<lparr>policy := p\<rparr>))"

text \<open>\<open>setqueue\<close> has no \<open>break\<close>: every slot with the given pid is moved.\<close>

definition setqueue :: "s32 \<Rightarrow> s32 \<Rightarrow> 'a kst_scheme \<Rightarrow> (s32 \<times> 'a kst_scheme) outcome" where
  "setqueue n qn s =
     ofold (\<lambda>i (r, s).
         if pid (ptable s ! i) = n then
           let s = upd_proc i (\<lambda>p. p\<lparr>queueNumber := qn\<rparr>) s
           in if sint qn < 0 \<or> sint qn \<ge> 4 then Fault
              else Ret (n, upd_queue (unat qn) (q_put i) s)
         else Ret (r, s))
       [0..<length (ptable s)] (-1, s)"

section \<open>What \<open>findPriority\<close> chooses\<close>

definition runs_before :: "proc list \<Rightarrow> nat \<Rightarrow> nat \<Rightarrow> bool" where
  "runs_before pt i j \<longleftrightarrow>
     sint (priority (pt ! i)) < sint (priority (pt ! j))
     \<or> sint (priority (pt ! i)) = sint (priority (pt ! j))
       \<and> (sint (scheduled_times (pt ! i)) < sint (scheduled_times (pt ! j))
          \<or> sint (scheduled_times (pt ! i)) = sint (scheduled_times (pt ! j)) \<and> i \<le> j)"

definition first_choice :: "proc list \<Rightarrow> nat \<Rightarrow> nat option \<Rightarrow> bool" where
  "first_choice pt n sel \<longleftrightarrow>
     (case sel of
        None \<Rightarrow> \<forall>j < n. pstate (pt ! j) \<noteq> RUNNABLE
      | Some i \<Rightarrow> i < n \<and> pstate (pt ! i) = RUNNABLE
          \<and> (\<forall>j < n. pstate (pt ! j) = RUNNABLE \<longrightarrow> runs_before pt i j))"

lemma first_choice_step:
  assumes "first_choice pt n sel"
  shows "first_choice pt (Suc n) (find_step 3 pt n sel)"
proof (cases "pstate (pt ! n) = RUNNABLE")
  case False
  then show ?thesis
    using assms by (auto simp: find_step_def first_choice_def less_Suc_eq split: option.splits)
next
  case run: True
  show ?thesis
  proof (cases sel)
    case None
    with run assms show ?thesis
      by (auto simp: find_step_def first_choice_def prefer_proc_def Let_def less_Suc_eq runs_before_def)
  next
    case (Some i)
    show ?thesis
    proof (cases "runs_before pt i n")
      case True
      then have "find_step 3 pt n sel = Some i"
        using run Some assms by (auto simp: find_step_def prefer_proc_def Let_def runs_before_def first_choice_def)
      then show ?thesis using True Some assms by (auto simp: first_choice_def less_Suc_eq)
    next
      case False
      then have "find_step 3 pt n sel = Some n"
        using run Some assms
        by (auto simp: find_step_def prefer_proc_def Let_def runs_before_def first_choice_def sint_eq_iff [symmetric]
            split: if_splits)
      moreover have "runs_before pt n j" if "runs_before pt i j" "j < n" for j
        using that False Some assms by (auto simp: runs_before_def first_choice_def)
      ultimately show ?thesis
        using run Some assms by (auto simp: first_choice_def less_Suc_eq) (simp add: runs_before_def)
    qed
  qed
qed

lemma first_choice_fold: "first_choice pt n (fold (find_step 3 pt) [0..<n] None)"
proof (induction n)
  case 0
  then show ?case by (simp add: first_choice_def)
next
  case (Suc n)
  then show ?case using first_choice_step by simp
qed

lemma first_choice_unique:
  assumes "first_choice pt n a" and "first_choice pt n b"
  shows "a = b"
  using assms by (cases a; cases b) (fastforce simp: first_choice_def runs_before_def)+

text \<open>
  The multi-level modes: the priority of the choice is the best one of the queue (lowest in
  mode 1, highest in mode 2), although the tie-break may replace the process.
\<close>

definition in_level :: "nat \<Rightarrow> proc \<Rightarrow> bool" where
  "in_level mode p \<longleftrightarrow> pstate p = RUNNABLE
     \<and> queueNumber p = (if mode = 1 then QUEUE_PRIORITY else QUEUE_PRIORITY_REVERSE)"

definition no_worse :: "nat \<Rightarrow> proc \<Rightarrow> proc \<Rightarrow> bool" where
  "no_worse mode p q \<longleftrightarrow>
     (if mode = 1 then sint (priority p) \<le> sint (priority q) else sint (priority p) \<ge> sint (priority q))"

definition level_choice :: "nat \<Rightarrow> proc list \<Rightarrow> nat \<Rightarrow> nat option \<Rightarrow> bool" where
  "level_choice mode pt n sel \<longleftrightarrow>
     (case sel of
        None \<Rightarrow> \<forall>j < n. \<not> in_level mode (pt ! j)
      | Some i \<Rightarrow> i < n \<and> pstate (pt ! i) = RUNNABLE
          \<and> (\<exists>k < n. in_level mode (pt ! k) \<and> priority (pt ! k) = priority (pt ! i))
          \<and> (\<forall>j < n. in_level mode (pt ! j) \<longrightarrow> no_worse mode (pt ! i) (pt ! j)))"

lemma level_choice_step:
  assumes "mode = 1 \<or> mode = 2" and "level_choice mode pt n sel"
  shows "level_choice mode pt (Suc n) (find_step mode pt n sel)"
proof (cases "in_level mode (pt ! n)")
  case False
  have "find_step mode pt n sel = sel
      \<or> (\<exists>i. sel = Some i \<and> find_step mode pt n sel = Some n \<and> pstate (pt ! n) = RUNNABLE
           \<and> priority (pt ! i) = priority (pt ! n))"
    using False assms(1) by (cases sel) (auto simp: find_step_def in_level_def Let_def)
  then show ?thesis
  proof
    assume "find_step mode pt n sel = sel"
    with assms(2) False show ?thesis
      by (cases sel) (auto simp: level_choice_def less_Suc_eq)
  next
    assume "\<exists>i. sel = Some i \<and> find_step mode pt n sel = Some n \<and> pstate (pt ! n) = RUNNABLE
      \<and> priority (pt ! i) = priority (pt ! n)"
    with assms(2) False show ?thesis
      by (auto simp: level_choice_def less_Suc_eq no_worse_def)
  qed
next
  case here: True
  show ?thesis
  proof (cases sel)
    case None
    with here assms have "find_step mode pt n sel = Some n"
      by (auto simp: find_step_def prefer_proc_def Let_def in_level_def)
    with None here assms show ?thesis
      by (auto simp: level_choice_def less_Suc_eq no_worse_def in_level_def)
  next
    case (Some i)
    then have i: "i < n" "pstate (pt ! i) = RUNNABLE"
      and ex: "\<exists>k < n. in_level mode (pt ! k) \<and> priority (pt ! k) = priority (pt ! i)"
      and all: "\<And>j. j < n \<Longrightarrow> in_level mode (pt ! j) \<Longrightarrow> no_worse mode (pt ! i) (pt ! j)"
      using assms(2) by (auto simp: level_choice_def)
    have n: "pstate (pt ! n) = RUNNABLE" using here by (simp add: in_level_def)
    have cases: "find_step mode pt n sel = Some i \<and> no_worse mode (pt ! i) (pt ! n)
        \<or> find_step mode pt n sel = Some n \<and> no_worse mode (pt ! n) (pt ! i)"
      using here assms(1) Some n
      by (auto simp: find_step_def prefer_proc_def Let_def in_level_def no_worse_def split: if_splits)
    from cases show ?thesis
    proof
      assume "find_step mode pt n sel = Some i \<and> no_worse mode (pt ! i) (pt ! n)"
      then show ?thesis using i ex all by (auto simp: level_choice_def less_Suc_eq)
    next
      assume "find_step mode pt n sel = Some n \<and> no_worse mode (pt ! n) (pt ! i)"
      moreover have "no_worse mode (pt ! n) (pt ! j)"
        if "no_worse mode (pt ! n) (pt ! i)" "no_worse mode (pt ! i) (pt ! j)" for j
        using that by (auto simp: no_worse_def split: if_splits)
      ultimately show ?thesis using here n all by (auto simp: level_choice_def less_Suc_eq no_worse_def)
    qed
  qed
qed

lemma level_choice_fold:
  "mode = 1 \<or> mode = 2 \<Longrightarrow> level_choice mode pt n (fold (find_step mode pt) [0..<n] None)"
proof (induction n)
  case 0
  then show ?case by (simp add: level_choice_def)
next
  case (Suc n)
  then show ?case using level_choice_step by simp
qed

text \<open>
  C10. The priority policy picks the best process: \<open>findPriority(3)\<close> is null exactly when no
  process is runnable, and otherwise it is the runnable process with the least priority value,
  among those the one scheduled the fewest times, among those the first in the table.
\<close>

theorem findPriority_least:
  "findPriority 3 pt = sel \<longleftrightarrow>
     (case sel of
        None \<Rightarrow> \<forall>j < length pt. pstate (pt ! j) \<noteq> RUNNABLE
      | Some i \<Rightarrow> i < length pt \<and> pstate (pt ! i) = RUNNABLE
          \<and> (\<forall>j < length pt. pstate (pt ! j) = RUNNABLE \<longrightarrow>
               sint (priority (pt ! i)) < sint (priority (pt ! j))
               \<or> sint (priority (pt ! i)) = sint (priority (pt ! j))
                 \<and> (sint (scheduled_times (pt ! i)) < sint (scheduled_times (pt ! j))
                    \<or> sint (scheduled_times (pt ! i)) = sint (scheduled_times (pt ! j)) \<and> i \<le> j)))"
  (is "_ \<longleftrightarrow> ?spec")
proof -
  have "first_choice pt (length pt) (findPriority 3 pt)"
    unfolding findPriority_def by (rule first_choice_fold)
  moreover have "?spec \<longleftrightarrow> first_choice pt (length pt) sel"
    by (simp only: first_choice_def runs_before_def)
  ultimately show ?thesis using first_choice_unique by blast
qed

theorem findPriority_least_witness:
  "findPriority 3 [proc0\<lparr>pstate := RUNNABLE, priority := 4\<rparr>, proc0\<lparr>pstate := RUNNABLE, priority := 2\<rparr>,
     proc0\<lparr>priority := 1\<rparr>] = Some 1"
  unfolding findPriority_least by (simp add: proc0_def All_less_Suc2 numeral_3_eq_3)

text \<open>
  C11. The priority levels of the multi-level queue: in modes 1 and 2 \<open>findPriority\<close> is null
  exactly when no runnable process is in the level's queue, and otherwise it is a runnable
  process whose priority is the best one (lowest in mode 1, highest in mode 2) of the runnable processes of that queue.
\<close>

theorem findPriority_level:
  assumes "mode = 1 \<or> mode = 2"
  shows "case findPriority mode pt of
      None \<Rightarrow> \<forall>j < length pt. \<not> in_level mode (pt ! j)
    | Some i \<Rightarrow> i < length pt \<and> pstate (pt ! i) = RUNNABLE
        \<and> (\<exists>k < length pt. in_level mode (pt ! k) \<and> priority (pt ! k) = priority (pt ! i))
        \<and> (\<forall>j < length pt. in_level mode (pt ! j) \<longrightarrow> no_worse mode (pt ! i) (pt ! j))"
  using level_choice_fold [OF assms, of pt "length pt"]
  by (simp only: findPriority_def level_choice_def)

theorem findPriority_level_witness:
  "case findPriority 2 [proc0\<lparr>pstate := RUNNABLE, queueNumber := 2, priority := 1\<rparr>,
       proc0\<lparr>pstate := RUNNABLE, queueNumber := 2, priority := 4\<rparr>] of
     None \<Rightarrow> False
   | Some i \<Rightarrow> no_worse 2 ([proc0\<lparr>pstate := RUNNABLE, queueNumber := 2, priority := 1\<rparr>,
       proc0\<lparr>pstate := RUNNABLE, queueNumber := 2, priority := 4\<rparr>] ! i) (proc0\<lparr>priority := 4\<rparr>)"
  using findPriority_level [of 2 "[proc0\<lparr>pstate := RUNNABLE, queueNumber := 2, priority := 1\<rparr>,
       proc0\<lparr>pstate := RUNNABLE, queueNumber := 2, priority := 4\<rparr>]"]
  by (auto simp: in_level_def QUEUE_PRIORITY_REVERSE_def no_worse_def split: option.splits)

text \<open>
  The tie-break looks at every runnable process: in mode 1 the choice can be a process that is not
  in the queue of the level (here one of the default queue, scheduled less often).
\<close>

lemma findPriority_leaves_queue:
  "\<exists>pt i. findPriority 1 pt = Some i \<and> \<not> in_level 1 (pt ! i)"
proof (intro exI)
  show "findPriority 1 [proc0\<lparr>pstate := RUNNABLE, queueNumber := 1, priority := 3, scheduled_times := 1\<rparr>,
      proc0\<lparr>pstate := RUNNABLE, queueNumber := 0, priority := 3\<rparr>] = Some 1
    \<and> \<not> in_level 1 ([proc0\<lparr>pstate := RUNNABLE, queueNumber := 1, priority := 3, scheduled_times := 1\<rparr>,
      proc0\<lparr>pstate := RUNNABLE, queueNumber := 0, priority := 3\<rparr>] ! 1)"
    by (simp add: findPriority_def find_step_def prefer_proc_def in_level_def QUEUE_PRIORITY_def
        proc0_def upt_rec Let_def)
qed

text \<open>The test before the queue update of \<open>setPriority\<close> is a disjunction that always holds.\<close>

lemma setPriority_always_enqueues:
  assumes "find_slot (\<lambda>p. pid p = n) (ptable s) = Some i" and "length (schedulingQueues s) = 4"
  shows "qsize (schedulingQueues (snd (setPriority n prio s)) ! 1) = qsize (schedulingQueues s ! 1) + 1"
  using assms by (auto simp: setPriority_def Let_def QUEUE_DEFAULT_def QUEUE_PRIORITY_RR_def)

section \<open>The scheduler never panics\<close>

text \<open>
  What the scheduler relies on while it holds \<open>ptable.lock\<close>: a runnable process has a
  kernel stack and a page directory, the rings of the two round-robin levels are readable, and
  the levels that processes are in and that this CPU used last are among the four.
\<close>

definition sched_data :: "nat \<Rightarrow> 'a kst_scheme \<Rightarrow> bool" where
  "sched_data me s \<longleftrightarrow> length (ptable s) = NPROC \<and> me < length (lastQueue s)
     \<and> 0 \<le> sint (lastQueue s ! me) \<and> sint (lastQueue s ! me) < 4
     \<and> length (schedulingQueues s) = 4 \<and> q_safe (schedulingQueues s ! 0) \<and> q_safe (schedulingQueues s ! 3)
     \<and> (\<forall>p \<in> set (ptable s). (pstate p = RUNNABLE \<longrightarrow> kstack p \<noteq> 0 \<and> pgdir p \<noteq> 0)
          \<and> 0 \<le> sint (queueNumber p) \<and> sint (queueNumber p) < 4)"

definition sched_inv :: "nat \<Rightarrow> 'a kst_scheme \<Rightarrow> bool" where
  "sched_inv me s \<longleftrightarrow> holds_only_ptable me s \<and> sched_data me s"

definition sched_idle :: "nat \<Rightarrow> 'a kst_scheme \<Rightarrow> bool" where
  "sched_idle me s \<longleftrightarrow> me < length (cpus s) \<and> ncli (cpus s ! me) = 0 \<and> locked (plock s) = 0 \<and> sched_data me s"

lemma sched_data_cong:
  assumes "ptable s' = ptable s" and "lastQueue s' = lastQueue s" and "schedulingQueues s' = schedulingQueues s"
  shows "sched_data me s' = sched_data me s"
  using assms by (simp add: sched_data_def)

lemma sched_inv_cpu:
  assumes "sched_inv me s" and "ncli (f (cpus s ! me)) = ncli (cpus s ! me)" and "fl_if (f (cpus s ! me)) = fl_if (cpus s ! me)"
  shows "sched_inv me (upd_cpu me f s)"
  using assms by (simp add: sched_inv_def holds_only_ptable_def sched_data_def)

lemma sched_inv_proc:
  assumes "sched_inv me s" and "i < NPROC" and "queueNumber (f (ptable s ! i)) = queueNumber (ptable s ! i)"
    and "pstate (f (ptable s ! i)) = RUNNABLE \<longrightarrow> kstack (f (ptable s ! i)) \<noteq> 0 \<and> pgdir (f (ptable s ! i)) \<noteq> 0"
  shows "sched_inv me (upd_proc i f s)"
proof -
  have "set ((ptable s)[i := f (ptable s ! i)]) \<subseteq> insert (f (ptable s ! i)) (set (ptable s))"
    by (rule set_update_subset_insert)
  moreover have "ptable s ! i \<in> set (ptable s)"
    using assms(1,2) by (simp add: sched_inv_def sched_data_def)
  ultimately show ?thesis
    using assms by (auto simp: sched_inv_def holds_only_ptable_def sched_data_def)
qed

lemma switchuvm_ok:
  assumes "ncli (cpus s ! me) = 1" and "\<not> fl_if (cpus s ! me)"
    and "kstack (ptable s ! i) \<noteq> 0" and "pgdir (ptable s ! i) \<noteq> 0"
  shows "switchuvm me (Some i) s = Ret (upd_cpu me (\<lambda>c. c\<lparr>ts_ss0 := push_bit 3 SEG_KDATA,
    ts_esp0 := kstack (ptable s ! i) + KSTACKSIZE, ts_iomb := 0xFFFF, cr3 := V2P (pgdir (ptable s ! i))\<rparr>) s)"
proof -
  have "popcli ((pushcli c)\<lparr>ts_ss0 := a, ts_esp0 := b, ts_iomb := d, cr3 := e\<rparr>)
      = Ret (c\<lparr>ts_ss0 := a, ts_esp0 := b, ts_iomb := d, cr3 := e\<rparr>)" if "ncli c = 1" "\<not> fl_if c" for c a b d e
    using that by (simp add: popcli_def pushcli_def Let_def)
  with assms show ?thesis by (simp add: switchuvm_def Let_def upd_cpu_def)
qed

text \<open>The state in which the process \<open>i\<close> gets the CPU \<open>me\<close>.\<close>

definition dispatched :: "bool \<Rightarrow> nat \<Rightarrow> nat \<Rightarrow> 'a kst_scheme \<Rightarrow> 'a kst_scheme \<Rightarrow> bool" where
  "dispatched count me i s t \<longleftrightarrow>
     cproc (cpus t ! me) = Some i \<and> cr3 (cpus t ! me) = V2P (pgdir (ptable s ! i))
     \<and> ts_esp0 (cpus t ! me) = kstack (ptable s ! i) + KSTACKSIZE
     \<and> ptable t = (ptable s)[i := (ptable s ! i)\<lparr>
         ready_time := ready_time (ptable s ! i) + (ticks s - last_time (ptable s ! i)),
         pstate := RUNNING, last_time := ticks s,
         scheduled_times := scheduled_times (ptable s ! i) + (if count then 1 else 0)\<rparr>]"

lemma dispatch_ok:
  assumes "sched_inv me s" and "i < NPROC" and "pstate (ptable s ! i) = RUNNABLE"
  shows "\<exists>t. dispatch count me i s = Ret t \<and> sched_inv me t \<and> dispatched count me i s t"
proof -
  have i: "i < length (ptable s)" "me < length (cpus s)"
    using assms(1,2) by (simp_all add: sched_inv_def sched_data_def holds_only_ptable_def)
  then have ok: "kstack (ptable s ! i) \<noteq> 0" "pgdir (ptable s ! i) \<noteq> 0"
    using assms(1,3) by (auto simp: sched_inv_def sched_data_def)
  let ?s1 = "upd_cpu me (\<lambda>c. c\<lparr>cproc := Some i\<rparr>) s"
  define s2 where "s2 = upd_cpu me (\<lambda>c. c\<lparr>ts_ss0 := push_bit 3 SEG_KDATA,
    ts_esp0 := kstack (ptable s ! i) + KSTACKSIZE, ts_iomb := 0xFFFF, cr3 := V2P (pgdir (ptable s ! i))\<rparr>) ?s1"
  have sw: "switchuvm me (Some i) ?s1 = Ret s2"
    using switchuvm_ok [of ?s1 me i] assms(1) ok i
    by (simp add: s2_def sched_inv_def holds_only_ptable_def)
  have s2: "sched_inv me s2"
    unfolding s2_def by (intro sched_inv_cpu assms(1)) simp_all
  define g where "g p = p\<lparr>ready_time := ready_time p + (ticks s - last_time p),
    pstate := RUNNING, last_time := ticks s, scheduled_times := scheduled_times p + (if count then 1 else 0)\<rparr>" for p :: proc
  have "ticks s2 = ticks s" "ptable s2 = ptable s" by (simp_all add: s2_def)
  then have d: "dispatch count me i s = Ret (upd_proc i g s2)"
    using sw i by (simp add: dispatch_def Let_def g_def [abs_def] upd_proc_def)
  have "sched_inv me (upd_proc i g s2)"
    by (rule sched_inv_proc [OF s2 assms(2)]) (simp_all add: g_def s2_def)
  moreover have "dispatched count me i s (upd_proc i g s2)"
    using i by (simp add: dispatched_def s2_def g_def)
  ultimately show ?thesis using d by blast
qed

text \<open>
  The contract of whatever runs between the context switch to a process and the one back (the
  process itself, in user mode and in the kernel): entered as the running process, it comes back
  with only \<open>ptable.lock\<close> held and the scheduler's data in order.
\<close>

definition running :: "nat \<Rightarrow> nat \<Rightarrow> 'a kst_scheme \<Rightarrow> bool" where
  "running me i t \<longleftrightarrow> sched_inv me t \<and> cproc (cpus t ! me) = Some i \<and> i < NPROC
     \<and> pstate (ptable t ! i) = RUNNING \<and> kstack (ptable t ! i) \<noteq> 0 \<and> pgdir (ptable t ! i) \<noteq> 0"

lemma findPriority_bound:
  assumes "findPriority mode pt = Some i" and "mode = 1 \<or> mode = 2 \<or> mode = 3"
  shows "i < length pt" and "pstate (pt ! i) = RUNNABLE"
  using assms first_choice_fold [of pt "length pt"] level_choice_fold [of mode pt "length pt"]
  by (auto simp: findPriority_def first_choice_def level_choice_def)

lemma dispatch_running:
  assumes "sched_inv me s" and "i < NPROC" and "pstate (ptable s ! i) = RUNNABLE"
  shows "\<exists>t. dispatch count me i s = Ret t \<and> running me i t"
proof -
  have i: "i < length (ptable s)" using assms(1,2) by (simp add: sched_inv_def sched_data_def)
  then have "kstack (ptable s ! i) \<noteq> 0" "pgdir (ptable s ! i) \<noteq> 0"
    using assms(1,3) by (auto simp: sched_inv_def sched_data_def)
  then show ?thesis
    using dispatch_ok [OF assms, of count] assms(2) i by (auto simp: running_def dispatched_def)
qed

lemma sched_inv_queue:
  assumes "sched_inv me s" and "q_safe q" and "k < 4"
  shows "sched_inv me (upd_queue k (\<lambda>_. q) s)"
  using assms by (auto simp: sched_inv_def holds_only_ptable_def sched_data_def nth_list_update)

lemma level_index:
  assumes "sched_inv me s"
  shows "\<exists>k < 4. (sint (lastQueue s ! me) + int i) smod 4 = int k"
proof -
  let ?n = "sint (lastQueue s ! me) + int i"
  have "0 \<le> ?n" using assms by (simp add: sched_inv_def sched_data_def)
  then have "?n smod 4 = ?n mod 4" by (cases "?n = 0") (simp_all add: signed_modulo_int_def)
  moreover have "0 \<le> ?n mod 4" "?n mod 4 < 4" by simp_all
  ultimately have "nat (?n mod 4) < 4 \<and> ?n smod 4 = int (nat (?n mod 4))" by simp
  then show ?thesis by blast
qed

locale process_run =
  fixes run :: "'a kst_scheme \<Rightarrow> 'a kst_scheme outcome" and me :: nat
  assumes run_keeps: "running me i t \<Longrightarrow> \<exists>t'. run t = Ret t' \<and> sched_inv me t'"
begin

lemma run_proc_ok:
  assumes "sched_inv me s" and "i < NPROC" and "pstate (ptable s ! i) = RUNNABLE"
  shows "\<exists>t. run_proc run count me i s = Ret t \<and> sched_inv me t"
proof -
  obtain t t' where "dispatch count me i s = Ret t" "run t = Ret t'" "sched_inv me t'"
    using dispatch_running [OF assms, of count] run_keeps by blast
  then show ?thesis
    by (simp add: run_proc_def switchkvm_def sched_inv_cpu)
qed

lemma priority_round_ok: "sched_inv me s \<Longrightarrow> \<exists>t. priority_round run me s = Ret t \<and> sched_inv me t"
  using findPriority_bound [of 3 "ptable s"] run_proc_ok
  by (auto simp: priority_round_def sched_inv_def sched_data_def split: option.split)

lemma default_round_ok: "sched_inv me s \<Longrightarrow> \<exists>t. default_round run me s = Ret t \<and> sched_inv me t"
  unfolding default_round_def by (rule ofold_total) (auto intro: run_proc_ok)

lemma run_pending_ok:
  assumes "sched_inv me s" and "\<forall>j. p = Some j \<longrightarrow> j < NPROC"
  shows "\<exists>t. (case p of
      Some j \<Rightarrow> if pstate (ptable s ! j) = RUNNABLE
                then obind (run_proc run True me j s) (\<lambda>s. Ret (p, s)) else Ret (p, s)
    | None \<Rightarrow> Ret (p, s)) = Ret (p, t) \<and> sched_inv me t"
proof (cases "\<exists>j. p = Some j \<and> pstate (ptable s ! j) = RUNNABLE")
  case True
  then obtain j where j: "p = Some j" "pstate (ptable s ! j) = RUNNABLE" by blast
  then obtain t where "run_proc run True me j s = Ret t" "sched_inv me t"
    using assms run_proc_ok [OF assms(1), of j True] by auto
  with j show ?thesis by simp
next
  case False
  then show ?thesis using assms(1) by (auto split: option.split)
qed

lemma mlq_queue_ok:
  assumes inv: "sched_inv me s" and p: "\<forall>j. p = Some j \<longrightarrow> j < NPROC"
  shows "\<exists>p' t. mlq_queue run me i (p, s) = Ret (p', t) \<and> sched_inv me t \<and> (\<forall>j. p' = Some j \<longrightarrow> j < NPROC)"
proof -
  obtain k where k: "k < 4" "(sint (lastQueue s ! me) + int i) smod 4 = int k"
    using level_index [OF inv] by blast
  show ?thesis
  proof (cases "qsize (schedulingQueues s ! k) = 0")
    case True
    then show ?thesis using k inv p by (simp add: mlq_queue_def Let_def)
  next
    case False
    define stage where "stage = (if k = 0 \<or> k = 3 then
        obind (q_pick (stale_entry s) p (schedulingQueues s ! k)) (\<lambda>(p, q). Ret (p, upd_queue k (\<lambda>_. q) s))
      else case findPriority (if k = 1 then 1 else 2) (ptable s) of
        None \<Rightarrow> Ret (p, s)
      | Some j \<Rightarrow> obind (run_proc run True me j s) (\<lambda>s. Ret (p, s)))"
    have "\<exists>p1 s1. stage = Ret (p1, s1) \<and> sched_inv me s1 \<and> (\<forall>j. p1 = Some j \<longrightarrow> j < NPROC)"
    proof (cases "k = 0 \<or> k = 3")
      case True
      then have "q_safe (schedulingQueues s ! k)" using inv by (auto simp: sched_inv_def sched_data_def)
      from q_safe_pick [OF this, of "stale_entry s" p] show ?thesis
        using True p k(1) sched_inv_queue [OF inv] by (auto simp: stage_def)
    next
      case False
      let ?sel = "findPriority (if k = 1 then 1 else 2) (ptable s)"
      show ?thesis
      proof (cases ?sel)
        case None
        then show ?thesis using False inv p by (simp add: stage_def)
      next
        case (Some j)
        have "j < NPROC" "pstate (ptable s ! j) = RUNNABLE"
          using findPriority_bound [OF Some] inv by (simp_all add: sched_inv_def sched_data_def)
        from run_proc_ok [OF inv this, of True] show ?thesis
          using Some False p by (auto simp: stage_def)
      qed
    qed
    then obtain p1 s1 where s1: "stage = Ret (p1, s1)" "sched_inv me s1" "\<forall>j. p1 = Some j \<longrightarrow> j < NPROC" by blast
    then show ?thesis
      using k False run_pending_ok [OF s1(2,3)] by (auto simp: mlq_queue_def Let_def stage_def [symmetric])
  qed
qed

lemma mlq_round_ok:
  assumes "sched_inv me s"
  shows "\<exists>t. mlq_round run me s = Ret t \<and> sched_inv me t"
proof -
  have "\<exists>t. ofold (mlq_queue run me) [1, 2, 3, 4] (None, s) = Ret t
      \<and> sched_inv me (snd t) \<and> (\<forall>j. fst t = Some j \<longrightarrow> j < NPROC)"
  proof (rule ofold_total)
    fix i :: nat and x :: "nat option \<times> 'a kst_scheme"
    assume "sched_inv me (snd x) \<and> (\<forall>j. fst x = Some j \<longrightarrow> j < NPROC)"
    then show "\<exists>t. mlq_queue run me i x = Ret t \<and> sched_inv me (snd t) \<and> (\<forall>j. fst t = Some j \<longrightarrow> j < NPROC)"
      using mlq_queue_ok [of "snd x" "fst x" i] by auto
  qed (use assms in simp)
  then show ?thesis by (auto simp: mlq_round_def split: prod.splits)
qed

lemma scheduler_pass_ok:
  assumes "sched_idle me s"
  shows "\<exists>t. scheduler_pass run me s = Ret t \<and> sched_idle me t"
proof -
  define s1 where "s1 = upd_cpu me (\<lambda>c. c\<lparr>fl_if := True\<rparr>) s"
  define s2 where "s2 = upd_cpu me pushcli (s1\<lparr>plock := (plock s1)\<lparr>locked := 1, lcpu := Some me\<rparr>\<rparr>)"
  have "acquire_ptable me s1 = Ret s2"
    using assms acquire_ptable_free [of me s1] by (simp add: s1_def s2_def sched_idle_def)
  moreover have "sched_inv me s2"
    using assms by (simp add: s1_def s2_def sched_inv_def sched_idle_def holds_only_ptable_def sched_data_def)
  then have "\<exists>t. (if policy s2 = POLICY_PRIORITY then priority_round run me s2
      else if policy s2 = POLICY_MLQ then mlq_round run me s2 else default_round run me s2) = Ret t \<and> sched_inv me t"
    using priority_round_ok mlq_round_ok default_round_ok by simp
  then obtain t where t: "(if policy s2 = POLICY_PRIORITY then priority_round run me s2
      else if policy s2 = POLICY_MLQ then mlq_round run me s2 else default_round run me s2) = Ret t" "sched_inv me t"
    by blast
  moreover have "release_ptable me t = Ret (upd_cpu me (\<lambda>c. c\<lparr>ncli := 0, fl_if := intena c\<rparr>)
      (t\<lparr>plock := (plock t)\<lparr>lcpu := None, locked := 0\<rparr>\<rparr>))" (is "_ = Ret ?u")
    using t(2) by (simp add: release_ptable_held sched_inv_def)
  moreover have "sched_idle me ?u"
    using t(2) by (simp add: sched_inv_def sched_idle_def holds_only_ptable_def sched_data_def)
  ultimately show ?thesis
    by (simp add: scheduler_pass_def s1_def [symmetric] Let_def)
qed

lemma scheduler_ok: "sched_idle me s \<Longrightarrow> \<exists>t. scheduler run me n s = Ret t \<and> sched_idle me t"
proof (induction n)
  case 0
  then show ?case by (simp add: sched_idle_def sched_data_def)
next
  case (Suc n)
  then show ?case using scheduler_pass_ok by fastforce
qed

end

text \<open>
  A process that does nothing but yield meets the contract: its part between two context
  switches is the second half of one \<open>yield\<close> and the first half of the next.
\<close>

definition yielder :: "nat \<Rightarrow> 'a kst_scheme \<Rightarrow> 'a kst_scheme outcome" where
  "yielder me t = obind (yield_exit me True t) (\<lambda>t. obind (yield_enter me t) (\<lambda>(_, t). Ret t))"

lemma yielder_keeps:
  assumes "running me i t"
  shows "\<exists>t'. yielder me t = Ret t' \<and> sched_inv me t'"
proof -
  have h: "holds_only_ptable me t" "cproc (cpus t ! me) = Some i" and i: "i < length (ptable t)"
    using assms by (auto simp: running_def sched_inv_def sched_data_def)
  define u where "u = upd_cpu me (\<lambda>c. c\<lparr>intena := True, ncli := 0, fl_if := True\<rparr>)
    (upd_proc i (\<lambda>q. q\<lparr>last_time := ticks t\<rparr>) (t\<lparr>plock := (plock t)\<lparr>lcpu := None, locked := 0\<rparr>\<rparr>))"
  define v where "v = upd_proc i (\<lambda>q. q\<lparr>running_time := running_time q + (ticks u - last_time q), pstate := RUNNABLE\<rparr>)
      (upd_cpu me pushcli (u\<lparr>plock := (plock u)\<lparr>locked := 1, lcpu := Some me\<rparr>,
         lastQueue := (lastQueue u)[me := queueNumber (ptable u ! i)]\<rparr>))"
  have "yielder me t = Ret v"
    using yield_exit_eq [OF h, of True] yield_enter_eq [of me u i] h i
    by (simp add: yielder_def u_def [symmetric] v_def) (simp add: u_def holds_only_ptable_def)
  moreover have "holds_only_ptable me v" using h by (simp add: u_def v_def holds_only_ptable_def)
  moreover have "sched_data me v"
  proof -
    have "set (ptable v) \<subseteq> insert (ptable v ! i) (set (ptable t))"
      using set_update_subset_insert [of "ptable t" i "ptable v ! i"] i by (simp add: u_def v_def)
    moreover have "ptable t ! i \<in> set (ptable t)" using i by simp
    ultimately show ?thesis
      using assms i by (auto simp: u_def v_def sched_data_def sched_inv_def running_def)
  qed
  ultimately show ?thesis by (simp add: sched_inv_def)
qed

interpretation yl: process_run "yielder me" me for me
  by unfold_locales (rule yielder_keeps)


definition busy :: kst where
  "busy = kst0\<lparr>ptable := (ptable kst0)[3 := proc0\<lparr>pstate := RUNNABLE, pid := 1, kstack := 0x80400000, pgdir := 0x80401000\<rparr>],
     schedulingQueues := (schedulingQueues kst0)[0 := q_put 3 q_init]\<rparr>"

lemma busy_idle: "sched_idle 0 busy"
proof -
  have "q_safe q_init" by (simp add: q_safe_def q_init_def NPROC_def)
  moreover have "q_safe (q_put 3 q_init)"
    by (simp add: q_safe_def q_put_def q_init_def NPROC_def Let_def)
  moreover have "(pstate p = RUNNABLE \<longrightarrow> kstack p \<noteq> 0 \<and> pgdir p \<noteq> 0)
      \<and> 0 \<le> sint (queueNumber p) \<and> sint (queueNumber p) < 4" if "p \<in> set (ptable busy)" for p
  proof -
    have "p = proc0 \<or> p = ptable busy ! 3"
      using that set_update_subset_insert [of "ptable kst0" 3 "ptable busy ! 3"]
      by (auto simp: busy_def kst0_def NPROC_def)
    then show ?thesis by (auto simp: busy_def kst0_def NPROC_def proc0_def)
  qed
  ultimately show ?thesis
    unfolding sched_idle_def sched_data_def
    by (simp add: busy_def kst0_def cpu0_def initlock_def NPROC_def NCPU_def)
qed


text \<open>
  The time slice a process has run before \<open>yield\<close> is added to its running time, but \<open>last_time\<close>
  is not advanced, so that the next dispatch adds the same slice to its ready time.
\<close>

lemma yield_counts_slice_twice:
  assumes "me < length (cpus s)" and "cproc (cpus s ! me) = Some p" and "p < length (ptable s)"
    and "ncli (cpus s ! me) = 0" and "locked (plock s) = 0" and "accounted (ptable s ! p)"
    and "yield_enter me s = Ret (ie, s1)" and "sched_inv you t" and "ptable t = ptable s1"
    and "dispatch count you p t = Ret t'"
  shows "running_time (ptable t' ! p) + ready_time (ptable t' ! p) + sleep_time (ptable t' ! p)
    = (last_time (ptable t' ! p) - creation_time (ptable t' ! p)) + (ticks s - last_time (ptable s ! p))"
proof -
  have p1: "ptable s1 ! p = (ptable s ! p)\<lparr>running_time := running_time (ptable s ! p) + (ticks s - last_time (ptable s ! p)),
      pstate := RUNNABLE\<rparr>" "length (ptable s1) = length (ptable s)"
    using assms(1-5,7) by (auto simp: yield_enter_eq)
  have "dispatched count you p t t'"
    using dispatch_ok [OF assms(8), of p count] assms(3,8,9,10) p1
    by (auto simp: sched_inv_def sched_data_def)
  then have "ptable t' ! p = (ptable t ! p)\<lparr>ready_time := ready_time (ptable t ! p) + (ticks t - last_time (ptable t ! p)),
      pstate := RUNNING, last_time := ticks t,
      scheduled_times := scheduled_times (ptable t ! p) + (if count then 1 else 0)\<rparr>"
    using assms(3,9) p1(2) by (simp add: dispatched_def)
  then show ?thesis using p1(1) assms(6,9) by (simp add: accounted_def algebra_simps)
qed

end
