(* ===== verification/Sleeplock.thy ===== *)
theory Sleeplock
  imports Sched
begin

text \<open>
  \<open>sleeplock.c\<close>. The inner spin lock makes each routine one step. \<open>acquiresleep\<close> of a lock that
  is held has to wait on the lock's channel; the process then runs the routine again from its
  test. The owner is recorded by the pid of the current process \<open>cur\<close>.
\<close>

record sleeplock =
  sl_locked :: bool
  sl_name :: string
  sl_pid :: s32

definition initsleeplock :: "string \<Rightarrow> sleeplock" where
  "initsleeplock nm = \<lparr>sl_locked = False, sl_name = nm, sl_pid = 0\<rparr>"

definition acquiresleep :: "nat \<Rightarrow> chan \<Rightarrow> sleeplock \<Rightarrow> 'a kst_scheme \<Rightarrow> sleeplock outcome" where
  "acquiresleep cur ch lk s =
     (if sl_locked lk then Block ch
      else Ret (lk\<lparr>sl_locked := True, sl_pid := pid (ptable s ! cur)\<rparr>))"

definition releasesleep :: "chan \<Rightarrow> sleeplock \<Rightarrow> 'a kst_scheme \<Rightarrow> sleeplock \<times> 'a kst_scheme" where
  "releasesleep ch lk s = (lk\<lparr>sl_locked := False, sl_pid := 0\<rparr>, wakeup ch s)"

definition holdingsleep :: "nat \<Rightarrow> sleeplock \<Rightarrow> 'a kst_scheme \<Rightarrow> bool" where
  "holdingsleep cur lk s \<longleftrightarrow> sl_locked lk \<and> sl_pid lk = pid (ptable s ! cur)"

lemma wakeup_pid [simp]: "i < length (ptable s) \<Longrightarrow> pid (ptable (wakeup ch s) ! i) = pid (ptable s ! i)"
  by (simp add: wakeup_def wakeup1_nth Let_def)

lemma wakeup_frame [simp]:
  "length (ptable (wakeup ch s)) = length (ptable s)" "mem (wakeup ch s) = mem s"
  "freelist (wakeup ch s) = freelist s" "ticks (wakeup ch s) = ticks s" "kst.more (wakeup ch s) = kst.more s"
  "cpus (wakeup ch s) = cpus s"
  by (simp_all add: wakeup_def wakeup1_def)

end
