(* ===== verification/Bio.thy ===== *)
theory Bio
  imports Sleeplock
begin

text \<open>
  \<open>bio.c\<close>, the buffer cache, over the disk driver's \<open>iderw\<close>. The buffers and the list head
  are the entries of one array: index \<open>NBUF\<close> is \<open>bcache.head\<close>, and \<open>b_prev\<close>/\<open>b_next\<close> are
  the links of the circular list, most recently used first. \<open>flags\<close> is the pair of its two
  bits. The disk holds blocks of \<open>BSIZE\<close> bytes; \<open>iderw\<close> is taken from its call to the end of the
  request, which the interrupt handler completes. \<open>disk_log\<close> records every block written to
  the disk, in order: it is not read by the code, and serves to state what a crash can leave behind.

  The lemmas show that the links always form a list of all the buffers, and that the cache is
  transparent: \<open>blk_view\<close> (the cached data of a block or else the disk's) is what \<open>bread\<close> returns,
  only changing a buffer's data changes it, and recycling a buffer does not.
\<close>

section \<open>State\<close>

definition BSIZE :: nat where "BSIZE = 512"

record buf =
  b_valid :: bool
  b_dirty :: bool
  b_dev :: u32
  b_blockno :: u32
  b_lock :: sleeplock
  b_refcnt :: u32
  b_prev :: nat
  b_next :: nat
  b_data :: "u8 list"

record bst = kst +
  bufs :: "buf list"
  disk :: "u32 \<Rightarrow> u32 \<Rightarrow> u8 list"
  havedisk1 :: bool
  disk_log :: "(u32 \<times> u32 \<times> u8 list) list"

abbreviation BHEAD :: nat where "BHEAD \<equiv> NBUF"

definition upd_buf :: "nat \<Rightarrow> (buf \<Rightarrow> buf) \<Rightarrow> 'a bst_scheme \<Rightarrow> 'a bst_scheme" where
  "upd_buf i f s = s\<lparr>bufs := (bufs s)[i := f (bufs s ! i)]\<rparr>"

section \<open>The disk driver\<close>

definition iderw :: "nat \<Rightarrow> nat \<Rightarrow> 'a bst_scheme \<Rightarrow> 'a bst_scheme outcome" where
  "iderw cur i s =
     (let b = bufs s ! i
      in if \<not> holdingsleep cur (b_lock b) s then Panic ''iderw: buf not locked''
         else if b_valid b \<and> \<not> b_dirty b then Panic ''iderw: nothing to do''
         else if b_dev b \<noteq> 0 \<and> \<not> havedisk1 s then Panic ''iderw: ide disk 1 not present''
         else if unat (b_blockno b) \<ge> FSSIZE then Panic ''incorrect blockno''
         else if b_dirty b then
           let dev = b_dev b mod 2; blk = b_blockno b;
               s = s\<lparr>disk := (disk s)(dev := (disk s dev)(blk := b_data b)),
                     disk_log := disk_log s @ [(dev, blk, b_data b)]\<rparr>
           in Ret (upd_buf i (\<lambda>x. x\<lparr>b_valid := True, b_dirty := False\<rparr>) s)
         else Ret (upd_buf i (\<lambda>x. x\<lparr>b_data := disk s (b_dev b mod 2) (b_blockno b),
                b_valid := True, b_dirty := False\<rparr>) s))"

section \<open>The cache\<close>

text \<open>A scan along the links, from the head back to the head.\<close>

fun bscan :: "nat \<Rightarrow> (buf \<Rightarrow> nat) \<Rightarrow> (buf \<Rightarrow> bool) \<Rightarrow> buf list \<Rightarrow> nat \<Rightarrow> nat option outcome" where
  "bscan 0 step P bs i = (if i = BHEAD then Ret None else Loop)"
| "bscan (Suc n) step P bs i =
     (if i = BHEAD then Ret None
      else if P (bs ! i) then Ret (Some i)
      else bscan n step P bs (step (bs ! i)))"

definition lock_buf :: "nat \<Rightarrow> nat \<Rightarrow> 'a bst_scheme \<Rightarrow> (nat \<times> 'a bst_scheme) outcome" where
  "lock_buf cur i s =
     obind (acquiresleep cur (ChanBufLock i) (b_lock (bufs s ! i)) s) (\<lambda>lk.
       Ret (i, upd_buf i (\<lambda>x. x\<lparr>b_lock := lk\<rparr>) s))"

definition bget :: "nat \<Rightarrow> u32 \<Rightarrow> u32 \<Rightarrow> 'a bst_scheme \<Rightarrow> (nat \<times> 'a bst_scheme) outcome" where
  "bget cur dev blockno s =
     obind (bscan NBUF b_next (\<lambda>b. b_dev b = dev \<and> b_blockno b = blockno) (bufs s) (b_next (bufs s ! BHEAD))) (\<lambda>r.
       case r of
         Some i \<Rightarrow> lock_buf cur i (upd_buf i (\<lambda>x. x\<lparr>b_refcnt := b_refcnt x + 1\<rparr>) s)
       | None \<Rightarrow>
           obind (bscan NBUF b_prev (\<lambda>b. b_refcnt b = 0 \<and> \<not> b_dirty b) (bufs s) (b_prev (bufs s ! BHEAD))) (\<lambda>r.
             case r of
               Some i \<Rightarrow> lock_buf cur i (upd_buf i (\<lambda>x. x\<lparr>b_dev := dev, b_blockno := blockno,
                            b_valid := False, b_dirty := False, b_refcnt := 1\<rparr>) s)
             | None \<Rightarrow> Panic ''bget: no buffers''))"

definition bread :: "nat \<Rightarrow> u32 \<Rightarrow> u32 \<Rightarrow> 'a bst_scheme \<Rightarrow> (nat \<times> 'a bst_scheme) outcome" where
  "bread cur dev blockno s =
     obind (bget cur dev blockno s) (\<lambda>(i, s).
       if \<not> b_valid (bufs s ! i) then obind (iderw cur i s) (\<lambda>s. Ret (i, s)) else Ret (i, s))"

definition bwrite :: "nat \<Rightarrow> nat \<Rightarrow> 'a bst_scheme \<Rightarrow> 'a bst_scheme outcome" where
  "bwrite cur i s =
     (if \<not> holdingsleep cur (b_lock (bufs s ! i)) s then Panic ''bwrite''
      else iderw cur i (upd_buf i (\<lambda>x. x\<lparr>b_dirty := True\<rparr>) s))"

text \<open>\<open>brelse\<close>'s six assignments: take the buffer out of the list, put it in front.\<close>

definition set_next :: "nat \<Rightarrow> nat \<Rightarrow> buf list \<Rightarrow> buf list" where
  "set_next k v bs = bs[k := (bs ! k)\<lparr>b_next := v\<rparr>]"

definition set_prev :: "nat \<Rightarrow> nat \<Rightarrow> buf list \<Rightarrow> buf list" where
  "set_prev k v bs = bs[k := (bs ! k)\<lparr>b_prev := v\<rparr>]"

definition unlink_buf :: "nat \<Rightarrow> buf list \<Rightarrow> buf list" where
  "unlink_buf i bs =
     (let bs = set_prev (b_next (bs ! i)) (b_prev (bs ! i)) bs
      in set_next (b_prev (bs ! i)) (b_next (bs ! i)) bs)"

definition push_buf :: "nat \<Rightarrow> buf list \<Rightarrow> buf list" where
  "push_buf i bs =
     (let bs = set_next i (b_next (bs ! BHEAD)) bs;
          bs = set_prev i BHEAD bs;
          bs = set_prev (b_next (bs ! BHEAD)) i bs
      in set_next BHEAD i bs)"

definition relink :: "nat \<Rightarrow> buf list \<Rightarrow> buf list" where
  "relink i bs = push_buf i (unlink_buf i bs)"

text \<open>\<open>binit\<close> pushes the buffers one by one on the empty list.\<close>

definition binit :: "'a bst_scheme \<Rightarrow> 'a bst_scheme" where
  "binit s =
     fold (\<lambda>b s. upd_buf b (\<lambda>x. x\<lparr>b_lock := initsleeplock ''buffer''\<rparr>) (s\<lparr>bufs := push_buf b (bufs s)\<rparr>))
       [0..<NBUF] (s\<lparr>bufs := set_next BHEAD BHEAD (set_prev BHEAD BHEAD (bufs s))\<rparr>)"

definition brelse :: "nat \<Rightarrow> nat \<Rightarrow> 'a bst_scheme \<Rightarrow> 'a bst_scheme outcome" where
  "brelse cur i s =
     (if \<not> holdingsleep cur (b_lock (bufs s ! i)) s then Panic ''brelse''
      else
        let (lk, s) = releasesleep (ChanBufLock i) (b_lock (bufs s ! i)) s;
            s = upd_buf i (\<lambda>x. x\<lparr>b_lock := lk\<rparr>) s;
            s = upd_buf i (\<lambda>x. x\<lparr>b_refcnt := b_refcnt x - 1\<rparr>) s
        in if b_refcnt (bufs s ! i) = 0 then Ret (s\<lparr>bufs := relink i (bufs s)\<rparr>) else Ret s)"

section \<open>The links form a list\<close>

fun links :: "(nat \<Rightarrow> nat) \<Rightarrow> (nat \<Rightarrow> nat) \<Rightarrow> nat list \<Rightarrow> bool" where
  "links nx pv (x # y # zs) = (nx x = y \<and> pv y = x \<and> links nx pv (y # zs))"
| "links nx pv _ = True"

lemma links_append:
  "xs \<noteq> [] \<Longrightarrow> ys \<noteq> [] \<Longrightarrow>
   links nx pv (xs @ ys) \<longleftrightarrow> links nx pv xs \<and> nx (last xs) = hd ys \<and> pv (hd ys) = last xs \<and> links nx pv ys"
proof (induction xs)
  case (Cons x xs)
  then show ?case by (cases xs; cases ys) auto
qed simp

lemma links_nx_upd: "a \<notin> set (butlast xs) \<Longrightarrow> links (nx(a := v)) pv xs = links nx pv xs"
  by (induction nx pv xs rule: links.induct) auto

lemma links_pv_upd: "a \<notin> set (tl xs) \<Longrightarrow> links nx (pv(a := v)) xs = links nx pv xs"
proof (induction nx pv xs rule: links.induct)
  case (1 nx pv x y zs)
  then show ?case by (cases zs) auto
qed auto

definition nxs :: "buf list \<Rightarrow> nat \<Rightarrow> nat" where "nxs bs i = b_next (bs ! i)"
definition pvs :: "buf list \<Rightarrow> nat \<Rightarrow> nat" where "pvs bs i = b_prev (bs ! i)"

text \<open>\<open>dll bs xs\<close>: from the head, the buffers come in the order \<open>xs\<close>, each of them once.\<close>

definition dll :: "buf list \<Rightarrow> nat list \<Rightarrow> bool" where
  "dll bs xs \<longleftrightarrow> length bs = Suc NBUF \<and> distinct xs \<and> set xs = {0..<NBUF}
     \<and> links (nxs bs) (pvs bs) (BHEAD # xs @ [BHEAD])"

text \<open>The ring without the requirement that it holds every buffer.\<close>

definition ring :: "(nat \<Rightarrow> nat) \<Rightarrow> (nat \<Rightarrow> nat) \<Rightarrow> nat list \<Rightarrow> bool" where
  "ring nx pv xs \<longleftrightarrow> distinct xs \<and> BHEAD \<notin> set xs \<and> links nx pv (BHEAD # xs @ [BHEAD])"

lemma ring_unlink:
  assumes "ring nx pv (as @ i # cs)"
  shows "ring (nx(pv i := nx i)) (pv(nx i := pv i)) (as @ cs)"
proof -
  have l: "links nx pv ((BHEAD # as) @ i # (cs @ [BHEAD]))" and d: "distinct (as @ i # cs)" "BHEAD \<notin> set (as @ i # cs)"
    using assms by (simp_all add: ring_def)
  have a: "links nx pv (BHEAD # as)" "pv i = last (BHEAD # as)"
    and b: "nx i = hd (cs @ [BHEAD])" "links nx pv (cs @ [BHEAD])"
    using l links_append [of "BHEAD # as" "i # (cs @ [BHEAD])" nx pv]
      links_append [of "[i]" "cs @ [BHEAD]" nx pv] by auto
  let ?p = "last (BHEAD # as)" and ?n = "hd (cs @ [BHEAD])"
  have pa: "?p \<notin> set (butlast (BHEAD # as))"
    using d by (metis append_butlast_last_id distinct.simps(2) distinct_append list.distinct(1) not_distinct_conv_prefix
        set_append Un_iff)
  have pb: "?p \<notin> set (butlast (cs @ [BHEAD]))" using d by (auto split: if_splits dest: last_in_set)
  have na: "?n \<notin> set (tl (BHEAD # as))" using d by (cases cs) auto
  have nb: "?n \<notin> set (tl (cs @ [BHEAD]))" using d by (cases cs) auto
  have "links (nx(?p := ?n)) (pv(?n := ?p)) ((BHEAD # as) @ (cs @ [BHEAD]))"
    using a(1) b(2) pa pb na nb
    by (subst links_append) (simp_all only: links_nx_upd links_pv_upd fun_upd_same list.distinct append_is_Nil_conv
        not_False_eq_True simp_thms list.simps)
  with a(2) b(1) d show ?thesis by (simp add: ring_def)
qed

lemma ring_push:
  assumes "ring nx pv xs" and "i \<notin> set xs" and "i \<noteq> BHEAD"
  shows "ring (nx(i := nx BHEAD, BHEAD := i)) (pv(i := BHEAD, nx BHEAD := i)) (i # xs)"
proof -
  have l: "links nx pv ([BHEAD] @ (xs @ [BHEAD]))" and d: "distinct xs" "BHEAD \<notin> set xs"
    using assms(1) by (simp_all add: ring_def)
  then have h: "nx BHEAD = hd (xs @ [BHEAD])" and r: "links nx pv (xs @ [BHEAD])"
    using links_append [of "[BHEAD]" "xs @ [BHEAD]" nx pv] by auto
  let ?nx = "nx(i := nx BHEAD, BHEAD := i)" and ?pv = "pv(i := BHEAD, nx BHEAD := i)"
  have "links ?nx ?pv (xs @ [BHEAD])"
    using r d assms(2,3) h by (cases xs) (simp_all add: links_nx_upd links_pv_upd)
  moreover have "?nx i = hd (xs @ [BHEAD])" "?pv (hd (xs @ [BHEAD])) = i"
    using assms(3) h by simp_all
  moreover have "?pv i = BHEAD" using assms(2,3) h by (cases xs) auto
  ultimately have "links ?nx ?pv ([BHEAD, i] @ (xs @ [BHEAD]))"
    by (subst links_append) simp_all
  then show ?thesis using d assms(2,3) by (simp add: ring_def)
qed

lemma links_rev: "links nx pv xs = links pv nx (rev xs)"
proof (induction xs)
  case (Cons x xs)
  show ?case
  proof (cases xs)
    case (Cons y ys)
    then have "links pv nx (rev xs @ [x]) \<longleftrightarrow> links pv nx (rev xs) \<and> pv (hd xs) = x \<and> nx x = hd xs"
      using links_append [of "rev xs" "[x]" pv nx] by (simp add: last_rev)
    then show ?thesis using Cons Cons.IH by auto
  qed simp
qed simp

lemma bscan_links:
  assumes "links st pv (x # ys @ [BHEAD])" and "BHEAD \<notin> set ys" and "length ys \<le> n"
    and "\<And>i. i \<in> set (x # ys) \<Longrightarrow> st i = step (bs ! i)"
  shows "bscan n step P bs (st x) = Ret (find (\<lambda>i. P (bs ! i)) ys)"
  using assms
proof (induction ys arbitrary: x n)
  case Nil
  then show ?case by (cases n) auto
next
  case (Cons y ys)
  then obtain m where m: "n = Suc m" by (cases n) auto
  show ?case
    using Cons.prems Cons.IH [of y m] by (auto simp: m)
qed

lemma bscan_next: "dll bs xs \<Longrightarrow> bscan NBUF b_next P bs (b_next (bs ! BHEAD)) = Ret (find (\<lambda>i. P (bs ! i)) xs)"
  using bscan_links [of "nxs bs" "pvs bs" BHEAD xs NBUF b_next bs P] distinct_card [of xs]
  by (auto simp: dll_def nxs_def)

lemma bscan_prev: "dll bs xs \<Longrightarrow> bscan NBUF b_prev P bs (b_prev (bs ! BHEAD)) = Ret (find (\<lambda>i. P (bs ! i)) (rev xs))"
  using bscan_links [of "pvs bs" "nxs bs" BHEAD "rev xs" NBUF b_prev bs P] distinct_card [of xs]
    links_rev [of "nxs bs" "pvs bs" "BHEAD # xs @ [BHEAD]"]
  by (auto simp: dll_def pvs_def)

lemma links_list_update:
  "nxs (bs[k := x]) i = (if i = k \<and> k < length bs then b_next x else nxs bs i)"
  "pvs (bs[k := x]) i = (if i = k \<and> k < length bs then b_prev x else pvs bs i)"
  by (simp_all add: nxs_def pvs_def nth_upd_if)

lemma link_upd [simp]:
  "k < length bs \<Longrightarrow> nxs (set_next k v bs) = (nxs bs)(k := v)"
  "k < length bs \<Longrightarrow> pvs (set_prev k v bs) = (pvs bs)(k := v)"
  "nxs (set_prev k v bs) = nxs bs"
  "pvs (set_next k v bs) = pvs bs"
  by (auto simp: fun_eq_iff links_list_update set_next_def set_prev_def nxs_def [symmetric] pvs_def [symmetric])

definition core :: "buf \<Rightarrow> buf" where
  "core b = b\<lparr>b_prev := 0, b_next := 0\<rparr>"

lemma core_set [simp]:
  "length (set_next k v bs) = length bs" "length (set_prev k v bs) = length bs"
  "core (set_next k v bs ! j) = core (bs ! j)" "core (set_prev k v bs ! j) = core (bs ! j)"
  by (simp_all add: set_next_def set_prev_def core_def nth_upd_if)

lemma core_relink [simp]: "length (relink i bs) = length bs" "core (relink i bs ! j) = core (bs ! j)"
  by (simp_all add: relink_def push_buf_def unlink_buf_def Let_def)

lemma links_unlink:
  assumes "nxs bs i < length bs" and "pvs bs i < length bs" and "nxs bs i \<noteq> i"
  shows "nxs (unlink_buf i bs) = (nxs bs)(pvs bs i := nxs bs i)"
    and "pvs (unlink_buf i bs) = (pvs bs)(nxs bs i := pvs bs i)"
proof -
  define b1 where "b1 = set_prev (nxs bs i) (pvs bs i) bs"
  have u: "unlink_buf i bs = set_next (pvs b1 i) (nxs b1 i) b1"
    by (simp only: unlink_buf_def b1_def Let_def nxs_def pvs_def)
  have b1: "nxs b1 = nxs bs" "pvs b1 = (pvs bs)(nxs bs i := pvs bs i)" "length b1 = length bs"
    using assms by (simp_all add: b1_def)
  show "nxs (unlink_buf i bs) = (nxs bs)(pvs bs i := nxs bs i)"
    and "pvs (unlink_buf i bs) = (pvs bs)(nxs bs i := pvs bs i)"
    using assms by (simp_all add: u b1)
qed

lemma links_push:
  assumes "nxs bs BHEAD < length bs" and "i < length bs" and "BHEAD < length bs" and "i \<noteq> BHEAD"
  shows "nxs (push_buf i bs) = (nxs bs)(i := nxs bs BHEAD, BHEAD := i)"
    and "pvs (push_buf i bs) = (pvs bs)(i := BHEAD, nxs bs BHEAD := i)"
proof -
  define b1 where "b1 = set_prev i BHEAD (set_next i (nxs bs BHEAD) bs)"
  have u: "push_buf i bs = set_next BHEAD i (set_prev (nxs b1 BHEAD) i b1)"
    by (simp only: push_buf_def b1_def Let_def nxs_def)
  have b1: "nxs b1 = (nxs bs)(i := nxs bs BHEAD)" "pvs b1 = (pvs bs)(i := BHEAD)" "length b1 = length bs"
    using assms by (simp_all add: b1_def)
  show "nxs (push_buf i bs) = (nxs bs)(i := nxs bs BHEAD, BHEAD := i)"
    and "pvs (push_buf i bs) = (pvs bs)(i := BHEAD, nxs bs BHEAD := i)"
    using assms by (simp_all add: u b1)
qed

lemma ring_bounds:
  assumes "ring nx pv (as @ i # cs)"
  shows "nx i \<in> insert BHEAD (set cs)" and "pv i \<in> insert BHEAD (set as)"
proof -
  have "links nx pv ((BHEAD # as) @ i # (cs @ [BHEAD]))" using assms by (simp add: ring_def)
  then have "pv i = last (BHEAD # as)" "nx i = hd (cs @ [BHEAD])"
    using links_append [of "BHEAD # as" "i # (cs @ [BHEAD])" nx pv]
      links_append [of "[i]" "cs @ [BHEAD]" nx pv] by auto
  then show "nx i \<in> insert BHEAD (set cs)" and "pv i \<in> insert BHEAD (set as)"
    by (cases cs; auto)+
qed

lemma ring_head: "ring nx pv xs \<Longrightarrow> nx BHEAD \<in> insert BHEAD (set xs)"
  by (cases xs) (auto simp: ring_def)

lemma dll_relink:
  assumes "dll bs xs" and "i < NBUF"
  shows "dll (relink i bs) (i # remove1 i xs)"
proof -
  have len: "length bs = Suc NBUF" and d: "distinct xs" "set xs = {0..<NBUF}"
    and r: "ring (nxs bs) (pvs bs) xs"
    using assms(1) by (auto simp: dll_def ring_def)
  have "i \<in> set xs" using d assms(2) by simp
  then obtain as cs where xs: "xs = as @ i # cs" and "i \<notin> set as" by (meson split_list_first)
  then have rm: "remove1 i xs = as @ cs" by (simp add: remove1_append)
  have all: "x < length bs" if "x \<in> insert BHEAD (set as \<union> set cs)" for x using that d len by (auto simp: xs)
  have bounds: "nxs bs i \<in> insert BHEAD (set cs)" "pvs bs i \<in> insert BHEAD (set as)"
    using ring_bounds [of "nxs bs" "pvs bs" as i cs] r by (simp_all add: xs)
  have nb: "nxs bs i < length bs" "pvs bs i < length bs" "nxs bs i \<noteq> i"
    using bounds d(1) assms(2) by (auto simp: xs intro!: all)
  define b1 where "b1 = unlink_buf i bs"
  have len1: "length b1 = length bs" by (simp add: b1_def unlink_buf_def Let_def)
  have r1: "ring (nxs b1) (pvs b1) (as @ cs)"
    using ring_unlink [of "nxs bs" "pvs bs" as i cs] r links_unlink [OF nb] by (simp add: xs b1_def)
  have hb: "nxs b1 BHEAD < length b1"
    unfolding len1 by (rule all) (use ring_head [OF r1] in simp)
  have "ring (nxs (push_buf i b1)) (pvs (push_buf i b1)) (i # as @ cs)"
    using ring_push [OF r1, of i] links_push [OF hb, of i] d assms(2) len len1 by (auto simp: xs)
  moreover have "set (i # as @ cs) = {0..<NBUF}" using d by (auto simp: xs)
  ultimately show ?thesis
    using len core_relink(1) [of i bs] by (simp add: dll_def ring_def rm relink_def b1_def)
qed

section \<open>Transparency of the cache\<close>

text \<open>
  The file system uses device 1 only. \<open>keyed\<close>: the buffer is assigned to a block of it;
  \<open>binv\<close>: the state of the cache between two calls of one process. A buffer of device 0 is one
  that has not been used since boot.
\<close>

definition keyed :: "u32 \<Rightarrow> buf \<Rightarrow> bool" where
  "keyed blk b \<longleftrightarrow> b_dev b = 1 \<and> b_blockno b = blk"

definition buf_ok :: "(u32 \<Rightarrow> u8 list) \<Rightarrow> buf \<Rightarrow> bool" where
  "buf_ok d b \<longleftrightarrow> (b_dev b = 0 \<or> b_dev b = 1)
     \<and> (b_dev b = 0 \<longrightarrow> \<not> b_valid b \<and> \<not> b_dirty b \<and> \<not> sl_locked (b_lock b))
     \<and> (b_dirty b \<longrightarrow> b_valid b) \<and> (sl_locked (b_lock b) \<longrightarrow> b_valid b)
     \<and> b_refcnt b = (if sl_locked (b_lock b) then 1 else 0)
     \<and> (b_dev b = 1 \<longrightarrow> unat (b_blockno b) < FSSIZE)
     \<and> (b_valid b \<and> \<not> b_dirty b \<and> \<not> sl_locked (b_lock b) \<longrightarrow> b_data b = d (b_blockno b))"

definition keys_unique :: "buf list \<Rightarrow> bool" where
  "keys_unique bs \<longleftrightarrow> (\<forall>i < NBUF. \<forall>j < NBUF. \<forall>blk. keyed blk (bs ! i) \<longrightarrow> keyed blk (bs ! j) \<longrightarrow> i = j)"

definition binv :: "'a bst_scheme \<Rightarrow> bool" where
  "binv s \<longleftrightarrow> (\<exists>xs. dll (bufs s) xs) \<and> havedisk1 s \<and> (\<forall>i < NBUF. buf_ok (disk s 1) (bufs s ! i))
     \<and> keys_unique (bufs s)"

definition blk_view :: "'a bst_scheme \<Rightarrow> u32 \<Rightarrow> u8 list" where
  "blk_view s blk =
     (case find_slot (\<lambda>b. keyed blk b \<and> b_valid b) (take NBUF (bufs s)) of
        Some i \<Rightarrow> b_data (bufs s ! i)
      | None \<Rightarrow> disk s 1 blk)"

definition dirty_blks :: "'a bst_scheme \<Rightarrow> u32 set" where
  "dirty_blks s = {blk. \<exists>i < NBUF. keyed blk (bufs s ! i) \<and> b_dirty (bufs s ! i)}"

definition held_blks :: "'a bst_scheme \<Rightarrow> u32 set" where
  "held_blks s = {blk. \<exists>i < NBUF. keyed blk (bufs s ! i) \<and> sl_locked (b_lock (bufs s ! i))}"

text \<open>\<open>has_buf cur s i blk\<close>: the process \<open>cur\<close> holds buffer \<open>i\<close>, which is that of block \<open>blk\<close>.\<close>

definition has_buf :: "nat \<Rightarrow> 'a bst_scheme \<Rightarrow> nat \<Rightarrow> u32 \<Rightarrow> bool" where
  "has_buf cur s i blk \<longleftrightarrow> i < NBUF \<and> keyed blk (bufs s ! i) \<and> b_valid (bufs s ! i)
     \<and> holdingsleep cur (b_lock (bufs s ! i)) s"

lemma binvD:
  assumes "binv s"
  shows "length (bufs s) = Suc NBUF" and "\<exists>xs. dll (bufs s) xs" and "havedisk1 s"
    and "\<And>i. i < NBUF \<Longrightarrow> buf_ok (disk s 1) (bufs s ! i)"
    and "\<And>i j blk. i < NBUF \<Longrightarrow> j < NBUF \<Longrightarrow> keyed blk (bufs s ! i) \<Longrightarrow> keyed blk (bufs s ! j) \<Longrightarrow> i = j"
  using assms by (auto simp: binv_def keys_unique_def dll_def)

lemma blk_view_cached:
  assumes "binv s" and "i < NBUF" and "keyed blk (bufs s ! i)" and "b_valid (bufs s ! i)"
  shows "blk_view s blk = b_data (bufs s ! i)"
proof -
  let ?P = "\<lambda>b. keyed blk b \<and> b_valid b"
  have len: "length (take NBUF (bufs s)) = NBUF" using binvD(1) [OF assms(1)] by simp
  have "bufs s ! i \<in> set (take NBUF (bufs s))"
    using assms(2) len nth_mem [of i "take NBUF (bufs s)"] by simp
  then obtain j where j: "find_slot ?P (take NBUF (bufs s)) = Some j"
    using find_slot_exists [of "bufs s ! i" _ ?P] assms(3,4) by blast
  then have "j < NBUF" "keyed blk (bufs s ! j)"
    using find_slot_SomeD(1,2) [OF j] len by simp_all
  then have "j = i" using binvD(5) [OF assms(1)] assms(2,3) by blast
  with j show ?thesis by (simp add: blk_view_def)
qed

lemma blk_view_disk:
  assumes "binv s" and "\<And>i. i < NBUF \<Longrightarrow> keyed blk (bufs s ! i) \<Longrightarrow> \<not> b_valid (bufs s ! i)"
  shows "blk_view s blk = disk s 1 blk"
proof -
  have "find_slot (\<lambda>b. keyed blk b \<and> b_valid b) (take NBUF (bufs s)) = None"
    using assms by (auto simp: find_slot_None_iff in_set_conv_nth)
  then show ?thesis by (simp add: blk_view_def)
qed

text \<open>The view after a change of one buffer that keeps the invariant.\<close>

lemma blk_view_other:
  assumes "binv s" and "binv s'" and "disk s' 1 blk = disk s 1 blk"
    and "\<And>j. j < NBUF \<Longrightarrow> keyed blk (bufs s' ! j) \<and> b_valid (bufs s' ! j) \<longleftrightarrow> keyed blk (bufs s ! j) \<and> b_valid (bufs s ! j)"
    and "\<And>j. j < NBUF \<Longrightarrow> keyed blk (bufs s ! j) \<Longrightarrow> b_valid (bufs s ! j) \<Longrightarrow> b_data (bufs s' ! j) = b_data (bufs s ! j)"
  shows "blk_view s' blk = blk_view s blk"
proof (cases "\<exists>j < NBUF. keyed blk (bufs s ! j) \<and> b_valid (bufs s ! j)")
  case True
  then obtain j where j: "j < NBUF" "keyed blk (bufs s ! j)" "b_valid (bufs s ! j)" by blast
  moreover have "keyed blk (bufs s' ! j)" "b_valid (bufs s' ! j)" using assms(4) [of j] j by simp_all
  ultimately show ?thesis
    using blk_view_cached [OF assms(1)] blk_view_cached [OF assms(2)] assms(5) by simp
next
  case False
  have "blk_view s blk = disk s 1 blk"
    by (rule blk_view_disk [OF assms(1)]) (use False in blast)
  moreover have "blk_view s' blk = disk s' 1 blk"
    by (rule blk_view_disk [OF assms(2)]) (use False assms(4) in blast)
  ultimately show ?thesis using assms(3) by simp
qed

text \<open>What \<open>bread\<close> makes of the buffer it returns.\<close>

definition got_buf :: "nat \<Rightarrow> u32 \<Rightarrow> u8 list \<Rightarrow> 'a bst_scheme \<Rightarrow> buf \<Rightarrow> buf" where
  "got_buf cur blk d s b = b\<lparr>b_valid := True, b_dev := 1, b_blockno := blk, b_refcnt := 1, b_data := d,
     b_lock := (b_lock b)\<lparr>sl_locked := True, sl_pid := pid (ptable s ! cur)\<rparr>\<rparr>"

lemma set_buf_eqI:
  fixes b c :: buf
  assumes "b_valid b = b_valid c" "b_dirty b = b_dirty c" "b_dev b = b_dev c" "b_blockno b = b_blockno c"
    "b_lock b = b_lock c" "b_refcnt b = b_refcnt c" "b_prev b = b_prev c" "b_next b = b_next c" "b_data b = b_data c"
  shows "s\<lparr>bufs := (bufs s)[i := b]\<rparr> = s\<lparr>bufs := (bufs s)[i := c]\<rparr>"
proof -
  have "b = c" by (rule buf.equality) (use assms in simp_all)
  then show ?thesis by simp
qed

lemma bread_cached:
  assumes "binv s" and "i < NBUF" and "keyed blk (bufs s ! i)" and "\<not> sl_locked (b_lock (bufs s ! i))"
  shows "bread cur 1 blk s = Ret (i, upd_buf i (got_buf cur blk (blk_view s blk) s) s)"
proof -
  obtain xs where xs: "dll (bufs s) xs" using binvD(2) [OF assms(1)] by blast
  have "find (\<lambda>j. keyed blk (bufs s ! j)) xs = Some i"
  proof (cases "find (\<lambda>j. keyed blk (bufs s ! j)) xs")
    case None
    then show ?thesis using xs assms(2,3) by (auto simp: find_None_iff dll_def)
  next
    case (Some j)
    then have "j \<in> set xs" "keyed blk (bufs s ! j)" by (auto simp: find_Some_iff)
    then show ?thesis using Some binvD(5) [OF assms(1), of j i blk] xs assms(2,3) by (auto simp: dll_def)
  qed
  then have scan: "bscan NBUF b_next (\<lambda>b. b_dev b = 1 \<and> b_blockno b = blk) (bufs s) (b_next (bufs s ! BHEAD)) = Ret (Some i)"
    using bscan_next [OF xs] by (simp add: keyed_def)
  have ok: "buf_ok (disk s 1) (bufs s ! i)" and len: "i < length (bufs s)"
    using binvD(1,4) [OF assms(1)] assms(2) by simp_all
  show ?thesis
  proof (cases "b_valid (bufs s ! i)")
    case True
    then show ?thesis
      using blk_view_cached [OF assms(1-3)] scan assms(3,4) ok len
      by (simp add: bread_def bget_def lock_buf_def acquiresleep_def upd_buf_def got_buf_def buf_ok_def keyed_def)
        (rule set_buf_eqI; simp)
  next
    case False
    have "blk_view s blk = disk s 1 blk"
      by (rule blk_view_disk [OF assms(1)]) (use False binvD(5) [OF assms(1,2)] assms(3) in blast)
    then show ?thesis
      using False scan assms(3,4) ok len binvD(3) [OF assms(1)]
      by (simp add: bread_def bget_def lock_buf_def acquiresleep_def upd_buf_def got_buf_def buf_ok_def keyed_def
          iderw_def holdingsleep_def) (rule set_buf_eqI; simp)
  qed
qed

lemma bread_recycle:
  assumes "binv s" and "unat blk < FSSIZE" and "\<And>i. i < NBUF \<Longrightarrow> \<not> keyed blk (bufs s ! i)"
    and "\<exists>i < NBUF. \<not> b_dirty (bufs s ! i) \<and> \<not> sl_locked (b_lock (bufs s ! i))"
  shows "\<exists>i < NBUF. \<not> b_dirty (bufs s ! i) \<and> \<not> sl_locked (b_lock (bufs s ! i))
    \<and> bread cur 1 blk s = Ret (i, upd_buf i (got_buf cur blk (blk_view s blk) s) s)"
proof -
  obtain xs where xs: "dll (bufs s) xs" using binvD(2) [OF assms(1)] by blast
  have set: "set xs = {0..<NBUF}" using xs by (simp add: dll_def)
  have free: "b_refcnt (bufs s ! j) = 0 \<longleftrightarrow> \<not> sl_locked (b_lock (bufs s ! j))" if "j < NBUF" for j
    using binvD(4) [OF assms(1) that] by (simp add: buf_ok_def)
  have "find (\<lambda>j. keyed blk (bufs s ! j)) xs = None" using assms(3) set by (auto simp: find_None_iff)
  then have none: "bscan NBUF b_next (\<lambda>b. b_dev b = 1 \<and> b_blockno b = blk) (bufs s) (b_next (bufs s ! BHEAD)) = Ret None"
    using bscan_next [OF xs] by (simp add: keyed_def)
  let ?P = "\<lambda>b. b_refcnt b = 0 \<and> \<not> b_dirty b"
  obtain i where i: "find (\<lambda>j. ?P (bufs s ! j)) (rev xs) = Some i"
  proof (cases "find (\<lambda>j. ?P (bufs s ! j)) (rev xs)")
    case None
    then show ?thesis using assms(4) set free by (auto simp: find_None_iff)
  qed blast
  then have in_xs: "i \<in> set xs" and P: "?P (bufs s ! i)"
    by (auto simp: find_Some_iff) (metis nth_mem set_rev length_rev)
  then have i': "i < NBUF" "\<not> b_dirty (bufs s ! i)" "\<not> sl_locked (b_lock (bufs s ! i))"
    using set free by auto
  have scan: "bscan NBUF b_prev ?P (bufs s) (b_prev (bufs s ! BHEAD)) = Ret (Some i)"
    using bscan_prev [OF xs, of ?P] i by simp
  have "blk_view s blk = disk s 1 blk"
    using blk_view_disk [OF assms(1)] assms(3) by blast
  then have "bread cur 1 blk s = Ret (i, upd_buf i (got_buf cur blk (blk_view s blk) s) s)"
    using none scan i' binvD(1,3) [OF assms(1)] assms(2)
    by (simp add: bread_def bget_def lock_buf_def acquiresleep_def upd_buf_def got_buf_def iderw_def holdingsleep_def)
      (rule set_buf_eqI; simp)
  with i' show ?thesis by blast
qed

lemma upd_buf_simps [simp]:
  "disk (upd_buf i f s) = disk s" "disk_log (upd_buf i f s) = disk_log s" "havedisk1 (upd_buf i f s) = havedisk1 s"
  "ptable (upd_buf i f s) = ptable s" "bst.more (upd_buf i f s) = bst.more s"
  "bufs (upd_buf i f s) = (bufs s)[i := f (bufs s ! i)]" "mem (upd_buf i f s) = mem s" "freelist (upd_buf i f s) = freelist s"
  by (simp_all add: upd_buf_def)

lemma dll_upd:
  assumes "dll bs xs" and "b_next b = b_next (bs ! i)" and "b_prev b = b_prev (bs ! i)"
  shows "dll (bs[i := b]) xs"
proof -
  have "nxs (bs[i := b]) = nxs bs" "pvs (bs[i := b]) = pvs bs"
    using assms(2,3) by (auto simp: fun_eq_iff nth_upd_if nxs_def pvs_def)
  with assms(1) show ?thesis by (simp add: dll_def)
qed

lemma dll_upd_ex:
  assumes "\<exists>xs. dll bs xs" and "b_next b = b_next (bs ! i)" and "b_prev b = b_prev (bs ! i)"
  shows "\<exists>xs. dll (bs[i := b]) xs"
  using assms dll_upd by blast

lemma free_buffer:
  assumes "binv s" and "card (dirty_blks s \<union> held_blks s) < NBUF"
  shows "\<exists>i < NBUF. \<not> b_dirty (bufs s ! i) \<and> \<not> sl_locked (b_lock (bufs s ! i))"
proof (rule ccontr)
  assume "\<not> ?thesis"
  then have all: "b_dirty (bufs s ! i) \<or> sl_locked (b_lock (bufs s ! i))" if "i < NBUF" for i using that by blast
  let ?f = "\<lambda>i. b_blockno (bufs s ! i)"
  have key: "keyed (?f i) (bufs s ! i)" if "i < NBUF" for i
    using all [OF that] binvD(4) [OF assms(1) that] by (auto simp: keyed_def buf_ok_def)
  have "inj_on ?f {0..<NBUF}"
  proof (rule inj_onI)
    fix i j assume "i \<in> {0..<NBUF}" "j \<in> {0..<NBUF}" "?f i = ?f j"
    then show "i = j" using key [of i] key [of j] binvD(5) [OF assms(1), of i j] by simp
  qed
  moreover have "?f ` {0..<NBUF} = dirty_blks s \<union> held_blks s"
    using all key by (fastforce simp: dirty_blks_def held_blks_def keyed_def image_iff)
  ultimately show False using card_image [of ?f "{0..<NBUF}"] assms(2) by simp
qed

text \<open>The effect of assigning buffer \<open>i\<close>, which nobody holds, to block \<open>blk\<close>.\<close>

lemma got_effect:
  assumes inv: "binv s" and i: "i < NBUF" and blk: "unat blk < FSSIZE" and free: "\<not> sl_locked (b_lock (bufs s ! i))"
    and key: "keyed blk (bufs s ! i) \<or> (\<not> b_dirty (bufs s ! i) \<and> (\<forall>j < NBUF. \<not> keyed blk (bufs s ! j)))"
    and s'_def: "s' = upd_buf i (got_buf cur blk (blk_view s blk) s) s"
  shows "binv s'" and "blk_view s' = blk_view s" and "dirty_blks s' = dirty_blks s"
    and "held_blks s' = insert blk (held_blks s)" and "has_buf cur s' i blk"
    and "b_data (bufs s' ! i) = blk_view s blk"
proof -
  have len: "i < length (bufs s)" using binvD(1) [OF inv] i by simp
  have nth: "bufs s' ! j = (if j = i then got_buf cur blk (blk_view s blk) s (bufs s ! i) else bufs s ! j)" for j
    using len by (simp add: s'_def nth_upd_if)
  have uniq: "keyed blk (bufs s ! j) \<Longrightarrow> j < NBUF \<Longrightarrow> j = i" for j
    using key binvD(5) [OF inv, of j i blk] i by blast
  have same: "disk s' = disk s" "ptable s' = ptable s" "havedisk1 s' = havedisk1 s" by (simp_all add: s'_def)
  have dll: "\<exists>xs. dll (bufs s') xs"
    unfolding s'_def upd_buf_simps by (rule dll_upd_ex [OF binvD(2) [OF inv]]) (simp_all add: got_buf_def)
  have ok: "buf_ok (disk s' 1) (bufs s' ! j)" if "j < NBUF" for j
    using binvD(4) [OF inv that] binvD(4) [OF inv i] blk key by (cases "j = i") (auto simp: nth same buf_ok_def got_buf_def)
  have ku: "keys_unique (bufs s')"
    unfolding keys_unique_def
  proof (intro allI impI)
    fix j k b assume *: "j < NBUF" "k < NBUF" "keyed b (bufs s' ! j)" "keyed b (bufs s' ! k)"
    show "j = k"
    proof (cases "b = blk")
      case True
      then show ?thesis using * uniq [of j] uniq [of k] by (auto simp: nth split: if_splits)
    next
      case False
      then have "j \<noteq> i" "k \<noteq> i" using * by (auto simp: nth got_buf_def keyed_def)
      then show ?thesis using * binvD(5) [OF inv] by (simp add: nth)
    qed
  qed
  show inv': "binv s'" using dll ok ku binvD(3) [OF inv] by (simp add: binv_def same)
  show hb: "has_buf cur s' i blk" using i by (simp add: has_buf_def nth got_buf_def keyed_def holdingsleep_def same)
  show data: "b_data (bufs s' ! i) = blk_view s blk" by (simp add: nth got_buf_def)
  have "blk_view s' b = blk_view s b" for b
  proof (cases "b = blk")
    case True
    then show ?thesis
      using blk_view_cached [OF inv' i, of blk] hb data by (simp add: has_buf_def)
  next
    case False
    note diff = this
    show ?thesis
    proof (cases "keyed b (bufs s ! i) \<and> b_valid (bufs s ! i)")
      case True
      then have nk: "\<not> b_dirty (bufs s ! i)" using key diff by (auto simp: keyed_def)
      have "blk_view s b = disk s 1 b"
        using blk_view_cached [OF inv i] True nk free binvD(4) [OF inv i] by (simp add: buf_ok_def keyed_def)
      moreover have "blk_view s' b = disk s' 1 b"
      proof (rule blk_view_disk [OF inv'])
        fix k assume k: "k < NBUF" "keyed b (bufs s' ! k)"
        then have "k \<noteq> i" using diff by (auto simp: nth got_buf_def keyed_def)
        then have "k = i" using k True binvD(5) [OF inv k(1) i, of b] by (simp add: nth)
        with \<open>k \<noteq> i\<close> show "\<not> b_valid (bufs s' ! k)" by simp
      qed
      ultimately show ?thesis by (simp add: same)
    next
      case False
      show ?thesis
        by (rule blk_view_other [OF inv inv']) (use False diff in \<open>auto simp: same nth got_buf_def keyed_def\<close>)
    qed
  qed
  then show "blk_view s' = blk_view s" by blast
  show "dirty_blks s' = dirty_blks s"
    using key i by (auto simp: dirty_blks_def nth got_buf_def keyed_def split: if_splits)
  show "held_blks s' = insert blk (held_blks s)"
    using free i by (auto simp: held_blks_def nth got_buf_def keyed_def split: if_splits)
qed

text \<open>
  The contract of \<open>bread\<close>: enough room in the cache and a block nobody holds. It changes only the
  buffer it returns, which nobody held before.
\<close>

lemma bread_ok:
  assumes "binv s" and "unat blk < FSSIZE" and "blk \<notin> held_blks s" and "card (dirty_blks s \<union> held_blks s) < NBUF"
  shows "\<exists>i f. bread cur 1 blk s = Ret (i, upd_buf i f s) \<and> \<not> sl_locked (b_lock (bufs s ! i))
    \<and> binv (upd_buf i f s) \<and> blk_view (upd_buf i f s) = blk_view s
    \<and> dirty_blks (upd_buf i f s) = dirty_blks s \<and> held_blks (upd_buf i f s) = insert blk (held_blks s)
    \<and> has_buf cur (upd_buf i f s) i blk \<and> b_data (bufs (upd_buf i f s) ! i) = blk_view s blk"
proof (cases "\<exists>i < NBUF. keyed blk (bufs s ! i)")
  case True
  then obtain i where i: "i < NBUF" "keyed blk (bufs s ! i)" by blast
  then have free: "\<not> sl_locked (b_lock (bufs s ! i))" using assms(3) by (auto simp: held_blks_def)
  from bread_cached [OF assms(1) i free, of cur] got_effect [OF assms(1) i(1) assms(2) free disjI1 [OF i(2)] refl, of cur]
  show ?thesis using free by blast
next
  case False
  then obtain i where i: "i < NBUF" "\<not> b_dirty (bufs s ! i)" "\<not> sl_locked (b_lock (bufs s ! i))"
    "bread cur 1 blk s = Ret (i, upd_buf i (got_buf cur blk (blk_view s blk) s) s)"
    using bread_recycle [OF assms(1,2) _ free_buffer [OF assms(1,4)], of cur] by blast
  have "\<not> b_dirty (bufs s ! i) \<and> (\<forall>j < NBUF. \<not> keyed blk (bufs s ! j))" using False i by blast
  from got_effect [OF assms(1) i(1) assms(2) i(3) disjI2 [OF this] refl, of cur] i(3,4)
  show ?thesis by blast
qed

text \<open>A change to a held buffer that keeps its block, its links and its lock.\<close>

lemma held_upd:
  assumes inv: "binv s" and hb: "has_buf cur s i blk"
    and f: "b_dev (f (bufs s ! i)) = 1" "b_blockno (f (bufs s ! i)) = blk" "b_valid (f (bufs s ! i))"
      "b_lock (f (bufs s ! i)) = b_lock (bufs s ! i)" "b_refcnt (f (bufs s ! i)) = b_refcnt (bufs s ! i)"
      "b_next (f (bufs s ! i)) = b_next (bufs s ! i)" "b_prev (f (bufs s ! i)) = b_prev (bufs s ! i)"
    and s': "bufs s' = (bufs s)[i := f (bufs s ! i)]" "havedisk1 s' = havedisk1 s" "ptable s' = ptable s"
      "\<And>b. b \<noteq> blk \<Longrightarrow> disk s' 1 b = disk s 1 b"
  shows "binv s'" and "blk_view s' = (blk_view s)(blk := b_data (f (bufs s ! i)))"
    and "held_blks s' = held_blks s" and "has_buf cur s' j b \<longleftrightarrow> has_buf cur s j b"
    and "dirty_blks s' = (if b_dirty (f (bufs s ! i)) then insert blk (dirty_blks s) else dirty_blks s - {blk})"
proof -
  have i: "i < NBUF" "keyed blk (bufs s ! i)" "sl_locked (b_lock (bufs s ! i))" "i < length (bufs s)"
    using hb binvD(1) [OF inv] by (simp_all add: has_buf_def holdingsleep_def)
  have nth: "bufs s' ! j = (if j = i then f (bufs s ! i) else bufs s ! j)" for j
    using i(4) by (simp add: s'(1) nth_upd_if)
  have key: "keyed b (bufs s' ! j) = keyed b (bufs s ! j)" for b j
    using f i(2) by (auto simp: nth keyed_def)
  have uniq: "j = i" if "j < NBUF" "keyed blk (bufs s ! j)" for j
    using binvD(5) [OF inv that(1) i(1) that(2) i(2)] .
  have dll: "\<exists>xs. dll (bufs s') xs"
    unfolding s'(1) by (rule dll_upd_ex [OF binvD(2) [OF inv]]) (use f in simp_all)
  have ok: "buf_ok (disk s' 1) (bufs s' ! j)" if j: "j < NBUF" for j
  proof (cases "j = i")
    case True
    then show ?thesis using binvD(4) [OF inv i(1)] f i(2,3) by (auto simp: nth buf_ok_def keyed_def)
  next
    case False
    then have "\<not> keyed blk (bufs s ! j)" using uniq [OF j] by blast
    then show ?thesis using binvD(4) [OF inv j] False s'(4) by (auto simp: nth buf_ok_def keyed_def)
  qed
  show inv': "binv s'"
    using dll ok binvD(3,5) [OF inv] s'(2) by (auto simp: binv_def keys_unique_def key)
  show "blk_view s' = (blk_view s)(blk := b_data (f (bufs s ! i)))"
  proof
    fix b
    show "blk_view s' b = ((blk_view s)(blk := b_data (f (bufs s ! i)))) b"
    proof (cases "b = blk")
      case True
      then show ?thesis using blk_view_cached [OF inv' i(1), of blk] f by (simp add: nth keyed_def)
    next
      case False
      then have "\<not> keyed b (bufs s ! i)" using i(2) by (auto simp: keyed_def)
      then have "blk_view s' b = blk_view s b"
        by (intro blk_view_other [OF inv inv']) (use False s'(4) key in \<open>auto simp: nth\<close>)
      with False show ?thesis by simp
    qed
  qed
  have lk: "b_lock (bufs s' ! j) = b_lock (bufs s ! j)" "b_valid (bufs s' ! j) = b_valid (bufs s ! j)" for j
    using f(3,4) hb by (auto simp: nth has_buf_def)
  show "held_blks s' = held_blks s" by (simp add: held_blks_def key lk)
  show "has_buf cur s' j b \<longleftrightarrow> has_buf cur s j b" by (simp add: has_buf_def key lk s'(3) holdingsleep_def)
  have d1: "blk \<in> dirty_blks s' \<longleftrightarrow> b_dirty (f (bufs s ! i))"
  proof -
    have "blk \<in> dirty_blks s' \<longleftrightarrow> b_dirty (bufs s' ! i)"
      unfolding dirty_blks_def key using uniq i(1,2) by blast
    then show ?thesis by (simp add: nth)
  qed
  have d2: "b \<in> dirty_blks s' \<longleftrightarrow> b \<in> dirty_blks s" if "b \<noteq> blk" for b
  proof -
    have "bufs s' ! j = bufs s ! j" if "keyed b (bufs s ! j)" for j
      using that \<open>b \<noteq> blk\<close> i(2) by (auto simp: nth keyed_def)
    then show ?thesis unfolding dirty_blks_def key mem_Collect_eq by metis
  qed
  show "dirty_blks s' = (if b_dirty (f (bufs s ! i)) then insert blk (dirty_blks s) else dirty_blks s - {blk})"
  proof (rule set_eqI)
    fix b
    show "b \<in> dirty_blks s' \<longleftrightarrow>
        b \<in> (if b_dirty (f (bufs s ! i)) then insert blk (dirty_blks s) else dirty_blks s - {blk})"
      using d1 d2 [of b] by (cases "b = blk") simp_all
  qed
qed

text \<open>The contracts of the other operations on a held buffer.\<close>

lemma set_data_ok:
  assumes "binv s" and "has_buf cur s i blk" and "s' = upd_buf i (\<lambda>b. b\<lparr>b_data := d\<rparr>) s"
  shows "binv s'" and "blk_view s' = (blk_view s)(blk := d)" and "held_blks s' = held_blks s"
    and "has_buf cur s' j b \<longleftrightarrow> has_buf cur s j b" and "dirty_blks s' = dirty_blks s"
proof -
  have k: "keyed blk (bufs s ! i)" "b_valid (bufs s ! i)" "i < NBUF" using assms(2) by (simp_all add: has_buf_def)
  note U = held_upd [OF assms(1,2), of "\<lambda>b. b\<lparr>b_data := d\<rparr>" s']
  show "binv s'" "blk_view s' = (blk_view s)(blk := d)" "held_blks s' = held_blks s"
    "has_buf cur s' j b \<longleftrightarrow> has_buf cur s j b"
    using U(1-4) k by (simp_all add: assms(3) keyed_def)
  have "blk \<in> dirty_blks s \<longleftrightarrow> b_dirty (bufs s ! i)"
    unfolding dirty_blks_def mem_Collect_eq using k(1,3) binvD(5) [OF assms(1) k(3) _ k(1)] by blast
  then show "dirty_blks s' = dirty_blks s"
    using U(5) k by (auto simp: assms(3) keyed_def)
qed

lemma bwrite_ok:
  assumes "binv s" and "has_buf cur s i blk"
  shows "\<exists>s'. bwrite cur i s = Ret s' \<and> binv s' \<and> blk_view s' = blk_view s \<and> held_blks s' = held_blks s
    \<and> (\<forall>j b. has_buf cur s' j b \<longleftrightarrow> has_buf cur s j b) \<and> dirty_blks s' = dirty_blks s - {blk}
    \<and> disk s' = (disk s)(1 := (disk s 1)(blk := blk_view s blk))
    \<and> disk_log s' = disk_log s @ [(1, blk, blk_view s blk)] \<and> ptable s' = ptable s
    \<and> (\<forall>j. b_data (bufs s' ! j) = b_data (bufs s ! j)) \<and> bst.more s' = bst.more s"
proof -
  have k: "keyed blk (bufs s ! i)" "b_valid (bufs s ! i)" "i < NBUF" "i < length (bufs s)"
    "holdingsleep cur (b_lock (bufs s ! i)) s"
    using assms(2) binvD(1) [OF assms(1)] by (simp_all add: has_buf_def)
  have v: "blk_view s blk = b_data (bufs s ! i)" by (rule blk_view_cached [OF assms(1) k(3,1,2)])
  define s' where "s' = upd_buf i (\<lambda>b. b\<lparr>b_valid := True, b_dirty := False\<rparr>)
    (s\<lparr>disk := (disk s)(1 := (disk s 1)(blk := b_data (bufs s ! i))),
       disk_log := disk_log s @ [(1, blk, b_data (bufs s ! i))]\<rparr>)"
  have "unat blk < FSSIZE" using binvD(4) [OF assms(1) k(3)] k(1) by (auto simp: buf_ok_def keyed_def)
  then have "bwrite cur i s = Ret s'"
    using k binvD(3) [OF assms(1)]
    by (simp add: bwrite_def iderw_def holdingsleep_def upd_buf_def keyed_def s'_def Let_def)
  moreover note U = held_upd [OF assms, of "\<lambda>b. b\<lparr>b_valid := True, b_dirty := False\<rparr>" s']
  have "binv s'" "blk_view s' = blk_view s" "held_blks s' = held_blks s"
    "\<And>j b. has_buf cur s' j b \<longleftrightarrow> has_buf cur s j b" "dirty_blks s' = dirty_blks s - {blk}"
    using U k v by (simp_all add: s'_def keyed_def fun_upd_idem)
  ultimately show ?thesis using v by (auto simp: s'_def nth_upd_if)
qed

lemma core_fields:
  assumes "core a = core b"
  shows "b_valid a = b_valid b" "b_dirty a = b_dirty b" "b_dev a = b_dev b" "b_blockno a = b_blockno b"
    "b_lock a = b_lock b" "b_refcnt a = b_refcnt b" "b_data a = b_data b"
  using arg_cong [OF assms, of b_valid] arg_cong [OF assms, of b_dirty] arg_cong [OF assms, of b_dev]
    arg_cong [OF assms, of b_blockno] arg_cong [OF assms, of b_lock] arg_cong [OF assms, of b_refcnt]
    arg_cong [OF assms, of b_data]
  by (simp_all add: core_def)

lemma brelse_eq:
  assumes "binv s" and "has_buf cur s i blk"
  shows "brelse cur i s = Ret ((wakeup (ChanBufLock i) s)\<lparr>bufs := relink i ((bufs s)[i :=
     (bufs s ! i)\<lparr>b_lock := (b_lock (bufs s ! i))\<lparr>sl_locked := False, sl_pid := 0\<rparr>, b_refcnt := 0\<rparr>])\<rparr>)"
proof -
  have i: "i < NBUF" "i < length (bufs s)" "holdingsleep cur (b_lock (bufs s ! i)) s" "b_refcnt (bufs s ! i) = 1"
    using assms binvD(1) [OF assms(1)] binvD(4) [OF assms(1), of i]
    by (auto simp: has_buf_def holdingsleep_def buf_ok_def)
  have w: "bufs (wakeup ch s) = bufs s" for ch by (simp add: wakeup_def wakeup1_def)
  show ?thesis
    using i by (simp add: brelse_def releasesleep_def upd_buf_def w)
qed

lemma brelse_ok:
  assumes inv: "binv s" and hb: "has_buf cur s i blk" and clean: "blk \<in> dirty_blks s \<or> blk_view s blk = disk s 1 blk"
    and cur: "cur < length (ptable s)"
  shows "\<exists>s'. brelse cur i s = Ret s' \<and> binv s' \<and> blk_view s' = blk_view s \<and> held_blks s' = held_blks s - {blk}
    \<and> (\<forall>j b. j \<noteq> i \<longrightarrow> has_buf cur s j b \<longrightarrow> has_buf cur s' j b \<and> b_data (bufs s' ! j) = b_data (bufs s ! j))
    \<and> dirty_blks s' = dirty_blks s \<and> disk s' = disk s \<and> disk_log s' = disk_log s
    \<and> length (ptable s') = length (ptable s) \<and> bst.more s' = bst.more s"
proof -
  define b where "b = (bufs s ! i)\<lparr>b_lock := (b_lock (bufs s ! i))\<lparr>sl_locked := False, sl_pid := 0\<rparr>, b_refcnt := 0\<rparr>"
  define bs where "bs = (bufs s)[i := b]"
  define s' where "s' = (wakeup (ChanBufLock i) s)\<lparr>bufs := relink i bs\<rparr>"
  have run: "brelse cur i s = Ret s'" using brelse_eq [OF inv hb] by (simp add: s'_def bs_def b_def)
  have i: "i < NBUF" "i < length (bufs s)" "keyed blk (bufs s ! i)" "b_valid (bufs s ! i)"
    "sl_locked (b_lock (bufs s ! i))"
    using hb binvD(1) [OF inv] by (simp_all add: has_buf_def holdingsleep_def)
  have same: "disk s' = disk s" "disk_log s' = disk_log s" "havedisk1 s' = havedisk1 s" "bst.more s' = bst.more s"
    "length (ptable s') = length (ptable s)" "pid (ptable s' ! cur) = pid (ptable s ! cur)"
    using cur by (simp_all add: s'_def wakeup_def wakeup1_def)
  have nth: "core (bufs s' ! j) = core (if j = i then b else bufs s ! j)" for j
    using i(2) by (simp add: s'_def bs_def nth_upd_if)
  note F = core_fields [OF nth]
  have key: "keyed x (bufs s' ! j) = keyed x (bufs s ! j)" "b_valid (bufs s' ! j) = b_valid (bufs s ! j)"
    "b_dirty (bufs s' ! j) = b_dirty (bufs s ! j)" "b_data (bufs s' ! j) = b_data (bufs s ! j)" for x j
    using F by (simp_all add: keyed_def b_def)
  have dirty: "b_dirty (bufs s ! i) \<or> b_data (bufs s ! i) = disk s 1 blk"
    using clean blk_view_cached [OF inv i(1,3,4)] binvD(5) [OF inv i(1) _ i(3)]
    unfolding dirty_blks_def mem_Collect_eq by metis
  have "\<exists>xs. dll bs xs"
    unfolding bs_def by (rule dll_upd_ex [OF binvD(2) [OF inv]]) (simp_all add: b_def)
  then have dll: "\<exists>xs. dll (bufs s') xs" using dll_relink [OF _ i(1)] by (auto simp: s'_def)
  have ok: "buf_ok (disk s' 1) (bufs s' ! j)" if j: "j < NBUF" for j
    using binvD(4) [OF inv j] binvD(4) [OF inv i(1)] dirty i(3,4) F [of j]
    by (cases "j = i") (auto simp: buf_ok_def same b_def keyed_def)
  have inv': "binv s'"
    using dll ok binvD(3,5) [OF inv] by (auto simp: binv_def keys_unique_def key same)
  have "blk_view s' = blk_view s"
  proof
    fix x show "blk_view s' x = blk_view s x"
      by (rule blk_view_other [OF inv inv']) (simp_all add: same key)
  qed
  moreover have "held_blks s' = held_blks s - {blk}"
  proof -
    have "sl_locked (b_lock (bufs s' ! j)) \<longleftrightarrow> j \<noteq> i \<and> sl_locked (b_lock (bufs s ! j))" for j
      using F(5) [of j] by (simp add: b_def)
    then have "x \<in> held_blks s' \<longleftrightarrow> (\<exists>j < NBUF. keyed x (bufs s ! j) \<and> j \<noteq> i \<and> sl_locked (b_lock (bufs s ! j)))" for x
      by (simp add: held_blks_def key)
    moreover have "j = i \<longleftrightarrow> x = blk" if "j < NBUF" "keyed x (bufs s ! j)" for j x
      using binvD(5) [OF inv i(1) that(1) i(3)] that(2) i(3) by (auto simp: keyed_def)
    ultimately show ?thesis unfolding held_blks_def by blast
  qed
  moreover have "dirty_blks s' = dirty_blks s" by (simp add: dirty_blks_def key)
  moreover have "has_buf cur s' j x" if "j \<noteq> i" "has_buf cur s j x" for j x
    using that F(5) [of j] by (simp add: has_buf_def key holdingsleep_def same)
  ultimately show ?thesis using run inv' by (intro exI [of _ s']) (simp add: same key)
qed

section \<open>From boot to the contract\<close>

lemma upd_links [simp]: "nxs (bs[i := (bs ! i)\<lparr>b_lock := l\<rparr>]) = nxs bs" "pvs (bs[i := (bs ! i)\<lparr>b_lock := l\<rparr>]) = pvs bs"
  by (auto simp: fun_eq_iff nth_upd_if nxs_def pvs_def)

definition idle_buf :: "buf \<Rightarrow> bool" where
  "idle_buf b \<longleftrightarrow> b_dev b = 0 \<and> \<not> b_valid b \<and> \<not> b_dirty b \<and> b_refcnt b = 0 \<and> \<not> sl_locked (b_lock b)"

lemma core_push [simp]: "length (push_buf i bs) = length bs" "core (push_buf i bs ! j) = core (bs ! j)"
  by (simp_all add: push_buf_def Let_def)

lemma idle_core:
  assumes "core a = core b"
  shows "idle_buf a = idle_buf b"
  using core_fields [OF assms] by (simp add: idle_buf_def)

lemma binit_loop:
  fixes s :: "'a bst_scheme"
  assumes "length (bufs s) = Suc NBUF" and "\<And>j. j < NBUF \<Longrightarrow> idle_buf (bufs s ! j)" and "n \<le> NBUF"
    and "t = fold (\<lambda>b (s :: 'a bst_scheme). upd_buf b (\<lambda>x. x\<lparr>b_lock := initsleeplock ''buffer''\<rparr>) (s\<lparr>bufs := push_buf b (bufs s)\<rparr>))
       [0..<n] (s\<lparr>bufs := set_next BHEAD BHEAD (set_prev BHEAD BHEAD (bufs s))\<rparr>)"
  shows "length (bufs t) = Suc NBUF \<and> ring (nxs (bufs t)) (pvs (bufs t)) (rev [0..<n])
    \<and> (\<forall>j < NBUF. idle_buf (bufs t ! j)) \<and> disk t = disk s \<and> havedisk1 t = havedisk1 s
    \<and> ptable t = ptable s"
  using assms(3,4)
proof (induction n arbitrary: t)
  case 0
  moreover have "idle_buf (set_next BHEAD BHEAD (set_prev BHEAD BHEAD (bufs s)) ! j)" if "j < NBUF" for j
    using assms(2) [OF that] idle_core core_set by metis
  ultimately show ?case using assms(1) by (simp add: ring_def)
next
  case (Suc n)
  define u where "u = fold (\<lambda>b (s :: 'a bst_scheme). upd_buf b (\<lambda>x. x\<lparr>b_lock := initsleeplock ''buffer''\<rparr>) (s\<lparr>bufs := push_buf b (bufs s)\<rparr>))
       [0..<n] (s\<lparr>bufs := set_next BHEAD BHEAD (set_prev BHEAD BHEAD (bufs s))\<rparr>)"
  have t: "bufs t = (push_buf n (bufs u))[n := (push_buf n (bufs u) ! n)\<lparr>b_lock := initsleeplock ''buffer''\<rparr>]"
    "disk t = disk u" "havedisk1 t = havedisk1 u" "ptable t = ptable u"
    using Suc.prems(2) by (simp_all add: u_def)
  have IH: "length (bufs u) = Suc NBUF" "ring (nxs (bufs u)) (pvs (bufs u)) (rev [0..<n])"
    "\<And>j. j < NBUF \<Longrightarrow> idle_buf (bufs u ! j)" "disk u = disk s" "havedisk1 u = havedisk1 s" "ptable u = ptable s"
    using Suc.IH [OF _ u_def] Suc.prems(1) by auto
  have "nxs (bufs u) BHEAD < length (bufs u)"
    using ring_head [OF IH(2)] IH(1) Suc.prems(1) by auto
  note L = links_push [OF this, of n]
  have "ring (nxs (push_buf n (bufs u))) (pvs (push_buf n (bufs u))) (n # rev [0..<n])"
    using ring_push [OF IH(2), of n] L IH(1) Suc.prems(1) by simp
  moreover have "idle_buf (bufs t ! j)" if "j < NBUF" for j
    using IH(3) [OF that] core_fields [OF core_push(2) [of n "bufs u" j]]
    by (cases "j = n") (auto simp: t nth_upd_if idle_buf_def initsleeplock_def)
  ultimately show ?case using IH by (simp add: t)
qed

lemma binit_ok:
  assumes "length (bufs s) = Suc NBUF" and "\<And>j. j < NBUF \<Longrightarrow> idle_buf (bufs s ! j)" and "havedisk1 s"
  shows "binv (binit s)" and "held_blks (binit s) = {}" and "dirty_blks (binit s) = {}" and "disk (binit s) = disk s"
    and "ptable (binit s) = ptable s"
proof -
  have B: "length (bufs (binit s)) = Suc NBUF" "ring (nxs (bufs (binit s))) (pvs (bufs (binit s))) (rev [0..<NBUF])"
    "\<And>j. j < NBUF \<Longrightarrow> idle_buf (bufs (binit s) ! j)" "disk (binit s) = disk s" "havedisk1 (binit s) = havedisk1 s" "ptable (binit s) = ptable s"
    using binit_loop [OF assms(1,2) order_refl binit_def] by auto
  then have "dll (bufs (binit s)) (rev [0..<NBUF])" by (auto simp: dll_def ring_def)
  then show "binv (binit s)"
    using B(3,5) assms(3) by (auto simp: binv_def buf_ok_def keys_unique_def keyed_def idle_buf_def)
  show "held_blks (binit s) = {}" "dirty_blks (binit s) = {}"
    using B(3) by (auto simp: held_blks_def dirty_blks_def idle_buf_def)
  show "disk (binit s) = disk s" "ptable (binit s) = ptable s" by (rule B(4), rule B(6))
qed

lemma unheld_clean:
  assumes "binv s" and "blk \<notin> held_blks s"
  shows "blk \<in> dirty_blks s \<or> blk_view s blk = disk s 1 blk"
proof (cases "\<exists>i < NBUF. keyed blk (bufs s ! i) \<and> b_valid (bufs s ! i)")
  case True
  then obtain i where i: "i < NBUF" "keyed blk (bufs s ! i)" "b_valid (bufs s ! i)" by blast
  then have "\<not> sl_locked (b_lock (bufs s ! i))" using assms(2) by (auto simp: held_blks_def)
  then show ?thesis
    using i binvD(4) [OF assms(1) i(1)] blk_view_cached [OF assms(1) i]
    by (auto simp: dirty_blks_def buf_ok_def keyed_def)
next
  case False
  then show ?thesis using blk_view_disk [OF assms(1)] by blast
qed

text \<open>
  C13. The buffer cache is transparent: with room left in the cache, reading a block that nobody
  holds succeeds, delivers the data last written to it (cached or on disk), whichever buffer is
  recycled for it, and releasing the buffer again leaves the contents of every block, the disk
  and the set of pinned blocks as they were and the recency list well linked.
\<close>

theorem bread_transparent:
  assumes "binv s" and "unat blk < FSSIZE" and "blk \<notin> held_blks s"
    and "card (dirty_blks s \<union> held_blks s) < NBUF" and "cur < length (ptable s)"
  shows "\<exists>i s1 s2. bread cur 1 blk s = Ret (i, s1) \<and> b_data (bufs s1 ! i) = blk_view s blk
    \<and> brelse cur i s1 = Ret s2 \<and> binv s2 \<and> blk_view s2 = blk_view s \<and> disk s2 = disk s
    \<and> held_blks s2 = held_blks s \<and> dirty_blks s2 = dirty_blks s"
proof -
  obtain i f where i: "bread cur 1 blk s = Ret (i, upd_buf i f s)" "binv (upd_buf i f s)"
    "blk_view (upd_buf i f s) = blk_view s" "dirty_blks (upd_buf i f s) = dirty_blks s"
    "held_blks (upd_buf i f s) = insert blk (held_blks s)" "has_buf cur (upd_buf i f s) i blk"
    "b_data (bufs (upd_buf i f s) ! i) = blk_view s blk"
    using bread_ok [OF assms(1-4), of cur] by blast
  from brelse_ok [OF i(2,6)] unheld_clean [OF assms(1,3)] i(3,4) assms(5)
  obtain s2 where "brelse cur i (upd_buf i f s) = Ret s2" "binv s2" "blk_view s2 = blk_view s"
    "held_blks s2 = insert blk (held_blks s) - {blk}" "dirty_blks s2 = dirty_blks s" "disk s2 = disk s"
    by (auto simp: i)
  with i(1,7) assms(3) show ?thesis by auto
qed

definition bst0 :: bst where
  "bst0 = \<lparr>mem = (\<lambda>_. 0), use_lock = True, freelist = 0, cpus = [cpu0], plock = initlock ''ptable'',
     ptable = replicate NPROC proc0, lastQueue = replicate NCPU 0, schedulingQueues = replicate 4 q_init,
     policy = POLICY_MLQ, initproc = Some 0, nextpid = 1, ticks = 0, infos = [], kpgdir = 0,
     bufs = replicate (Suc NBUF) \<lparr>b_valid = False, b_dirty = False, b_dev = 0, b_blockno = 0,
       b_lock = initsleeplock ''buffer'', b_refcnt = 0, b_prev = 0, b_next = 0, b_data = []\<rparr>,
     disk = (\<lambda>_ b. replicate BSIZE (ucast b)), havedisk1 = True, disk_log = []\<rparr>"

lemma bst0_ok:
  "binv (binit bst0)" "held_blks (binit bst0) = {}" "dirty_blks (binit bst0) = {}" "disk (binit bst0) = disk bst0"
  "ptable (binit bst0) = ptable bst0"
proof -
  have "length (bufs bst0) = Suc NBUF" "idle_buf (bufs bst0 ! j)" if "j < NBUF" for j
    using that by (simp_all add: bst0_def idle_buf_def initsleeplock_def del: replicate_Suc)
  then show "binv (binit bst0)" "held_blks (binit bst0) = {}" "dirty_blks (binit bst0) = {}"
    "disk (binit bst0) = disk bst0" "ptable (binit bst0) = ptable bst0"
    using binit_ok [of bst0] by (simp_all add: bst0_def NBUF_def MAXOPBLOCKS_def del: replicate_Suc)
qed

theorem bread_transparent_witness:
  "\<exists>i s1 s2. bread 0 1 7 (binit bst0) = Ret (i, s1) \<and> b_data (bufs s1 ! i) = blk_view (binit bst0) 7
    \<and> brelse 0 i s1 = Ret s2 \<and> binv s2"
  using bread_transparent [OF bst0_ok(1), of 7 0] bst0_ok
  by (auto simp: FSSIZE_def NBUF_def MAXOPBLOCKS_def bst0_def NPROC_def)

end
