(* ===== verification/Bytes.thy ===== *)
theory Bytes
  imports Memory
begin

unbundle bit_operations_syntax

text \<open>
  Little-endian integers in byte lists: the fields of the on-disk structures (log header,
  superblock, inodes, directory entries) as the kernel reads and writes them in a buffer's data.
\<close>

lemma unat_of_nat32: "n < 2 ^ 32 \<Longrightarrow> unat (of_nat n :: u32) = n"
  by (simp only: unsigned_of_nat) (simp add: take_bit_nat_eq_self)

lemma sint_of_nat32: "n < 2 ^ 31 \<Longrightarrow> sint (of_nat n :: u32) = int n"
  by (simp add: signed_of_nat signed_take_bit_int_eq_self)

definition get16 :: "u8 list \<Rightarrow> nat \<Rightarrow> u16" where
  "get16 d k = ucast (d ! k) OR push_bit 8 (ucast (d ! (k + 1)))"

definition put16 :: "u8 list \<Rightarrow> nat \<Rightarrow> u16 \<Rightarrow> u8 list" where
  "put16 d k v = d[k := ucast v, k + 1 := ucast (drop_bit 8 v)]"

definition get32 :: "u8 list \<Rightarrow> nat \<Rightarrow> u32" where
  "get32 d k = ucast (d ! k) OR push_bit 8 (ucast (d ! (k + 1)))
     OR push_bit 16 (ucast (d ! (k + 2))) OR push_bit 24 (ucast (d ! (k + 3)))"

definition put32 :: "u8 list \<Rightarrow> nat \<Rightarrow> u32 \<Rightarrow> u8 list" where
  "put32 d k v = d[k := ucast v, k + 1 := ucast (drop_bit 8 v),
     k + 2 := ucast (drop_bit 16 v), k + 3 := ucast (drop_bit 24 v)]"

lemma length_put [simp]: "length (put16 d k v) = length d" "length (put32 d k w) = length d"
  by (simp_all add: put16_def put32_def)

lemma bytes_of_half:
  fixes v :: u16
  shows "ucast (ucast v :: u8) OR push_bit 8 (ucast (ucast (drop_bit 8 v) :: u8)) = v" (is "?w = v")
proof (rule bit_word_eqI)
  fix n
  assume n: "n < LENGTH(16)"
  consider "n < 8" | "8 \<le> n" by linarith
  then show "bit ?w n = bit v n" using n by cases (auto simp: bit_simps)
qed

lemma get_put_same [simp]:
  "k + 2 \<le> length d \<Longrightarrow> get16 (put16 d k v) k = v"
  "k + 4 \<le> length d \<Longrightarrow> get32 (put32 d k w) k = w"
  by (simp_all add: get16_def put16_def bytes_of_half get32_def put32_def bytes_of_word)

lemma put32_nth: "j < k \<or> k + 4 \<le> j \<Longrightarrow> put32 d k v ! j = d ! j"
  by (elim disjE; simp add: put32_def)

lemma put16_nth: "j < k \<or> k + 2 \<le> j \<Longrightarrow> put16 d k v ! j = d ! j"
  by (elim disjE; simp add: put16_def)

lemma get_put_other:
  "(j + 4 \<le> k \<or> k + 4 \<le> j) \<Longrightarrow> get32 (put32 d k v) j = get32 d j"
  "(j + 4 \<le> k \<or> k + 2 \<le> j) \<Longrightarrow> get32 (put16 d k h) j = get32 d j"
  "(j + 2 \<le> k \<or> k + 4 \<le> j) \<Longrightarrow> get16 (put32 d k v) j = get16 d j"
  "(j + 2 \<le> k \<or> k + 2 \<le> j) \<Longrightarrow> get16 (put16 d k h) j = get16 d j"
  by (simp_all only: get32_def get16_def, ((subst put32_nth put16_nth, linarith)+, rule refl)+)

text \<open>A run of integers, as the block numbers of a log header or of an inode.\<close>

definition put32s :: "u8 list \<Rightarrow> nat \<Rightarrow> u32 list \<Rightarrow> u8 list" where
  "put32s d k vs = fold (\<lambda>(i, v) d. put32 d (k + 4 * i) v) (enumerate 0 vs) d"

definition get32s :: "u8 list \<Rightarrow> nat \<Rightarrow> nat \<Rightarrow> u32 list" where
  "get32s d k n = map (\<lambda>i. get32 d (k + 4 * i)) [0..<n]"

lemma put32s_snoc: "put32s d k (vs @ [v]) = put32 (put32s d k vs) (k + 4 * length vs) v"
  by (simp add: put32s_def enumerate_append_eq)

lemma length_put32s [simp]: "length (put32s d k vs) = length d"
  by (induction vs rule: rev_induct) (simp_all add: put32s_snoc, simp add: put32s_def)

lemma get32_put32s_before: "j + 4 \<le> k \<Longrightarrow> get32 (put32s d k vs) j = get32 d j"
  by (induction vs rule: rev_induct) (simp_all add: put32s_snoc get_put_other, simp add: put32s_def)

lemma get32_put32s:
  "k + 4 * length vs \<le> length d \<Longrightarrow> i < length vs \<Longrightarrow> get32 (put32s d k vs) (k + 4 * i) = vs ! i"
proof (induction vs rule: rev_induct)
  case Nil
  then show ?case by simp
next
  case (snoc v vs)
  show ?case
  proof (cases "i = length vs")
    case True
    then show ?thesis using snoc.prems by (simp add: put32s_snoc)
  next
    case False
    then have "i < length vs" using snoc.prems by simp
    then show ?thesis
      using snoc by (simp add: put32s_snoc nth_append get_put_other(1))
  qed
qed

lemma get32s_put32s: "k + 4 * length vs \<le> length d \<Longrightarrow> get32s (put32s d k vs) k (length vs) = vs"
  by (rule nth_equalityI) (simp_all add: get32s_def get32_put32s)

section \<open>Directory names and the result of stat\<close>

definition DIRSIZ :: nat where "DIRSIZ = 14"

text \<open>\<open>struct stat\<close>, shared by the kernel (\<open>stati\<close>) and the programs.\<close>

record statr =
  st_type :: s16
  st_dev :: s32
  st_ino :: u32
  st_nlink :: s16
  st_size :: u32

end
