(* ===== verification/Log.thy ===== *)
theory Log
  imports Bio Bytes
begin

text \<open>
  \<open>log.c\<close>, the redo log below the file system, and \<open>readsb\<close> of \<open>fs.c\<close>. The record \<open>lst\<close> adds the
  variable \<open>log\<close> to the state. The operations follow one process between the points where it
  waits; \<open>Block ChanLog\<close> is \<open>begin_op\<close> going to sleep. An access to \<open>log.lh.block\<close> beyond its
  \<open>LOGSIZE\<close> entries is \<open>Fault\<close>.

  The lemmas give each routine's effect on the blocks (\<open>blk_view\<close>), on the disk and on the sequence of
  disk writes. The property is crash atomicity: whatever prefix of the writes of \<open>commit\<close> reaches
  the disk, recovery from it leaves all home blocks as before the transaction, or all as after it.
\<close>

section \<open>State\<close>

record lst = bst +
  log_start :: s32
  log_size :: s32
  log_outstanding :: s32
  log_committing :: bool
  log_dev :: s32
  lh_n :: s32
  lh_block :: "u32 list"

text \<open>The number of iterations of a loop \<open>for (i = 0; i < n; i++)\<close> on an \<open>int n\<close>.\<close>

definition loop_count :: "s32 \<Rightarrow> nat" where
  "loop_count n = nat (sint n)"

section \<open>The super block\<close>

record superblock =
  sb_size :: u32
  sb_nblocks :: u32
  sb_ninodes :: u32
  sb_nlog :: u32
  sb_logstart :: u32
  sb_inodestart :: u32
  sb_bmapstart :: u32

definition dec_sb :: "u8 list \<Rightarrow> superblock" where
  "dec_sb d = \<lparr>sb_size = get32 d 0, sb_nblocks = get32 d 4, sb_ninodes = get32 d 8, sb_nlog = get32 d 12,
     sb_logstart = get32 d 16, sb_inodestart = get32 d 20, sb_bmapstart = get32 d 24\<rparr>"

definition readsb :: "nat \<Rightarrow> u32 \<Rightarrow> 'a bst_scheme \<Rightarrow> (superblock \<times> 'a bst_scheme) outcome" where
  "readsb cur dev s =
     obind (bread cur dev 1 s) (\<lambda>(bp, s).
     let sb = dec_sb (b_data (bufs s ! bp)) in
     obind (brelse cur bp s) (\<lambda>s. Ret (sb, s)))"

section \<open>Moving blocks between the log and their homes\<close>

text \<open>\<open>memmove(dst->data, src->data, BSIZE); bwrite(dst); brelse(src); brelse(dst);\<close>\<close>

definition move_block :: "nat \<Rightarrow> nat \<Rightarrow> nat \<Rightarrow> 'a bst_scheme \<Rightarrow> 'a bst_scheme outcome" where
  "move_block cur src dst s =
     obind (bwrite cur dst (upd_buf dst (\<lambda>b. b\<lparr>b_data := b_data (bufs s ! src)\<rparr>) s)) (\<lambda>s.
     obind (brelse cur src s) (brelse cur dst))"

definition install_step :: "nat \<Rightarrow> nat \<Rightarrow> 'a lst_scheme \<Rightarrow> 'a lst_scheme outcome" where
  "install_step cur tail s =
     (if tail \<ge> LOGSIZE then Fault
      else
        obind (bread cur (log_dev s) (log_start s + of_nat tail + 1) s) (\<lambda>(lbuf, s).
        obind (bread cur (log_dev s) (lh_block s ! tail) s) (\<lambda>(dbuf, s).
        move_block cur lbuf dbuf s)))"

definition install_trans :: "nat \<Rightarrow> 'a lst_scheme \<Rightarrow> 'a lst_scheme outcome" where
  "install_trans cur s = ofold (install_step cur) [0..<loop_count (lh_n s)] s"

definition write_log_step :: "nat \<Rightarrow> nat \<Rightarrow> 'a lst_scheme \<Rightarrow> 'a lst_scheme outcome" where
  "write_log_step cur tail s =
     (if tail \<ge> LOGSIZE then Fault
      else
        obind (bread cur (log_dev s) (log_start s + of_nat tail + 1) s) (\<lambda>(to, s).
        obind (bread cur (log_dev s) (lh_block s ! tail) s) (\<lambda>(from, s).
        move_block cur from to s)))"

definition write_log :: "nat \<Rightarrow> 'a lst_scheme \<Rightarrow> 'a lst_scheme outcome" where
  "write_log cur s = ofold (write_log_step cur) [0..<loop_count (lh_n s)] s"

section \<open>The header block\<close>

definition read_head :: "nat \<Rightarrow> 'a lst_scheme \<Rightarrow> 'a lst_scheme outcome" where
  "read_head cur s =
     obind (bread cur (log_dev s) (log_start s) s) (\<lambda>(bp, s).
     let lh = b_data (bufs s ! bp); n = get32 lh 0 in
     if loop_count n > LOGSIZE then Fault
     else brelse cur bp (s\<lparr>lh_n := n, lh_block := get32s lh 4 (loop_count n) @ drop (loop_count n) (lh_block s)\<rparr>))"

definition write_head :: "nat \<Rightarrow> 'a lst_scheme \<Rightarrow> 'a lst_scheme outcome" where
  "write_head cur s =
     obind (bread cur (log_dev s) (log_start s) s) (\<lambda>(bp, s).
     if loop_count (lh_n s) > LOGSIZE then Fault
     else
       let hb = put32s (put32 (b_data (bufs s ! bp)) 0 (lh_n s)) 4 (take (loop_count (lh_n s)) (lh_block s)) in
       obind (bwrite cur bp (upd_buf bp (\<lambda>b. b\<lparr>b_data := hb\<rparr>) s)) (brelse cur bp))"

definition recover_from_log :: "nat \<Rightarrow> 'a lst_scheme \<Rightarrow> 'a lst_scheme outcome" where
  "recover_from_log cur s =
     obind (read_head cur s) (\<lambda>s.
     obind (install_trans cur s) (\<lambda>s.
     write_head cur (s\<lparr>lh_n := 0\<rparr>)))"

definition initlog :: "nat \<Rightarrow> s32 \<Rightarrow> 'a lst_scheme \<Rightarrow> 'a lst_scheme outcome" where
  "initlog cur dev s =
     (if 4 + 4 * LOGSIZE \<ge> BSIZE then Panic ''initlog: too big logheader''
      else
        obind (readsb cur dev s) (\<lambda>(sb, s).
        recover_from_log cur (s\<lparr>log_start := sb_logstart sb, log_size := sb_nlog sb, log_dev := dev\<rparr>)))"

section \<open>Transactions\<close>

definition commit :: "nat \<Rightarrow> 'a lst_scheme \<Rightarrow> 'a lst_scheme outcome" where
  "commit cur s =
     (if 0 < sint (lh_n s) then
        obind (write_log cur s) (\<lambda>s.
        obind (write_head cur s) (\<lambda>s.
        obind (install_trans cur s) (\<lambda>s.
        write_head cur (s\<lparr>lh_n := 0\<rparr>))))
      else Ret s)"

definition begin_op :: "'a lst_scheme \<Rightarrow> 'a lst_scheme outcome" where
  "begin_op s =
     (if log_committing s then Block ChanLog
      else if sint (lh_n s + (log_outstanding s + 1) * of_nat MAXOPBLOCKS) > int LOGSIZE then Block ChanLog
      else Ret (s\<lparr>log_outstanding := log_outstanding s + 1\<rparr>))"

definition end_op :: "nat \<Rightarrow> 'a lst_scheme \<Rightarrow> 'a lst_scheme outcome" where
  "end_op cur s =
     (let s = s\<lparr>log_outstanding := log_outstanding s - 1\<rparr>
      in if log_committing s then Panic ''log.committing''
         else if log_outstanding s = 0 then
           obind (commit cur (s\<lparr>log_committing := True\<rparr>)) (\<lambda>s.
           Ret (wakeup ChanLog (s\<lparr>log_committing := False\<rparr>)))
         else Ret (wakeup ChanLog s))"

definition log_write :: "nat \<Rightarrow> 'a lst_scheme \<Rightarrow> 'a lst_scheme outcome" where
  "log_write b s =
     (if sint (lh_n s) \<ge> int LOGSIZE \<or> sint (lh_n s) \<ge> sint (log_size s - 1) then Panic ''too big a transaction''
      else if sint (log_outstanding s) < 1 then Panic ''log_write outside of trans''
      else
        let n = loop_count (lh_n s);
            blk = b_blockno (bufs s ! b);
            i = (case find_slot (\<lambda>x. x = blk) (take n (lh_block s)) of Some i \<Rightarrow> i | None \<Rightarrow> n);
            s = s\<lparr>lh_block := (lh_block s)[i := blk]\<rparr>;
            s = (if of_nat i = lh_n s then s\<lparr>lh_n := lh_n s + 1\<rparr> else s)
        in Ret (upd_buf b (\<lambda>x. x\<lparr>b_dirty := True\<rparr>) s))"

section \<open>Sequences of block writes\<close>

text \<open>
  \<open>wrote W s s'\<close>: between two states in which no buffer is held, exactly the writes \<open>W\<close> went to the
  disk and changed the blocks, and the blocks written are no longer dirty.
\<close>

definition upd_blks :: "(u32 \<times> u8 list) list \<Rightarrow> (u32 \<Rightarrow> u8 list) \<Rightarrow> u32 \<Rightarrow> u8 list" where
  "upd_blks W v = fold (\<lambda>(b, d) v. v(b := d)) W v"

definition quiet :: "nat \<Rightarrow> 'a bst_scheme \<Rightarrow> bool" where
  "quiet cur s \<longleftrightarrow> binv s \<and> held_blks s = {} \<and> cur < length (ptable s)"

definition wrote :: "nat \<Rightarrow> (u32 \<times> u8 list) list \<Rightarrow> 'a bst_scheme \<Rightarrow> 'b bst_scheme \<Rightarrow> bool" where
  "wrote cur W s s' \<longleftrightarrow> quiet cur s' \<and> blk_view s' = upd_blks W (blk_view s)
     \<and> disk s' = (disk s)(1 := upd_blks W (disk s 1))
     \<and> disk_log s' = disk_log s @ map (\<lambda>(b, d). (1, b, d)) W
     \<and> dirty_blks s' = dirty_blks s - fst ` set W"

lemma upd_blks_simps [simp]:
  "upd_blks [] v = v" "upd_blks ((b, d) # W) v = upd_blks W (v(b := d))"
  "upd_blks (W @ W') v = upd_blks W' (upd_blks W v)"
  by (simp_all add: upd_blks_def)

lemma upd_blks_other: "b \<notin> fst ` set W \<Longrightarrow> upd_blks W v b = v b"
  by (induction W arbitrary: v) auto

lemma wrote_Nil: "quiet cur s \<Longrightarrow> wrote cur [] s s"
  by (simp add: wrote_def)

lemma wrote_trans: "wrote cur W s t \<Longrightarrow> wrote cur W' t u \<Longrightarrow> wrote cur (W @ W') s u"
  by (simp add: wrote_def image_Un Diff_eq Int_assoc)

lemma wroteD:
  assumes "wrote cur W s s'"
  shows "quiet cur s'" "blk_view s' = upd_blks W (blk_view s)" "disk s' 1 = upd_blks W (disk s 1)"
    "disk_log s' = disk_log s @ map (\<lambda>(b, d). (1, b, d)) W" "dirty_blks s' = dirty_blks s - fst ` set W"
  using assms by (simp_all add: wrote_def)

lemma bread_first:
  assumes q: "quiet cur s" and x: "unat x < FSSIZE" and c: "card (dirty_blks s) < NBUF"
  shows "\<exists>i s1. bread cur 1 x s = Ret (i, s1) \<and> binv s1 \<and> blk_view s1 = blk_view s
    \<and> dirty_blks s1 = dirty_blks s \<and> held_blks s1 = {x} \<and> has_buf cur s1 i x \<and> b_data (bufs s1 ! i) = blk_view s x
    \<and> disk s1 = disk s \<and> disk_log s1 = disk_log s \<and> ptable s1 = ptable s \<and> bst.more s1 = bst.more s"
proof -
  obtain i f where "bread cur 1 x s = Ret (i, upd_buf i f s) \<and> \<not> sl_locked (b_lock (bufs s ! i))
    \<and> binv (upd_buf i f s) \<and> blk_view (upd_buf i f s) = blk_view s
    \<and> dirty_blks (upd_buf i f s) = dirty_blks s \<and> held_blks (upd_buf i f s) = insert x (held_blks s)
    \<and> has_buf cur (upd_buf i f s) i x \<and> b_data (bufs (upd_buf i f s) ! i) = blk_view s x"
    using bread_ok [of s x cur] assms unfolding quiet_def by auto
  then show ?thesis
    using q by (intro exI [of _ i] exI [of _ "upd_buf i f s"]) (simp add: quiet_def)
qed

lemma two_bufs:
  assumes q: "quiet cur s" and xy: "x \<noteq> y" "unat x < FSSIZE" "unat y < FSSIZE" and c: "Suc (card (dirty_blks s)) < NBUF"
  shows "\<exists>i j s1 s2. bread cur 1 x s = Ret (i, s1) \<and> bread cur 1 y s1 = Ret (j, s2) \<and> i \<noteq> j \<and> binv s2
    \<and> blk_view s2 = blk_view s \<and> dirty_blks s2 = dirty_blks s \<and> held_blks s2 = {x, y}
    \<and> has_buf cur s2 i x \<and> has_buf cur s2 j y \<and> disk s2 = disk s \<and> disk_log s2 = disk_log s
    \<and> ptable s2 = ptable s \<and> bst.more s1 = bst.more s \<and> bst.more s2 = bst.more s"
proof -
  obtain i s1 where 1: "bread cur 1 x s = Ret (i, s1)" "binv s1" "blk_view s1 = blk_view s"
    "dirty_blks s1 = dirty_blks s" "held_blks s1 = {x}" "has_buf cur s1 i x"
    "disk s1 = disk s" "disk_log s1 = disk_log s" "ptable s1 = ptable s" "bst.more s1 = bst.more s"
    using bread_first [OF q xy(2)] c by fastforce
  have "card (dirty_blks s1 \<union> held_blks s1) \<le> Suc (card (dirty_blks s))"
    by (simp add: 1(4,5) card_insert_le_m1)
  then have c1: "card (dirty_blks s1 \<union> held_blks s1) < NBUF" using c by simp
  have yh: "y \<notin> held_blks s1" using xy(1) 1(5) by simp
  obtain j f where 2: "bread cur 1 y s1 = Ret (j, upd_buf j f s1)" "\<not> sl_locked (b_lock (bufs s1 ! j))"
    "binv (upd_buf j f s1)" "blk_view (upd_buf j f s1) = blk_view s1"
    "dirty_blks (upd_buf j f s1) = dirty_blks s1" "held_blks (upd_buf j f s1) = insert y (held_blks s1)"
    "has_buf cur (upd_buf j f s1) j y"
    using bread_ok [OF 1(2) xy(3) yh c1, of cur] by blast
  have ij: "i \<noteq> j" using 1(6) 2(2) by (auto simp: has_buf_def holdingsleep_def)
  have "has_buf cur (upd_buf j f s1) i x"
    using 1(6) ij by (simp add: has_buf_def holdingsleep_def)
  then show ?thesis
    using 1 2 ij by (intro exI [of _ i] exI [of _ j] exI [of _ s1] exI [of _ "upd_buf j f s1"]) (simp add: insert_commute)
qed

lemma move_block_ok:
  assumes inv: "binv s" and hb: "has_buf cur s i x" "has_buf cur s j y" and xy: "i \<noteq> j" "x \<noteq> y"
    and held: "held_blks s = {x, y}" and cur: "cur < length (ptable s)"
    and clean: "x \<in> dirty_blks s \<or> blk_view s x = disk s 1 x"
  shows "\<exists>s'. move_block cur i j s = Ret s' \<and> wrote cur [(y, blk_view s x)] s s' \<and> bst.more s' = bst.more s"
proof -
  have i: "i < NBUF" "keyed x (bufs s ! i)" "b_valid (bufs s ! i)" using hb(1) by (simp_all add: has_buf_def)
  have vx: "b_data (bufs s ! i) = blk_view s x" using blk_view_cached [OF inv i] by simp
  define s1 where "s1 = upd_buf j (\<lambda>b. b\<lparr>b_data := blk_view s x\<rparr>) s"
  note D = set_data_ok [OF inv hb(2) s1_def]
  have same1: "disk s1 = disk s" "disk_log s1 = disk_log s" "ptable s1 = ptable s" "bst.more s1 = bst.more s"
    by (simp_all add: s1_def)
  have hb1: "has_buf cur s1 i x" "has_buf cur s1 j y" using hb D(4) by blast+
  obtain s2 where 2: "bwrite cur j s1 = Ret s2" "binv s2" "blk_view s2 = blk_view s1" "held_blks s2 = held_blks s1"
    "\<And>k b. has_buf cur s2 k b \<longleftrightarrow> has_buf cur s1 k b" "dirty_blks s2 = dirty_blks s1 - {y}"
    "disk s2 = (disk s1)(1 := (disk s1 1)(y := blk_view s1 y))"
    "disk_log s2 = disk_log s1 @ [(1, y, blk_view s1 y)]" "ptable s2 = ptable s1" "bst.more s2 = bst.more s1"
    using bwrite_ok [OF D(1) hb1(2)] by blast
  have c2: "x \<in> dirty_blks s2 \<or> blk_view s2 x = disk s2 1 x"
    using clean xy by (simp add: 2(3,6,7) D(2,5) same1)
  have hb2: "has_buf cur s2 i x" "has_buf cur s2 j y" using hb1 2(5) by blast+
  obtain s3 where 3: "brelse cur i s2 = Ret s3" "binv s3" "blk_view s3 = blk_view s2" "held_blks s3 = held_blks s2 - {x}"
    "\<And>k b. k \<noteq> i \<Longrightarrow> has_buf cur s2 k b \<Longrightarrow> has_buf cur s3 k b" "dirty_blks s3 = dirty_blks s2" "disk s3 = disk s2"
    "disk_log s3 = disk_log s2" "length (ptable s3) = length (ptable s2)" "bst.more s3 = bst.more s2"
    using brelse_ok [OF 2(2) hb2(1) c2] cur 2(9) same1(3) by auto
  have hb3: "has_buf cur s3 j y" using 3(5) [OF _ hb2(2)] xy(1) by blast
  have c3: "y \<in> dirty_blks s3 \<or> blk_view s3 y = disk s3 1 y" by (simp add: 3(3,7) 2(3,7))
  obtain s4 where 4: "brelse cur j s3 = Ret s4" "binv s4" "blk_view s4 = blk_view s3" "held_blks s4 = held_blks s3 - {y}"
    "dirty_blks s4 = dirty_blks s3" "disk s4 = disk s3"
    "disk_log s4 = disk_log s3" "length (ptable s4) = length (ptable s3)" "bst.more s4 = bst.more s3"
    using brelse_ok [OF 3(2) hb3 c3] cur 3(9) 2(9) same1(3) by auto
  have "move_block cur i j s = Ret s4"
    by (simp add: move_block_def vx flip: s1_def) (simp add: 2(1) 3(1) 4(1))
  moreover have "quiet cur s4"
    using cur held by (simp add: quiet_def 4(2,4,8) 3(4,9) 2(4,9) D(3) same1)
  moreover have "wrote cur [(y, blk_view s x)] s s4"
    unfolding wrote_def
    using \<open>quiet cur s4\<close> by (simp add: 4(3,5-7) 3(3,6-8) 2(3,6-8) D(2,5) same1)
  moreover have "bst.more s4 = bst.more s" by (simp add: 4(9) 3(10) 2(10) same1)
  ultimately show ?thesis by blast
qed

section \<open>The log's routines on a quiet cache\<close>

lemma log_fields:
  fixes s s' :: "'a lst_scheme"
  assumes "bst.more s' = bst.more s"
  shows "log_start s' = log_start s" "log_size s' = log_size s" "log_outstanding s' = log_outstanding s"
    "log_committing s' = log_committing s" "log_dev s' = log_dev s" "lh_n s' = lh_n s" "lh_block s' = lh_block s"
  using assms by (cases s; cases s'; simp)+

lemma cache_upd_log [simp]:
  fixes s :: "'a lst_scheme"
  shows "binv (s\<lparr>lh_n := n\<rparr>) = binv s" "binv (s\<lparr>lh_block := bs\<rparr>) = binv s" "binv (s\<lparr>log_outstanding := n\<rparr>) = binv s"
    "binv (s\<lparr>log_committing := c\<rparr>) = binv s"
    "blk_view (s\<lparr>lh_n := n\<rparr>) = blk_view s" "blk_view (s\<lparr>lh_block := bs\<rparr>) = blk_view s"
    "blk_view (s\<lparr>log_outstanding := n\<rparr>) = blk_view s" "blk_view (s\<lparr>log_committing := c\<rparr>) = blk_view s"
    "dirty_blks (s\<lparr>lh_n := n\<rparr>) = dirty_blks s" "dirty_blks (s\<lparr>lh_block := bs\<rparr>) = dirty_blks s"
    "dirty_blks (s\<lparr>log_outstanding := n\<rparr>) = dirty_blks s" "dirty_blks (s\<lparr>log_committing := c\<rparr>) = dirty_blks s"
    "held_blks (s\<lparr>lh_n := n\<rparr>) = held_blks s" "held_blks (s\<lparr>lh_block := bs\<rparr>) = held_blks s"
    "held_blks (s\<lparr>log_outstanding := n\<rparr>) = held_blks s" "held_blks (s\<lparr>log_committing := c\<rparr>) = held_blks s"
    "has_buf cur (s\<lparr>lh_n := n\<rparr>) = has_buf cur s" "has_buf cur (s\<lparr>lh_block := bs\<rparr>) = has_buf cur s"
    "has_buf cur (s\<lparr>log_outstanding := n\<rparr>) = has_buf cur s" "has_buf cur (s\<lparr>log_committing := c\<rparr>) = has_buf cur s"
  by (simp_all add: binv_def blk_view_def [abs_def] dirty_blks_def held_blks_def has_buf_def [abs_def] holdingsleep_def cong: option.case_cong)

text \<open>The blocks of the log, and the header's contents.\<close>

definition log_blk :: "'a lst_scheme \<Rightarrow> nat \<Rightarrow> u32" where
  "log_blk s t = log_start s + of_nat t + 1"

definition log_area :: "'a lst_scheme \<Rightarrow> u32 set" where
  "log_area s = insert (log_start s) (log_blk s ` {..<LOGSIZE})"

definition log_geom :: "'a lst_scheme \<Rightarrow> bool" where
  "log_geom s \<longleftrightarrow> log_dev s = 1 \<and> unat (log_start s) + LOGSIZE < FSSIZE"

definition trans :: "u32 list \<Rightarrow> 'a lst_scheme \<Rightarrow> bool" where
  "trans bs s \<longleftrightarrow> lh_n s = of_nat (length bs) \<and> length bs \<le> LOGSIZE \<and> take (length bs) (lh_block s) = bs
     \<and> (\<forall>b \<in> set bs. unat b < FSSIZE \<and> b \<notin> log_area s)"

definition hdr :: "u8 list \<Rightarrow> u32 list \<Rightarrow> u8 list" where
  "hdr d bs = put32s (put32 d 0 (of_nat (length bs))) 4 bs"

lemma loop_count_of_nat [simp]: "n \<le> LOGSIZE \<Longrightarrow> loop_count (of_nat n) = n"
  by (simp add: loop_count_def LOGSIZE_def MAXOPBLOCKS_def signed_of_nat signed_take_bit_int_eq_self)

lemma unat_log_blk:
  assumes "log_geom s" and "t < LOGSIZE"
  shows "unat (log_blk s t) = unat (log_start s) + t + 1"
proof -
  have "FSSIZE < 2 ^ 32" by (simp add: FSSIZE_def)
  then have small: "unat (log_start s) + t + 1 < 2 ^ 32"
    using assms unfolding log_geom_def by linarith
  have "log_blk s t = of_nat (unat (log_start s) + t + 1)" by (simp add: log_blk_def)
  then show ?thesis using unat_of_nat32 [OF small] by simp
qed

lemma log_blk_facts:
  assumes "log_geom s"
  shows "t < LOGSIZE \<Longrightarrow> unat (log_blk s t) < FSSIZE" and "unat (log_start s) < FSSIZE"
    and "t < LOGSIZE \<Longrightarrow> log_blk s t \<in> log_area s" and "log_start s \<in> log_area s"
    and "t < LOGSIZE \<Longrightarrow> log_blk s t \<noteq> log_start s"
    and "t < LOGSIZE \<Longrightarrow> u < LOGSIZE \<Longrightarrow> log_blk s t = log_blk s u \<Longrightarrow> t = u"
proof -
  note U = unat_log_blk [OF assms]
  have L: "unat (log_start s) + LOGSIZE < FSSIZE" using assms by (simp add: log_geom_def)
  show "t < LOGSIZE \<Longrightarrow> unat (log_blk s t) < FSSIZE" "unat (log_start s) < FSSIZE"
    using U [of t] L by linarith+
  show "t < LOGSIZE \<Longrightarrow> log_blk s t \<in> log_area s" "log_start s \<in> log_area s"
    by (simp_all add: log_area_def)
  show "log_blk s t \<noteq> log_start s" if "t < LOGSIZE"
  proof
    assume "log_blk s t = log_start s"
    then have "unat (log_blk s t) = unat (log_start s)" by (rule arg_cong)
    with U [OF that] show False by linarith
  qed
  show "t = u" if "t < LOGSIZE" "u < LOGSIZE" "log_blk s t = log_blk s u"
    using U [OF that(1)] U [OF that(2)] arg_cong [OF that(3), of unat] by linarith
qed

lemma wrote_loop:
  assumes q: "quiet cur s"
    and step: "\<And>t u. t < n \<Longrightarrow> wrote cur (map W [0..<t]) s u \<Longrightarrow> bst.more u = bst.more s \<Longrightarrow>
      \<exists>u'. f t u = Ret u' \<and> wrote cur [W t] u u' \<and> bst.more u' = bst.more u"
  shows "\<exists>s'. ofold f [0..<n] s = Ret s' \<and> wrote cur (map W [0..<n]) s s' \<and> bst.more s' = bst.more s"
  using step
proof (induction n)
  case 0
  show ?case using q by (simp add: wrote_Nil)
next
  case (Suc n)
  then obtain u where u: "ofold f [0..<n] s = Ret u" "wrote cur (map W [0..<n]) s u" "bst.more u = bst.more s"
    by (metis less_SucI)
  obtain u' where u': "f n u = Ret u'" "wrote cur [W n] u u'" "bst.more u' = bst.more u"
    using Suc.prems [OF lessI u(2,3)] by blast
  have "wrote cur (map W [0..<Suc n]) s u'" using wrote_trans [OF u(2) u'(2)] by simp
  then show ?case using u u' by (simp add: ofold_append)
qed

lemma copy_through:
  assumes q: "quiet cur s" and xy: "x \<noteq> y" "unat x < FSSIZE" "unat y < FSSIZE" and c: "Suc (card (dirty_blks s)) < NBUF"
  obtains (bufs) i j s1 s2 where "bread cur 1 x s = Ret (i, s1)" "bread cur 1 y s1 = Ret (j, s2)" "bst.more s1 = bst.more s"
    "\<exists>s'. move_block cur i j s2 = Ret s' \<and> wrote cur [(y, blk_view s x)] s s' \<and> bst.more s' = bst.more s"
    "\<exists>s'. move_block cur j i s2 = Ret s' \<and> wrote cur [(x, blk_view s y)] s s' \<and> bst.more s' = bst.more s"
proof -
  obtain i j s1 s2 where B: "bread cur 1 x s = Ret (i, s1)" "bread cur 1 y s1 = Ret (j, s2)" "i \<noteq> j" "binv s2"
    "blk_view s2 = blk_view s" "dirty_blks s2 = dirty_blks s" "held_blks s2 = {x, y}"
    "has_buf cur s2 i x" "has_buf cur s2 j y" "disk s2 = disk s" "disk_log s2 = disk_log s"
    "ptable s2 = ptable s" "bst.more s1 = bst.more s" "bst.more s2 = bst.more s"
    using two_bufs [OF q xy c] by blast
  have cl: "b \<in> dirty_blks s2 \<or> blk_view s2 b = disk s2 1 b" for b
    using unheld_clean [of s b] q B(5,6,10) by (simp add: quiet_def)
  have cur: "cur < length (ptable s2)" using q B(12) by (simp add: quiet_def)
  have W: "wrote cur W s2 s' \<longleftrightarrow> wrote cur W s s'" for W and s' :: "'a bst_scheme"
    by (simp add: wrote_def B(5,6,10,11))
  have "\<exists>s'. move_block cur i j s2 = Ret s' \<and> wrote cur [(y, blk_view s x)] s s' \<and> bst.more s' = bst.more s"
    using move_block_ok [OF B(4,8,9,3) xy(1) B(7) cur cl] by (simp add: W B(5,14))
  moreover have "\<exists>s'. move_block cur j i s2 = Ret s' \<and> wrote cur [(x, blk_view s y)] s s' \<and> bst.more s' = bst.more s"
    using move_block_ok [OF B(4,9,8) B(3) [symmetric] xy(1) [symmetric] _ cur cl] B(7) by (simp add: W B(5,14) insert_commute)
  ultimately show ?thesis using bufs [OF B(1,2,13)] by blast
qed

definition log_writes :: "u32 list \<Rightarrow> 'a lst_scheme \<Rightarrow> (u32 \<times> u8 list) list" where
  "log_writes bs s = map (\<lambda>t. (log_blk s t, blk_view s (bs ! t))) [0..<length bs]"

definition home_writes :: "u32 list \<Rightarrow> 'a lst_scheme \<Rightarrow> (u32 \<times> u8 list) list" where
  "home_writes bs s = map (\<lambda>t. (bs ! t, blk_view s (log_blk s t))) [0..<length bs]"

lemma transD:
  assumes "trans bs s" and "t < length bs"
  shows "t < LOGSIZE" "lh_block s ! t = bs ! t" "unat (bs ! t) < FSSIZE" "bs ! t \<notin> log_area s"
proof -
  have "take (length bs) (lh_block s) ! t = bs ! t" using assms by (simp add: trans_def)
  then show "lh_block s ! t = bs ! t" using assms(2) by simp
  show "t < LOGSIZE" "unat (bs ! t) < FSSIZE" "bs ! t \<notin> log_area s" using assms by (simp_all add: trans_def)
qed

lemma finite_dirty: "finite (dirty_blks s)"
proof (rule finite_subset)
  show "dirty_blks s \<subseteq> (\<lambda>i. b_blockno (bufs s ! i)) ` {..<NBUF}"
    by (auto simp: dirty_blks_def keyed_def)
qed simp

lemma card_after:
  assumes "wrote cur W s u"
  shows "card (dirty_blks u) \<le> card (dirty_blks s)"
proof -
  have "finite (dirty_blks s)" by (rule finite_dirty)
  then show ?thesis using wroteD(5) [OF assms] by (simp add: card_mono)
qed

lemma write_log_ok:
  assumes q: "quiet cur s" and g: "log_geom s" and t: "trans bs s" and c: "Suc (card (dirty_blks s)) < NBUF"
  shows "\<exists>s'. write_log cur s = Ret s' \<and> wrote cur (log_writes bs s) s s' \<and> bst.more s' = bst.more s"
proof -
  have "\<exists>u'. write_log_step cur k u = Ret u' \<and> wrote cur [(log_blk s k, blk_view s (bs ! k))] u u' \<and> bst.more u' = bst.more u"
    if k: "k < length bs" and u: "wrote cur (map (\<lambda>t. (log_blk s t, blk_view s (bs ! t))) [0..<k]) s u" "bst.more u = bst.more s" for k u
  proof -
    note T = transD [OF t k] and F = log_fields [OF u(2)] and L = log_blk_facts [OF g]
    have ne: "log_blk s k \<noteq> bs ! k" using L(3) [OF T(1)] T(4) by metis
    have cu: "Suc (card (dirty_blks u)) < NBUF" using card_after [OF u(1)] c by linarith
    have v: "blk_view u (bs ! k) = blk_view s (bs ! k)"
      unfolding wroteD(2) [OF u(1)] using T(1,4) L(3) k
      by (intro upd_blks_other) (auto simp: log_area_def)
    obtain i j s1 s2 where B: "bread cur 1 (log_blk s k) u = Ret (i, s1)" "bread cur 1 (bs ! k) s1 = Ret (j, s2)"
      "bst.more s1 = bst.more u"
      "\<exists>s'. move_block cur i j s2 = Ret s' \<and> wrote cur [(bs ! k, blk_view u (log_blk s k))] u s' \<and> bst.more s' = bst.more u"
      "\<exists>s'. move_block cur j i s2 = Ret s' \<and> wrote cur [(log_blk s k, blk_view u (bs ! k))] u s' \<and> bst.more s' = bst.more u"
      by (rule copy_through [OF wroteD(1) [OF u(1)] ne L(1) [OF T(1)] T(3) cu])
    have "write_log_step cur k u = move_block cur j i s2"
      using T(1,2) g B(1,2) by (simp add: write_log_step_def F log_fields [OF B(3)] log_geom_def flip: log_blk_def)
    then show ?thesis using B(5) v by simp
  qed
  from wrote_loop [OF q this] show ?thesis
    using t by (simp add: write_log_def log_writes_def trans_def)
qed

lemma install_trans_ok:
  assumes q: "quiet cur s" and g: "log_geom s" and t: "trans bs s" and c: "Suc (card (dirty_blks s)) < NBUF"
  shows "\<exists>s'. install_trans cur s = Ret s' \<and> wrote cur (home_writes bs s) s s' \<and> bst.more s' = bst.more s"
proof -
  have "\<exists>u'. install_step cur k u = Ret u' \<and> wrote cur [(bs ! k, blk_view s (log_blk s k))] u u' \<and> bst.more u' = bst.more u"
    if k: "k < length bs" and u: "wrote cur (map (\<lambda>t. (bs ! t, blk_view s (log_blk s t))) [0..<k]) s u" "bst.more u = bst.more s" for k u
  proof -
    note T = transD [OF t k] and F = log_fields [OF u(2)] and L = log_blk_facts [OF g]
    have ne: "log_blk s k \<noteq> bs ! k" using L(3) [OF T(1)] T(4) by metis
    have cu: "Suc (card (dirty_blks u)) < NBUF" using card_after [OF u(1)] c by linarith
    have "log_blk s k \<noteq> bs ! l" if "l < k" for l
      using transD(4) [OF t] L(3) [OF T(1)] that k by (metis less_trans)
    then have v: "blk_view u (log_blk s k) = blk_view s (log_blk s k)"
      unfolding wroteD(2) [OF u(1)] by (intro upd_blks_other) force
    obtain i j s1 s2 where B: "bread cur 1 (log_blk s k) u = Ret (i, s1)" "bread cur 1 (bs ! k) s1 = Ret (j, s2)"
      "bst.more s1 = bst.more u"
      "\<exists>s'. move_block cur i j s2 = Ret s' \<and> wrote cur [(bs ! k, blk_view u (log_blk s k))] u s' \<and> bst.more s' = bst.more u"
      "\<exists>s'. move_block cur j i s2 = Ret s' \<and> wrote cur [(log_blk s k, blk_view u (bs ! k))] u s' \<and> bst.more s' = bst.more u"
      by (rule copy_through [OF wroteD(1) [OF u(1)] ne L(1) [OF T(1)] T(3) cu])
    have "install_step cur k u = move_block cur i j s2"
      using T(1,2) g B(1,2) by (simp add: install_step_def F log_fields [OF B(3)] log_geom_def flip: log_blk_def)
    then show ?thesis using B(4) v by simp
  qed
  from wrote_loop [OF q this] show ?thesis
    using t by (simp add: install_trans_def home_writes_def trans_def)
qed

lemma put_through:
  assumes q: "quiet cur s" and x: "unat x < FSSIZE" and c: "card (dirty_blks s) < NBUF"
  obtains (buf) i s1 where "bread cur 1 x s = Ret (i, s1)" "bst.more s1 = bst.more s" "b_data (bufs s1 ! i) = blk_view s x"
    "\<And>d. \<exists>s'. obind (bwrite cur i (upd_buf i (\<lambda>b. b\<lparr>b_data := d\<rparr>) s1)) (brelse cur i) = Ret s'
       \<and> wrote cur [(x, d)] s s' \<and> bst.more s' = bst.more s"
    "\<exists>s'. brelse cur i s1 = Ret s' \<and> wrote cur [] s s' \<and> bst.more s' = bst.more s"
    "binv s1" "has_buf cur s1 i x" "blk_view s1 = blk_view s" "dirty_blks s1 = dirty_blks s" "held_blks s1 = {x}"
    "disk s1 = disk s" "disk_log s1 = disk_log s" "ptable s1 = ptable s"
proof -
  obtain i s1 where 1: "bread cur 1 x s = Ret (i, s1)" "binv s1" "blk_view s1 = blk_view s" "dirty_blks s1 = dirty_blks s"
    "held_blks s1 = {x}" "has_buf cur s1 i x" "b_data (bufs s1 ! i) = blk_view s x"
    "disk s1 = disk s" "disk_log s1 = disk_log s" "ptable s1 = ptable s" "bst.more s1 = bst.more s"
    using bread_first [OF q x c] by blast
  have cur: "cur < length (ptable s1)" using q by (simp add: quiet_def 1(10))
  have W: "\<exists>s'. obind (bwrite cur i (upd_buf i (\<lambda>b. b\<lparr>b_data := d\<rparr>) s1)) (brelse cur i) = Ret s'
       \<and> wrote cur [(x, d)] s s' \<and> bst.more s' = bst.more s" for d
  proof -
    define s2 where "s2 = upd_buf i (\<lambda>b. b\<lparr>b_data := d\<rparr>) s1"
    note D = set_data_ok [OF 1(2,6) s2_def]
    have same: "disk s2 = disk s" "disk_log s2 = disk_log s" "ptable s2 = ptable s1" "bst.more s2 = bst.more s"
      by (simp_all add: s2_def 1(8-11))
    have hb: "has_buf cur s2 i x" using D(4) 1(6) by blast
    obtain s3 where 3: "bwrite cur i s2 = Ret s3" "binv s3" "blk_view s3 = blk_view s2" "held_blks s3 = held_blks s2"
      "\<And>k b. has_buf cur s3 k b \<longleftrightarrow> has_buf cur s2 k b" "dirty_blks s3 = dirty_blks s2 - {x}"
      "disk s3 = (disk s2)(1 := (disk s2 1)(x := blk_view s2 x))"
      "disk_log s3 = disk_log s2 @ [(1, x, blk_view s2 x)]" "ptable s3 = ptable s2" "bst.more s3 = bst.more s2"
      using bwrite_ok [OF D(1) hb] by blast
    have c3: "x \<in> dirty_blks s3 \<or> blk_view s3 x = disk s3 1 x" by (simp add: 3(3,7))
    have hb3: "has_buf cur s3 i x" using hb 3(5) by blast
    have cur3: "cur < length (ptable s3)" using cur by (simp add: 3(9) same)
    obtain s4 where 4: "brelse cur i s3 = Ret s4" "binv s4" "blk_view s4 = blk_view s3" "held_blks s4 = held_blks s3 - {x}"
      "dirty_blks s4 = dirty_blks s3" "disk s4 = disk s3"
      "disk_log s4 = disk_log s3" "length (ptable s4) = length (ptable s3)" "bst.more s4 = bst.more s3"
      using brelse_ok [OF 3(2) hb3 c3 cur3] by blast
    have "quiet cur s4" using cur3 by (simp add: quiet_def 4(2,4,8) 3(4) D(3) 1(5))
    then have "wrote cur [(x, d)] s s4"
      unfolding wrote_def by (simp add: 4(3,5-7) 3(3,6-8) D(2,5) same 1(3,4))
    then show ?thesis unfolding s2_def [symmetric] by (simp add: 3(1,10) 4(1,9) same(4))
  qed
  have cl: "x \<in> dirty_blks s1 \<or> blk_view s1 x = disk s1 1 x"
    using unheld_clean [of s x] q by (simp add: quiet_def 1(3,4,8))
  obtain s' where 2: "brelse cur i s1 = Ret s'" "binv s'" "blk_view s' = blk_view s1" "held_blks s' = held_blks s1 - {x}"
      "dirty_blks s' = dirty_blks s1" "disk s' = disk s1"
      "disk_log s' = disk_log s1" "length (ptable s') = length (ptable s1)" "bst.more s' = bst.more s1"
    using brelse_ok [OF 1(2,6) cl cur] by blast
  have "wrote cur [] s s'" using cur by (simp add: wrote_def quiet_def 2(2-8) 1(3-5,8,9))
  then have R: "\<exists>s'. brelse cur i s1 = Ret s' \<and> wrote cur [] s s' \<and> bst.more s' = bst.more s"
    using 2(1,9) 1(11) by auto
  show ?thesis by (rule buf [OF 1(1,11,7) W R 1(2,6,3,4,5,8,9,10)])
qed

lemma write_head_ok:
  assumes q: "quiet cur s" and g: "log_geom s" and t: "trans bs s" and c: "card (dirty_blks s) < NBUF"
  shows "\<exists>s'. write_head cur s = Ret s' \<and> wrote cur [(log_start s, hdr (blk_view s (log_start s)) bs)] s s'
    \<and> bst.more s' = bst.more s"
proof -
  obtain i s1 where 1: "bread cur 1 (log_start s) s = Ret (i, s1)" "bst.more s1 = bst.more s"
    "b_data (bufs s1 ! i) = blk_view s (log_start s)"
    and W: "\<And>d. \<exists>s'. obind (bwrite cur i (upd_buf i (\<lambda>b. b\<lparr>b_data := d\<rparr>) s1)) (brelse cur i) = Ret s'
       \<and> wrote cur [(log_start s, d)] s s' \<and> bst.more s' = bst.more s"
    by (rule put_through [OF q log_blk_facts(2) [OF g] c], rule that)
  have "write_head cur s
    = obind (bwrite cur i (upd_buf i (\<lambda>b. b\<lparr>b_data := hdr (blk_view s (log_start s)) bs\<rparr>) s1)) (brelse cur i)"
    using g t by (simp add: write_head_def log_geom_def trans_def 1 log_fields [OF 1(2)] hdr_def Let_def)
  then show ?thesis using W by simp
qed

lemma quiet_upd [simp]:
  fixes s :: "'a lst_scheme"
  shows "quiet cur (s\<lparr>lh_n := n\<rparr>) = quiet cur s" "quiet cur (s\<lparr>log_outstanding := n\<rparr>) = quiet cur s"
    "quiet cur (s\<lparr>log_committing := c\<rparr>) = quiet cur s"
  by (simp_all add: quiet_def)

lemma read_head_ok:
  assumes q: "quiet cur s" and g: "log_geom s" and c: "card (dirty_blks s) < NBUF"
    and n: "get32 (blk_view s (log_start s)) 0 = of_nat n" "n \<le> LOGSIZE"
    and bs: "bs = get32s (blk_view s (log_start s)) 4 n"
  shows "\<exists>s'. read_head cur s = Ret s' \<and> wrote cur [] s s' \<and> log_start s' = log_start s \<and> log_dev s' = log_dev s
    \<and> lh_n s' = of_nat n \<and> lh_block s' = bs @ drop n (lh_block s)"
proof -
  obtain i s1 where 1: "bread cur 1 (log_start s) s = Ret (i, s1)" "bst.more s1 = bst.more s"
    "b_data (bufs s1 ! i) = blk_view s (log_start s)"
    "binv s1" "has_buf cur s1 i (log_start s)" "blk_view s1 = blk_view s" "dirty_blks s1 = dirty_blks s" "held_blks s1 = {log_start s}"
    "disk s1 = disk s" "disk_log s1 = disk_log s" "ptable s1 = ptable s"
    by (rule put_through [OF q log_blk_facts(2) [OF g] c], rule that)
  define s2 where "s2 = s1\<lparr>lh_n := of_nat n, lh_block := bs @ drop n (lh_block s)\<rparr>"
  have 2: "binv s2" "has_buf cur s2 i (log_start s)" "blk_view s2 = blk_view s" "dirty_blks s2 = dirty_blks s"
    "held_blks s2 = {log_start s}" "disk s2 = disk s" "disk_log s2 = disk_log s" "ptable s2 = ptable s"
    by (simp_all add: s2_def 1)
  have cl: "log_start s \<in> dirty_blks s2 \<or> blk_view s2 (log_start s) = disk s2 1 (log_start s)"
    using unheld_clean [of s "log_start s"] q by (simp add: quiet_def 2)
  have cur: "cur < length (ptable s2)" using q by (simp add: quiet_def 2)
  obtain s' where 3: "brelse cur i s2 = Ret s'" "binv s'" "blk_view s' = blk_view s2" "held_blks s' = held_blks s2 - {log_start s}"
      "dirty_blks s' = dirty_blks s2" "disk s' = disk s2"
      "disk_log s' = disk_log s2" "length (ptable s') = length (ptable s2)" "bst.more s' = bst.more s2"
    using brelse_ok [OF 2(1,2) cl cur] by blast
  have "read_head cur s = brelse cur i s2"
    using g n by (simp add: read_head_def log_geom_def 1(1,3) Let_def s2_def bs log_fields [OF 1(2)])
  moreover have "wrote cur [] s s'" using cur by (simp add: wrote_def quiet_def 3(2-8) 2(3-8))
  moreover have "log_start s' = log_start s \<and> log_dev s' = log_dev s \<and> lh_n s' = of_nat n \<and> lh_block s' = bs @ drop n (lh_block s)"
    by (simp add: log_fields [OF 3(9)]) (simp add: s2_def log_fields [OF 1(2)])
  ultimately show ?thesis using 3(1) by auto
qed

text \<open>What a block holds after a sequence of writes to different blocks.\<close>

lemma upd_blks_map:
  assumes "inj_on f {..<n}" and "t < n"
  shows "upd_blks (map (\<lambda>t. (f t, g t)) [0..<n]) v (f t) = g t"
  using assms
proof (induction n)
  case 0
  then show ?case by simp
next
  case (Suc n)
  show ?case
  proof (cases "t = n")
    case False
    then have t: "t < n" using Suc.prems(2) by simp
    have "f t \<noteq> f n"
      using inj_onD [OF Suc.prems(1), of t n] t by auto
    then show ?thesis using Suc.IH [OF inj_on_subset [OF Suc.prems(1)] t] by auto
  qed simp
qed

lemma hdr_get:
  assumes "length d = BSIZE" and "length bs \<le> LOGSIZE"
  shows "get32 (hdr d bs) 0 = of_nat (length bs)" and "get32s (hdr d bs) 4 (length bs) = bs" and "length (hdr d bs) = BSIZE"
proof -
  have l: "4 + 4 * length bs \<le> length (put32 d 0 (of_nat (length bs)))"
    using assms by (simp add: BSIZE_def LOGSIZE_def MAXOPBLOCKS_def)
  show "get32 (hdr d bs) 0 = of_nat (length bs)"
    using assms(1) by (simp add: hdr_def get32_put32s_before BSIZE_def)
  show "get32s (hdr d bs) 4 (length bs) = bs" unfolding hdr_def by (rule get32s_put32s [OF l])
  show "length (hdr d bs) = BSIZE" by (simp add: hdr_def assms(1))
qed

section \<open>Recovery and commit\<close>

lemma wrote_upd [simp]:
  fixes s :: "'a lst_scheme" and s' :: "'b bst_scheme"
  shows "wrote cur W (s\<lparr>lh_n := n\<rparr>) s' = wrote cur W s s'"
    "wrote cur W (s\<lparr>log_outstanding := n\<rparr>) s' = wrote cur W s s'"
    "wrote cur W (s\<lparr>log_committing := c\<rparr>) s' = wrote cur W s s'"
  by (simp_all add: wrote_def)

lemma log_area_cong: "log_start s' = log_start s \<Longrightarrow> log_area s' = log_area s \<and> log_blk s' = log_blk s"
  by (auto simp: log_area_def log_blk_def fun_eq_iff)

lemma log_geom_cong: "log_start s' = log_start s \<Longrightarrow> log_dev s' = log_dev s \<Longrightarrow> log_geom s' = log_geom s"
  by (simp add: log_geom_def)

text \<open>The last two steps of both: install the blocks, then clear the header.\<close>

lemma install_clear:
  assumes q: "quiet cur s" and g: "log_geom s" and t: "trans bs s" and c: "Suc (card (dirty_blks s)) < NBUF"
  shows "\<exists>s'. obind (install_trans cur s) (\<lambda>s. write_head cur (s\<lparr>lh_n := 0\<rparr>)) = Ret s'
    \<and> wrote cur (home_writes bs s @ [(log_start s, hdr (blk_view s (log_start s)) [])]) s s'
    \<and> bst.more s' = bst.more (s\<lparr>lh_n := 0\<rparr>)"
proof -
  obtain s1 where 1: "install_trans cur s = Ret s1" "wrote cur (home_writes bs s) s s1" "bst.more s1 = bst.more s"
    using install_trans_ok [OF q g t c] by blast
  have g1: "log_geom (s1\<lparr>lh_n := 0\<rparr>)" using g by (simp add: log_geom_def log_fields [OF 1(3)])
  have q1: "quiet cur (s1\<lparr>lh_n := 0\<rparr>)" using wroteD(1) [OF 1(2)] by simp
  have t1: "trans [] (s1\<lparr>lh_n := 0\<rparr>)" by (simp add: trans_def)
  have c1: "card (dirty_blks (s1\<lparr>lh_n := 0\<rparr>)) < NBUF" using card_after [OF 1(2)] c by simp
  have "log_start s \<notin> fst ` set (home_writes bs s)"
    using transD(4) [OF t] log_blk_facts(4) [OF g] by (force simp: home_writes_def)
  then have v: "blk_view s1 (log_start s) = blk_view s (log_start s)"
    unfolding wroteD(2) [OF 1(2)] by (rule upd_blks_other)
  obtain s2 where 2: "write_head cur (s1\<lparr>lh_n := 0\<rparr>) = Ret s2"
    "wrote cur [(log_start s, hdr (blk_view s (log_start s)) [])] s1 s2" "bst.more s2 = bst.more (s1\<lparr>lh_n := 0\<rparr>)"
    using write_head_ok [OF q1 g1 t1 c1] v by (auto simp: log_fields [OF 1(3)])
  have "bst.more (s1\<lparr>lh_n := 0\<rparr>) = bst.more (s\<lparr>lh_n := 0\<rparr>)" using 1(3) by (cases s; cases s1) simp
  then show ?thesis using wrote_trans [OF 1(2) 2(2)] 1(1) 2(1,3) by simp
qed

lemma recover_ok:
  assumes q: "quiet cur s" and g: "log_geom s" and c: "Suc (card (dirty_blks s)) < NBUF"
    and h: "get32 (blk_view s (log_start s)) 0 = of_nat (length bs)" "length bs \<le> LOGSIZE"
      "get32s (blk_view s (log_start s)) 4 (length bs) = bs" "\<And>b. b \<in> set bs \<Longrightarrow> unat b < FSSIZE \<and> b \<notin> log_area s"
  shows "\<exists>s'. recover_from_log cur s = Ret s'
    \<and> wrote cur (home_writes bs s @ [(log_start s, hdr (blk_view s (log_start s)) [])]) s s' \<and> lh_n s' = 0"
proof -
  have c': "card (dirty_blks s) < NBUF" using c by simp
  obtain s1 where 1: "read_head cur s = Ret s1" "wrote cur [] s s1" "log_start s1 = log_start s" "log_dev s1 = log_dev s"
    "lh_n s1 = of_nat (length bs)" "lh_block s1 = bs @ drop (length bs) (lh_block s)"
    using read_head_ok [OF q g c' h(1,2) h(3) [symmetric]] by blast
  have g1: "log_geom s1" using g log_geom_cong [OF 1(3,4)] by simp
  have A: "log_area s1 = log_area s" "log_blk s1 = log_blk s" using log_area_cong [OF 1(3)] by simp_all
  have t1: "trans bs s1" using h(2,4) by (simp add: trans_def 1(5,6) A)
  have v: "blk_view s1 = blk_view s" "dirty_blks s1 = dirty_blks s" using wroteD(2,5) [OF 1(2)] by simp_all
  have hw: "home_writes bs s1 = home_writes bs s" by (simp add: home_writes_def v A)
  obtain s2 where 2: "obind (install_trans cur s1) (\<lambda>s. write_head cur (s\<lparr>lh_n := 0\<rparr>)) = Ret s2"
    "wrote cur (home_writes bs s @ [(log_start s, hdr (blk_view s (log_start s)) [])]) s1 s2"
    "bst.more s2 = bst.more (s1\<lparr>lh_n := 0\<rparr>)"
    using install_clear [OF wroteD(1) [OF 1(2)] g1 t1] c unfolding v hw 1(3) by blast
  have "lh_n s2 = 0" using log_fields(6) [OF 2(3)] by simp
  moreover have "recover_from_log cur s = Ret s2" by (simp add: recover_from_log_def 1(1) 2(1))
  ultimately show ?thesis using wrote_trans [OF 1(2) 2(2)] by auto
qed

definition commit_writes :: "u32 list \<Rightarrow> 'a lst_scheme \<Rightarrow> (u32 \<times> u8 list) list" where
  "commit_writes bs s = log_writes bs s @ [(log_start s, hdr (blk_view s (log_start s)) bs)]
     @ map (\<lambda>b. (b, blk_view s b)) bs @ [(log_start s, hdr (hdr (blk_view s (log_start s)) bs) [])]"

lemma log_writes_view:
  assumes g: "log_geom s" and t: "trans bs s" and W: "W = log_writes bs s @ [(log_start s, d)]"
  shows "t < length bs \<Longrightarrow> upd_blks W v (log_blk s t) = blk_view s (bs ! t)"
    and "b \<notin> log_area s \<Longrightarrow> upd_blks (take k W) v b = v b"
    and "upd_blks (log_writes bs s) v (log_start s) = v (log_start s)"
proof -
  have "inj_on (log_blk s) {..<length bs}"
    using log_blk_facts(6) [OF g] transD(1) [OF t] by (intro inj_onI) auto
  from upd_blks_map [OF this, of t "\<lambda>t. blk_view s (bs ! t)" v]
  show "t < length bs \<Longrightarrow> upd_blks W v (log_blk s t) = blk_view s (bs ! t)"
    using log_blk_facts(5) [OF g transD(1) [OF t]] by (simp add: W log_writes_def)
  have "fst ` set W \<subseteq> log_area s"
    using log_blk_facts(3,4) [OF g] transD(1) [OF t] by (auto simp: W log_writes_def)
  moreover have "fst ` set (take k W) \<subseteq> fst ` set W" by (intro image_mono set_take_subset)
  ultimately show "b \<notin> log_area s \<Longrightarrow> upd_blks (take k W) v b = v b"
    by (intro upd_blks_other) blast
  show "upd_blks (log_writes bs s) v (log_start s) = v (log_start s)"
    using log_blk_facts(5) [OF g transD(1) [OF t]] by (intro upd_blks_other) (force simp: log_writes_def)
qed

lemma upd_blks_fun: "upd_blks (map (\<lambda>b. (b, f b)) bs) v = (\<lambda>b. if b \<in> set bs then f b else v b)"
  by (induction bs arbitrary: v) (auto simp: fun_eq_iff)

lemma home_writes_eq:
  assumes "\<And>t. t < length bs \<Longrightarrow> blk_view s (log_blk s t) = f (bs ! t)"
  shows "home_writes bs s = map (\<lambda>b. (b, f b)) bs"
  by (rule nth_equalityI) (simp_all add: home_writes_def assms)

lemma commit_ok:
  assumes q: "quiet cur s" and g: "log_geom s" and t: "trans bs s" and c: "Suc (card (dirty_blks s)) < NBUF" and "bs \<noteq> []"
  shows "\<exists>s'. commit cur s = Ret s' \<and> wrote cur (commit_writes bs s) s s' \<and> bst.more s' = bst.more (s\<lparr>lh_n := 0\<rparr>)"
proof -
  let ?L = "log_start s"
  let ?h = "hdr (blk_view s ?L) bs"
  obtain s1 where 1: "write_log cur s = Ret s1" "wrote cur (log_writes bs s) s s1" "bst.more s1 = bst.more s"
    using write_log_ok [OF q g t c] by blast
  note F1 = log_fields [OF 1(3)]
  note A1 = log_area_cong [OF F1(1)]
  have g1: "log_geom s1" "trans bs s1" using g t by (simp_all add: log_geom_def trans_def F1 A1)
  have c1: "Suc (card (dirty_blks s1)) < NBUF" using card_after [OF 1(2)] c by simp
  have v1: "blk_view s1 ?L = blk_view s ?L" unfolding wroteD(2) [OF 1(2)] by (rule log_writes_view(3) [OF g t refl])
  obtain s2 where 2: "write_head cur s1 = Ret s2" "wrote cur [(?L, ?h)] s1 s2" "bst.more s2 = bst.more s1"
    using write_head_ok [OF wroteD(1) [OF 1(2)] g1] c1 unfolding v1 F1(1) by auto
  note W2 = wrote_trans [OF 1(2) 2(2)]
  note F2 = log_fields [OF 2(3)]
  note A2 = log_area_cong [OF F2(1)]
  have g2: "log_geom s2" "trans bs s2" using g1 by (simp_all add: log_geom_def trans_def F2 A2)
  have c2: "Suc (card (dirty_blks s2)) < NBUF" using card_after [OF 2(2)] c1 by simp
  have v2: "blk_view s2 ?L = ?h" unfolding wroteD(2) [OF W2] by simp
  have hw: "home_writes bs s2 = map (\<lambda>b. (b, blk_view s b)) bs"
    by (rule home_writes_eq) (use log_writes_view(1) [OF g t refl] A1 A2 in \<open>simp only: wroteD(2) [OF W2]\<close>)
  obtain s3 where 3: "obind (install_trans cur s2) (\<lambda>s. write_head cur (s\<lparr>lh_n := 0\<rparr>)) = Ret s3"
    "wrote cur (map (\<lambda>b. (b, blk_view s b)) bs @ [(?L, hdr ?h [])]) s2 s3" "bst.more s3 = bst.more (s2\<lparr>lh_n := 0\<rparr>)"
    using install_clear [OF wroteD(1) [OF 2(2)] g2 c2] unfolding hw F2(1) F1(1) v2 by blast
  have pos: "0 < sint (lh_n s)"
    using t \<open>bs \<noteq> []\<close> by (simp add: trans_def sint_of_nat32 LOGSIZE_def MAXOPBLOCKS_def)
  have run: "commit cur s = Ret s3" using pos by (simp add: commit_def 1(1) 2(1) 3(1))
  have "bst.more (s2\<lparr>lh_n := 0\<rparr>) = bst.more (s\<lparr>lh_n := 0\<rparr>)" using 1(3) 2(3) by (cases s; cases s2) simp
  then show ?thesis
    using run wrote_trans [OF W2 3(2)] 3(3) by (simp add: commit_writes_def)
qed

lemma recover_disk:
  assumes q: "quiet cur r" and d: "dirty_blks r = {}" and g: "log_geom r"
    and h: "get32 (disk r 1 (log_start r)) 0 = of_nat (length bs)" "length bs \<le> LOGSIZE"
      "get32s (disk r 1 (log_start r)) 4 (length bs) = bs" "length (disk r 1 (log_start r)) = BSIZE"
      "\<And>b. b \<in> set bs \<Longrightarrow> unat b < FSSIZE \<and> b \<notin> log_area r"
    and f: "\<And>t. t < length bs \<Longrightarrow> disk r 1 (log_blk r t) = f (bs ! t)"
  shows "\<exists>r'. recover_from_log cur r = Ret r' \<and> quiet cur r' \<and> lh_n r' = 0 \<and> get32 (disk r' 1 (log_start r)) 0 = 0
    \<and> (\<forall>b. b \<notin> log_area r \<longrightarrow> disk r' 1 b = (if b \<in> set bs then f b else disk r 1 b))"
proof -
  have v: "blk_view r = disk r 1"
    using unheld_clean [of r] q d by (auto simp: quiet_def fun_eq_iff)
  have hw: "home_writes bs r = map (\<lambda>b. (b, f b)) bs" using f by (intro home_writes_eq) (simp add: v)
  have c: "Suc (card (dirty_blks r)) < NBUF" by (simp add: d NBUF_def MAXOPBLOCKS_def)
  obtain r' where R: "recover_from_log cur r = Ret r'"
    "wrote cur (map (\<lambda>b. (b, f b)) bs @ [(log_start r, hdr (disk r 1 (log_start r)) [])]) r r'" "lh_n r' = 0"
    using recover_ok [OF q g c, of bs] h unfolding v hw by auto
  have "disk r' 1 b = (if b \<in> set bs then f b else disk r 1 b)" if "b \<notin> log_area r" for b
    unfolding wroteD(3) [OF R(2)] using that log_blk_facts(4) [OF g] by (auto simp: upd_blks_fun)
  moreover have "get32 (disk r' 1 (log_start r)) 0 = 0"
    unfolding wroteD(3) [OF R(2)] using hdr_get(1) [OF h(4), of "[]"] by simp
  ultimately show ?thesis using R wroteD(1) [OF R(2)] by blast
qed

section \<open>What a crash during a commit leaves\<close>

text \<open>
  \<open>log_ok bs s\<close>: between transactions' writes, the in-memory header lists exactly the dirty blocks, the
  header on the disk is clear, and the super block tells where the log is.
\<close>

definition log_ok :: "u32 list \<Rightarrow> 'a lst_scheme \<Rightarrow> bool" where
  "log_ok bs s \<longleftrightarrow> log_geom s \<and> trans bs s \<and> dirty_blks s = set bs \<and> length (lh_block s) = LOGSIZE
     \<and> get32 (disk s 1 (log_start s)) 0 = 0 \<and> length (disk s 1 (log_start s)) = BSIZE
     \<and> 1 \<notin> set bs \<and> 1 \<notin> log_area s \<and> sb_logstart (dec_sb (disk s 1 1)) = log_start s"

definition replay :: "(u32 \<times> u32 \<times> u8 list) list \<Rightarrow> (u32 \<Rightarrow> u32 \<Rightarrow> u8 list) \<Rightarrow> u32 \<Rightarrow> u32 \<Rightarrow> u8 list" where
  "replay W d = fold (\<lambda>(dev, b, x) d. d(dev := (d dev)(b := x))) W d"

text \<open>The disk after the first \<open>k\<close> of the writes made between \<open>s\<close> and \<open>s'\<close>.\<close>

definition crash_disk :: "nat \<Rightarrow> 'a bst_scheme \<Rightarrow> 'b bst_scheme \<Rightarrow> u32 \<Rightarrow> u32 \<Rightarrow> u8 list" where
  "crash_disk k s s' = replay (take k (drop (length (disk_log s)) (disk_log s'))) (disk s)"

lemma replay_dev1: "replay (map (Pair 1) W) d 1 = upd_blks W (d 1)"
  by (induction W arbitrary: d) (auto simp: replay_def upd_blks_def)

lemma crash_disk_wrote: "wrote cur W s s' \<Longrightarrow> crash_disk k s s' 1 = upd_blks (take k W) (disk s 1)"
  by (simp add: crash_disk_def wrote_def take_map replay_dev1)

lemma take_commit:
  fixes k :: nat
  obtains (log) j where "take k (A @ [h] @ B @ [z]) = take j A"
    | (home) j where "take k (A @ [h] @ B @ [z]) = (A @ [h]) @ take j B"
    | (all) "take k (A @ [h] @ B @ [z]) = (A @ [h]) @ B @ [z]"
proof -
  consider "k \<le> length A" | "length A < k" "k \<le> Suc (length A + length B)" | "Suc (length A + length B) < k" by linarith
  then show ?thesis
  proof cases
    case 1
    then show ?thesis by (intro log [of k]) simp
  next
    case 2
    then have "k - length A = Suc (k - Suc (length A))" "k - Suc (length A) \<le> length B" by simp_all
    then show ?thesis using 2(1) by (intro home [of "k - Suc (length A)"]) simp
  next
    case 3
    then show ?thesis by (intro all) simp
  qed
qed

lemma log_okD:
  assumes "quiet cur s" and "log_ok bs s"
  shows "log_geom s" "trans bs s" "dirty_blks s = set bs" "b \<notin> set bs \<Longrightarrow> blk_view s b = disk s 1 b"
    "blk_view s (log_start s) = disk s 1 (log_start s)" "length bs \<le> LOGSIZE"
proof -
  show g: "log_geom s" "trans bs s" "dirty_blks s = set bs" using assms(2) by (simp_all add: log_ok_def)
  show v: "b \<notin> set bs \<Longrightarrow> blk_view s b = disk s 1 b" for b
    using unheld_clean [of s b] assms(1) g(3) by (simp add: quiet_def)
  show "blk_view s (log_start s) = disk s 1 (log_start s)"
    using v g(2) log_blk_facts(4) [OF g(1)] by (auto simp: trans_def)
  show "length bs \<le> LOGSIZE" using g(2) by (simp add: trans_def)
qed

lemma commit_final:
  assumes q: "quiet cur s" and ok: "log_ok bs s" and D: "D = upd_blks (commit_writes bs s) (disk s 1)"
  shows "get32 (D (log_start s)) 0 = 0" "length (D (log_start s)) = BSIZE" "\<And>b. b \<notin> log_area s \<Longrightarrow> D b = blk_view s b"
proof -
  let ?L = "log_start s"
  note O = log_okD [OF q ok]
  let ?h = "hdr (disk s 1 ?L) bs" and ?B = "map (\<lambda>b. (b, blk_view s b)) bs"
  have len: "length (disk s 1 ?L) = BSIZE" using ok by (simp add: log_ok_def)
  note H0 = hdr_get [OF hdr_get(3) [OF len O(6)], of "[]"]
  note V = log_writes_view [OF O(1,2) refl]
  have D': "D = (upd_blks ?B (upd_blks (log_writes bs s @ [(?L, ?h)]) (disk s 1)))(?L := hdr ?h [])"
    by (simp add: D commit_writes_def O(5))
  show "D b = blk_view s b" if "b \<notin> log_area s" for b
    using that log_blk_facts(4) [OF O(1)] O(4) [of b] V(2) [OF that, of "Suc (length (log_writes bs s))"] unfolding D' by (auto simp: upd_blks_fun)
  show "get32 (D ?L) 0 = 0" "length (D ?L) = BSIZE" using H0 D' by simp_all
qed

lemma crash_cases:
  assumes q: "quiet cur s" and ok: "log_ok bs s" and D: "D = upd_blks (take k (commit_writes bs s)) (disk s 1)"
  obtains (old) "get32 (D (log_start s)) 0 = 0" "length (D (log_start s)) = BSIZE" "\<And>b. b \<notin> log_area s \<Longrightarrow> D b = disk s 1 b"
    | (logged) "D (log_start s) = hdr (disk s 1 (log_start s)) bs"
        "\<And>t. t < length bs \<Longrightarrow> D (log_blk s t) = blk_view s (bs ! t)"
        "\<And>b. b \<notin> log_area s \<Longrightarrow> b \<notin> set bs \<Longrightarrow> D b = disk s 1 b"
    | (new) "get32 (D (log_start s)) 0 = 0" "length (D (log_start s)) = BSIZE" "\<And>b. b \<notin> log_area s \<Longrightarrow> D b = blk_view s b"
proof -
  let ?L = "log_start s"
  note O = log_okD [OF q ok]
  note L = log_blk_facts [OF O(1)]
  let ?h = "hdr (disk s 1 ?L) bs" and ?B = "map (\<lambda>b. (b, blk_view s b)) bs"
  have len: "length (disk s 1 ?L) = BSIZE" and z: "get32 (disk s 1 ?L) 0 = 0" using ok by (simp_all add: log_ok_def)
  note H = hdr_get [OF len O(6)]
  note V = log_writes_view [OF O(1,2) refl]
  have Bkeys: "fst ` set (take j ?B) \<subseteq> set bs" for j by (auto dest: in_set_takeD)
  have area: "b \<notin> log_area s" if "b \<in> set bs" for b using that O(2) by (simp add: trans_def)
  have cw: "commit_writes bs s = log_writes bs s @ [(?L, ?h)] @ ?B @ [(?L, hdr ?h [])]"
    by (simp add: commit_writes_def O(5))
  show ?thesis
  proof (rule take_commit [of k "log_writes bs s" "(?L, ?h)" ?B "(?L, hdr ?h [])"])
    fix j
    assume "take k (log_writes bs s @ [(?L, ?h)] @ ?B @ [(?L, hdr ?h [])]) = take j (log_writes bs s)"
    then have D': "D = upd_blks (take j (log_writes bs s)) (disk s 1)" by (simp add: D cw)
    have "fst ` set (take j (log_writes bs s)) \<subseteq> log_blk s ` {..<LOGSIZE}"
      using transD(1) [OF O(2)] by (auto simp: log_writes_def dest!: in_set_takeD)
    then have k: "b \<notin> fst ` set (take j (log_writes bs s))" if "b = ?L \<or> b \<notin> log_area s" for b
      using that L(5) by (fastforce simp: log_area_def)
    have "D b = disk s 1 b" if "b = ?L \<or> b \<notin> log_area s" for b
      unfolding D' by (rule upd_blks_other [OF k [OF that]])
    then show ?thesis using old z len by simp
  next
    fix j
    assume "take k (log_writes bs s @ [(?L, ?h)] @ ?B @ [(?L, hdr ?h [])]) = (log_writes bs s @ [(?L, ?h)]) @ take j ?B"
    then have D': "D = upd_blks (take j ?B) (upd_blks (log_writes bs s @ [(?L, ?h)]) (disk s 1))" by (simp add: D cw)
    have k: "D b = upd_blks (log_writes bs s @ [(?L, ?h)]) (disk s 1) b" if "b \<notin> set bs" for b
      unfolding D' by (rule upd_blks_other) (use that Bkeys in blast)
    have "?L \<notin> set bs" using area L(4) by blast
    then have "D ?L = ?h" using k [of ?L] by simp
    moreover have "D (log_blk s t) = blk_view s (bs ! t)" if "t < length bs" for t
      using k V(1) [OF that] area L(3) [OF transD(1) [OF O(2) that]] by metis
    moreover have "D b = disk s 1 b" if "b \<notin> log_area s" "b \<notin> set bs" for b
      using k [OF that(2)] V(2) [OF that(1), of "Suc (length (log_writes bs s))"] by simp
    ultimately show ?thesis by (rule logged)
  next
    assume "take k (log_writes bs s @ [(?L, ?h)] @ ?B @ [(?L, hdr ?h [])]) = (log_writes bs s @ [(?L, ?h)]) @ ?B @ [(?L, hdr ?h [])]"
    then have "D = upd_blks (commit_writes bs s) (disk s 1)" by (simp add: D cw)
    from new [OF commit_final [OF q ok this]] show ?thesis .
  qed
qed

lemma readsb_ok:
  assumes q: "quiet cur s" and c: "card (dirty_blks s) < NBUF"
  shows "\<exists>s'. readsb cur 1 s = Ret (dec_sb (blk_view s 1), s') \<and> wrote cur [] s s' \<and> bst.more s' = bst.more s"
proof -
  obtain i s1 where 1: "bread cur 1 1 s = Ret (i, s1)" "b_data (bufs s1 ! i) = blk_view s 1"
    "\<exists>s'. brelse cur i s1 = Ret s' \<and> wrote cur [] s s' \<and> bst.more s' = bst.more s"
    by (rule put_through [OF q _ c, of 1], simp add: FSSIZE_def, rule that)
  then show ?thesis by (auto simp: readsb_def)
qed

lemma initlog_ok:
  assumes q: "quiet cur r" and d: "dirty_blks r = {}" and L: "sb_logstart (dec_sb (disk r 1 1)) = L"
  shows "\<exists>r1. initlog cur 1 r = recover_from_log cur r1 \<and> quiet cur r1 \<and> dirty_blks r1 = {} \<and> disk r1 1 = disk r 1
    \<and> log_start r1 = L \<and> log_dev r1 = 1"
proof -
  have v: "blk_view r = disk r 1" using unheld_clean [of r] q d by (auto simp: quiet_def fun_eq_iff)
  obtain r0 where R: "readsb cur 1 r = Ret (dec_sb (disk r 1 1), r0)" "wrote cur [] r r0"
    using readsb_ok [OF q] d v by (auto simp: NBUF_def MAXOPBLOCKS_def)
  define r1 where "r1 = r0\<lparr>log_start := L, log_size := sb_nlog (dec_sb (disk r 1 1)), log_dev := 1\<rparr>"
  have "initlog cur 1 r = recover_from_log cur r1"
    using L by (simp add: initlog_def R(1) BSIZE_def LOGSIZE_def MAXOPBLOCKS_def r1_def)
  moreover have "quiet cur r1 = quiet cur r0" "dirty_blks r1 = dirty_blks r0" "disk r1 = disk r0" "log_start r1 = L" "log_dev r1 = 1"
    by (simp_all add: r1_def quiet_def binv_def held_blks_def dirty_blks_def)
  moreover have "quiet cur r0" "dirty_blks r0 = {}" "disk r0 1 = disk r 1" using wroteD(1,3,5) [OF R(2)] d by simp_all
  ultimately show ?thesis by (intro exI [of _ r1]) simp
qed

lemma quiet_wakeup [simp]: "quiet cur (wakeup ch s) = quiet cur s"
  by (simp add: quiet_def binv_def held_blks_def wakeup_def wakeup1_def)

lemma wakeup_cache [simp]:
  "blk_view (wakeup ch s) = blk_view s" "dirty_blks (wakeup ch s) = dirty_blks s" "disk (wakeup ch s) = disk s"
  "disk_log (wakeup ch s) = disk_log s" "bst.more (wakeup ch s) = bst.more s"
  by (simp_all add: blk_view_def [abs_def] dirty_blks_def wakeup_def wakeup1_def cong: option.case_cong)

lemma end_op_last:
  assumes q: "quiet cur s" and ok: "log_ok bs s" and o: "log_outstanding s = 1" "\<not> log_committing s"
    and n: "Suc (length bs) < NBUF"
  shows "\<exists>s'. end_op cur s = Ret s' \<and> wrote cur (if bs = [] then [] else commit_writes bs s) s s'
    \<and> bst.more s' = bst.more (s\<lparr>log_outstanding := 0, log_committing := False, lh_n := 0\<rparr>)"
proof -
  let ?s = "s\<lparr>log_outstanding := 0, log_committing := True\<rparr>"
  note O = log_okD [OF q ok]
  have c: "Suc (card (dirty_blks ?s)) < NBUF" using n O(3) card_length [of bs] by simp
  have g: "log_geom ?s" "trans bs ?s" using O(1,2) by (simp_all add: log_geom_def trans_def log_area_def log_blk_def)
  have W: "commit_writes bs ?s = commit_writes bs s"
    by (simp add: commit_writes_def log_writes_def log_blk_def)
  have "\<exists>s'. commit cur ?s = Ret s' \<and> wrote cur (if bs = [] then [] else commit_writes bs s) s s' \<and> bst.more s' = bst.more (?s\<lparr>lh_n := 0\<rparr>)"
  proof (cases "bs = []")
    case True
    then have z: "lh_n s = 0" using O(2) by (simp add: trans_def)
    then have "commit cur ?s = Ret ?s" by (simp add: commit_def)
    moreover have "bst.more ?s = bst.more (?s\<lparr>lh_n := 0\<rparr>)" using z by (cases s) simp
    moreover have "wrote cur [] s ?s" using q by (simp add: wrote_def)
    ultimately show ?thesis using True by auto
  next
    case False
    then show ?thesis using commit_ok [OF _ g c, of cur] q W by auto
  qed
  then obtain s1 where 1: "commit cur ?s = Ret s1" "wrote cur (if bs = [] then [] else commit_writes bs s) s s1"
    "bst.more s1 = bst.more (?s\<lparr>lh_n := 0\<rparr>)" by blast
  let ?e = "wakeup ChanLog (s1\<lparr>log_committing := False\<rparr>)"
  have "end_op cur s = Ret ?e" using o by (simp add: end_op_def 1(1))
  moreover have "wrote cur (if bs = [] then [] else commit_writes bs s) s ?e" using 1(2) by (simp add: wrote_def)
  moreover have "bst.more ?e = bst.more (s\<lparr>log_outstanding := 0, log_committing := False, lh_n := 0\<rparr>)"
    using 1(3) by (cases s; cases s1) simp
  ultimately show ?thesis by blast
qed

lemma crash_recovers:
  assumes q: "quiet cur s" and ok: "log_ok bs s" and W: "W = [] \<or> W = commit_writes bs s"
    and D: "disk r 1 = upd_blks (take k W) (disk s 1)" and r: "quiet me r" "dirty_blks r = {}"
  shows "\<exists>r'. initlog me 1 r = Ret r' \<and> quiet me r' \<and> lh_n r' = 0 \<and> get32 (disk r' 1 (log_start s)) 0 = 0
    \<and> ((\<forall>b. b \<notin> log_area s \<longrightarrow> disk r' 1 b = disk s 1 b) \<or> (\<forall>b. b \<notin> log_area s \<longrightarrow> disk r' 1 b = blk_view s b))"
proof -
  let ?L = "log_start s"
  note O = log_okD [OF q ok]
  have ok': "1 \<notin> set bs" "1 \<notin> log_area s" "sb_logstart (dec_sb (disk s 1 1)) = ?L" "length (disk s 1 ?L) = BSIZE"
    using ok by (simp_all add: log_ok_def)
  from W obtain k' where D': "disk r 1 = upd_blks (take k' (commit_writes bs s)) (disk s 1)"
    by (metis D take_0 take_Nil)
  have bsok: "\<And>b. b \<in> set bs \<Longrightarrow> unat b < FSSIZE \<and> b \<notin> log_area s" using O(2) by (simp add: trans_def)
  have sb: "sb_logstart (dec_sb (disk r 1 1)) = ?L"
    by (rule crash_cases [OF q ok D']) (use ok' O(4) in auto)
  obtain r1 where R: "initlog me 1 r = recover_from_log me r1" "quiet me r1" "dirty_blks r1 = {}" "disk r1 1 = disk r 1"
    "log_start r1 = ?L" "log_dev r1 = 1"
    using initlog_ok [OF r sb] by blast
  have g: "log_geom r1" using O(1) R(5,6) by (simp add: log_geom_def)
  have A: "log_area r1 = log_area s" "log_blk r1 = log_blk s" using log_area_cong [OF R(5)] by simp_all
  note rec = recover_disk [OF R(2,3) g, unfolded R(1) [symmetric] R(4,5) A]
  have E: "get32s d 4 (length ([] :: u32 list)) = []" for d by (simp add: get32s_def)
  show ?thesis
  proof (rule crash_cases [OF q ok D'])
    assume 1: "get32 (disk r 1 ?L) 0 = 0" "length (disk r 1 ?L) = BSIZE" "\<And>b. b \<notin> log_area s \<Longrightarrow> disk r 1 b = disk s 1 b"
    show ?thesis using rec [of "[]" "\<lambda>_. []"] 1 E by auto
  next
    assume 1: "disk r 1 ?L = hdr (disk s 1 ?L) bs" "\<And>t. t < length bs \<Longrightarrow> disk r 1 (log_blk s t) = blk_view s (bs ! t)"
      "\<And>b. b \<notin> log_area s \<Longrightarrow> b \<notin> set bs \<Longrightarrow> disk r 1 b = disk s 1 b"
    note H = hdr_get [OF ok'(4) O(6)]
    obtain r' where 2: "initlog me 1 r = Ret r'" "quiet me r'" "lh_n r' = 0" "get32 (disk r' 1 ?L) 0 = 0"
      "\<And>b. b \<notin> log_area s \<Longrightarrow> disk r' 1 b = (if b \<in> set bs then blk_view s b else disk r 1 b)"
      using rec [of bs "blk_view s"] H O(6) bsok 1(1,2) by auto
    have "disk r' 1 b = blk_view s b" if "b \<notin> log_area s" for b using 2(5) [OF that] 1(3) [OF that] O(4) [of b] by auto
    then show ?thesis using 2(1-4) by blast
  next
    assume 1: "get32 (disk r 1 ?L) 0 = 0" "length (disk r 1 ?L) = BSIZE" "\<And>b. b \<notin> log_area s \<Longrightarrow> disk r 1 b = blk_view s b"
    show ?thesis using rec [of "[]" "\<lambda>_. []"] 1 E by auto
  qed
qed

section \<open>Writing in a transaction\<close>

lemma has_buf_blk: "has_buf cur s i blk \<Longrightarrow> b_blockno (bufs s ! i) = blk"
  by (simp add: has_buf_def keyed_def)

lemma set_dirty_ok:
  assumes "binv s" and "has_buf cur s i blk" and "s' = upd_buf i (\<lambda>b. b\<lparr>b_dirty := True\<rparr>) s"
  shows "binv s'" and "blk_view s' = blk_view s" and "held_blks s' = held_blks s"
    and "has_buf cur s' j b \<longleftrightarrow> has_buf cur s j b" and "dirty_blks s' = insert blk (dirty_blks s)"
proof -
  have k: "keyed blk (bufs s ! i)" "b_valid (bufs s ! i)" "i < NBUF" using assms(2) by (simp_all add: has_buf_def)
  have v: "blk_view s blk = b_data (bufs s ! i)" by (rule blk_view_cached [OF assms(1) k(3,1,2)])
  note U = held_upd [OF assms(1,2), of "\<lambda>b. b\<lparr>b_dirty := True\<rparr>" s']
  show "binv s'" "blk_view s' = blk_view s" "held_blks s' = held_blks s"
    "has_buf cur s' j b \<longleftrightarrow> has_buf cur s j b" "dirty_blks s' = insert blk (dirty_blks s)"
    using U k v by (simp_all add: assms(3) keyed_def fun_upd_idem)
qed

definition add_blk :: "u32 \<Rightarrow> u32 list \<Rightarrow> u32 list" where
  "add_blk b bs = (if b \<in> set bs then bs else bs @ [b])"

lemma log_write_eq:
  assumes t: "trans bs s" and l: "length (lh_block s) = LOGSIZE" and n: "length bs < LOGSIZE" "int (length bs) < sint (log_size s - 1)"
    and o: "1 \<le> sint (log_outstanding s)" and b: "b_blockno (bufs s ! i) = blk"
  shows "\<exists>B. log_write i s = Ret (upd_buf i (\<lambda>b. b\<lparr>b_dirty := True\<rparr>) (s\<lparr>lh_block := B, lh_n := of_nat (length (add_blk blk bs))\<rparr>))
    \<and> length B = LOGSIZE \<and> take (length (add_blk blk bs)) B = add_blk blk bs"
proof -
  have T: "lh_n s = of_nat (length bs)" "take (length bs) (lh_block s) = bs" using t by (simp_all add: trans_def)
  have L: "length bs < 2 ^ 31" using n(1) by (simp add: LOGSIZE_def MAXOPBLOCKS_def)
  have ln: "length bs \<le> LOGSIZE" using n(1) by simp
  note N = sint_of_nat32 [OF L] loop_count_of_nat [OF ln]
  show ?thesis
  proof (cases "blk \<in> set bs")
    case True
    then obtain k where k: "find_slot (\<lambda>x. x = blk) bs = Some k"
      using find_slot_exists [of blk bs "\<lambda>x. x = blk"] by blast
    then have kb: "k < length bs" "bs ! k = blk" using find_slot_SomeD(1,2) [OF k] by simp_all
    have "(of_nat k :: s32) \<noteq> of_nat (length bs)"
    proof
      assume "(of_nat k :: s32) = of_nat (length bs)"
      then have "sint (of_nat k :: s32) = sint (of_nat (length bs) :: s32)" by simp
      then show False using sint_of_nat32 [of k] sint_of_nat32 [OF L] kb(1) L by simp
    qed
    moreover have "lh_block s ! k = blk" using T(2) kb by (metis nth_take)
    then have "(lh_block s)[k := blk] = lh_block s" by (metis list_update_id)
    moreover have same: "s\<lparr>lh_n := of_nat (length bs)\<rparr> = s" using T(1) by (cases s) simp
    ultimately show ?thesis
      using n o by (intro exI [of _ "lh_block s"]) (simp add: log_write_def T N b k True add_blk_def l Let_def same)
  next
    case False
    then have k: "find_slot (\<lambda>x. x = blk) bs = None" by (auto simp: find_slot_None_iff)
    have "take (Suc (length bs)) ((lh_block s)[length bs := blk]) = bs @ [blk]"
      using n(1) l T(2) by (simp add: take_Suc_conv_app_nth)
    then show ?thesis
      using n o False by (intro exI [of _ "(lh_block s)[length bs := blk]"])
        (simp add: log_write_def T N b k add_blk_def l Let_def add.commute)
  qed
qed

lemma log_write_ok:
  assumes inv: "binv s" and hb: "has_buf cur s i blk" and ok: "log_ok bs s"
    and blk: "unat blk < FSSIZE" "blk \<notin> log_area s" "blk \<noteq> 1"
    and n: "length bs < LOGSIZE" "int (length bs) < sint (log_size s - 1)" and o: "1 \<le> sint (log_outstanding s)"
  shows "\<exists>s'. log_write i s = Ret s' \<and> binv s' \<and> blk_view s' = blk_view s \<and> held_blks s' = held_blks s
    \<and> (\<forall>j b. has_buf cur s' j b \<longleftrightarrow> has_buf cur s j b) \<and> dirty_blks s' = insert blk (dirty_blks s)
    \<and> disk s' = disk s \<and> disk_log s' = disk_log s \<and> ptable s' = ptable s \<and> (\<forall>j. b_data (bufs s' ! j) = b_data (bufs s ! j))
    \<and> log_ok (add_blk blk bs) s' \<and> log_start s' = log_start s \<and> log_size s' = log_size s
    \<and> log_outstanding s' = log_outstanding s \<and> log_committing s' = log_committing s \<and> lst.more s' = lst.more s"
proof -
  have t: "trans bs s" "length (lh_block s) = LOGSIZE" using ok by (simp_all add: log_ok_def)
  obtain B where B: "log_write i s = Ret (upd_buf i (\<lambda>b. b\<lparr>b_dirty := True\<rparr>) (s\<lparr>lh_block := B, lh_n := of_nat (length (add_blk blk bs))\<rparr>))"
    "length B = LOGSIZE" "take (length (add_blk blk bs)) B = add_blk blk bs"
    using log_write_eq [OF t n o has_buf_blk [OF hb]] by blast
  define s1 where "s1 = s\<lparr>lh_block := B, lh_n := of_nat (length (add_blk blk bs))\<rparr>"
  define s' where "s' = upd_buf i (\<lambda>b. b\<lparr>b_dirty := True\<rparr>) s1"
  have 1: "binv s1" "has_buf cur s1 = has_buf cur s" "blk_view s1 = blk_view s" "held_blks s1 = held_blks s" "dirty_blks s1 = dirty_blks s"
    using inv by (simp_all add: s1_def)
  note D = set_dirty_ok [OF 1(1) _ s'_def, of cur blk, unfolded 1(2-), OF hb]
  have F: "disk s' = disk s" "disk_log s' = disk_log s" "ptable s' = ptable s" "log_start s' = log_start s" "log_size s' = log_size s"
    "log_outstanding s' = log_outstanding s" "log_committing s' = log_committing s" "lst.more s' = lst.more s" "log_dev s' = log_dev s"
    "lh_n s' = of_nat (length (add_blk blk bs))" "lh_block s' = B"
    by (simp_all add: s'_def s1_def upd_buf_def)
  have "b_data (bufs s' ! j) = b_data (bufs s ! j)" for j
    by (cases "i < length (bufs s)") (simp_all add: s'_def s1_def upd_buf_def nth_list_update list_update_beyond)
  moreover have "trans (add_blk blk bs) s'"
    using t(1) B(3) n(1) blk by (auto simp: trans_def F log_area_def log_blk_def add_blk_def)
  then have "log_ok (add_blk blk bs) s'"
    using ok blk B(2) by (simp add: log_ok_def F D(5) log_geom_def log_area_def log_blk_def) (auto simp: add_blk_def)
  ultimately show ?thesis using B(1) D F by (intro exI [of _ s']) (simp add: s'_def s1_def)
qed

section \<open>Space in the log\<close>

text \<open>The cache's operations leave the rest of the state alone, the log's variables among it.\<close>

lemma iderw_more: "iderw cur i s = Ret s' \<Longrightarrow> bst.more s' = bst.more s"
  by (simp add: iderw_def Let_def split: if_splits) (auto simp: upd_buf_def)

lemma lock_buf_more: "lock_buf cur i s = Ret (j, s') \<Longrightarrow> bst.more s' = bst.more s"
  by (auto simp: lock_buf_def outcome_simps)

lemma bget_more: "bget cur d b s = Ret (i, s') \<Longrightarrow> bst.more s' = bst.more s"
  by (auto simp: bget_def outcome_simps split: option.splits dest!: lock_buf_more)

lemma bread_more: "bread cur d b s = Ret (i, s') \<Longrightarrow> bst.more s' = bst.more s"
  by (auto simp: bread_def outcome_simps split: if_splits dest!: bget_more iderw_more)

lemma bwrite_more: "bwrite cur i s = Ret s' \<Longrightarrow> bst.more s' = bst.more s"
  by (auto simp: bwrite_def split: if_splits dest!: iderw_more)

lemma brelse_more: "brelse cur i s = Ret s' \<Longrightarrow> bst.more s' = bst.more s"
  by (auto simp: brelse_def releasesleep_def Let_def split: if_splits)

lemma move_block_more: "move_block cur i j s = Ret s' \<Longrightarrow> bst.more s' = bst.more s"
  by (auto simp: move_block_def outcome_simps dest!: bwrite_more brelse_more)

lemma write_log_more: "write_log cur s = Ret s' \<Longrightarrow> bst.more s' = bst.more s"
  unfolding write_log_def
  by (erule ofold_invariant, rule refl)
    (auto simp: write_log_step_def outcome_simps split: if_splits dest!: bread_more move_block_more)

lemma install_trans_more: "install_trans cur s = Ret s' \<Longrightarrow> bst.more s' = bst.more s"
  unfolding install_trans_def
  by (erule ofold_invariant, rule refl)
    (auto simp: install_step_def outcome_simps split: if_splits dest!: bread_more move_block_more)

lemma write_head_more: "write_head cur s = Ret s' \<Longrightarrow> bst.more s' = bst.more s"
  by (auto simp: write_head_def outcome_simps Let_def split: if_splits dest!: bread_more bwrite_more brelse_more)

lemma commit_fields:
  fixes s s' :: "'a lst_scheme"
  assumes "commit cur s = Ret s'"
  shows "log_size s' = log_size s" "log_outstanding s' = log_outstanding s" "length (lh_block s') = length (lh_block s)"
    "sint (lh_n s') \<le> 0" "lh_n s = of_nat n \<Longrightarrow> n \<le> LOGSIZE \<Longrightarrow> lh_n s' = 0"
proof -
  have *: "bst.more s' = bst.more (s\<lparr>lh_n := 0\<rparr>)" if pos: "0 < sint (lh_n s)"
  proof -
    obtain s1 s2 s3 where S: "write_log cur s = Ret s1" "write_head cur s1 = Ret s2" "install_trans cur s2 = Ret s3"
      "write_head cur (s3\<lparr>lh_n := 0\<rparr>) = Ret s'"
      using assms pos by (auto simp: commit_def outcome_simps)
    have "bst.more s3 = bst.more s" using S(1-3) by (auto dest!: write_log_more write_head_more install_trans_more)
    then have "bst.more (s3\<lparr>lh_n := 0\<rparr>) = bst.more (s\<lparr>lh_n := 0\<rparr>)" by (cases s; cases s3) simp
    then show ?thesis using write_head_more [OF S(4)] by simp
  qed
  have eq: "s' = s" if "\<not> 0 < sint (lh_n s)" using assms that by (simp add: commit_def)
  show "log_size s' = log_size s" "log_outstanding s' = log_outstanding s" "length (lh_block s') = length (lh_block s)"
    "sint (lh_n s') \<le> 0"
    using eq log_fields [OF *] by (cases "0 < sint (lh_n s)"; simp)+
  show "lh_n s = of_nat n \<Longrightarrow> n \<le> LOGSIZE \<Longrightarrow> lh_n s' = 0"
    using eq log_fields(6) [OF *] sint_of_nat32 [of n]
    by (cases "0 < sint (lh_n s)") (auto simp: LOGSIZE_def MAXOPBLOCKS_def)
qed

text \<open>
  Sequences of log operations by the running system calls. The list has, for each system call between
  its \<open>begin_op\<close> and its \<open>end_op\<close>, the number of times it has called \<open>log_write\<close>.
\<close>

inductive log_run :: "'a lst_scheme \<Rightarrow> nat list \<Rightarrow> bool" where
  run_init: "lh_n s = 0 \<Longrightarrow> log_outstanding s = 0 \<Longrightarrow> \<not> log_committing s \<Longrightarrow> length (lh_block s) = LOGSIZE \<Longrightarrow>
    int LOGSIZE \<le> sint (log_size s) \<Longrightarrow> log_run s []"
| run_begin: "log_run s us \<Longrightarrow> begin_op s = Ret s' \<Longrightarrow> log_run s' (0 # us)"
| run_write: "log_run s us \<Longrightarrow> i < length us \<Longrightarrow> us ! i < MAXOPBLOCKS - 1 \<Longrightarrow> log_write b s = Ret s' \<Longrightarrow>
    log_run s' (us[i := Suc (us ! i)])"
| run_end: "log_run s us \<Longrightarrow> i < length us \<Longrightarrow> end_op cur s = Ret s' \<Longrightarrow> log_run s' (take i us @ drop (Suc i) us)"
| run_other: "log_run s us \<Longrightarrow> bst.more s' = bst.more s \<Longrightarrow> log_run s' us"

definition log_space :: "'a lst_scheme \<Rightarrow> nat list \<Rightarrow> bool" where
  "log_space s us \<longleftrightarrow> (\<exists>n. lh_n s = of_nat n \<and> n + sum_list (map (\<lambda>u. MAXOPBLOCKS - u) us) \<le> LOGSIZE)
     \<and> log_outstanding s = of_nat (length us) \<and> (\<forall>u \<in> set us. u < MAXOPBLOCKS)
     \<and> \<not> log_committing s \<and> length (lh_block s) = LOGSIZE \<and> int LOGSIZE \<le> sint (log_size s)"

lemma log_space_length: "log_space s us \<Longrightarrow> length us \<le> LOGSIZE"
proof -
  have "length us \<le> sum_list (map (\<lambda>u. MAXOPBLOCKS - u) us)" if "\<forall>u \<in> set us. u < MAXOPBLOCKS" for us
    using that by (induction us) auto
  then show "log_space s us \<Longrightarrow> length us \<le> LOGSIZE" unfolding log_space_def by fastforce
qed

lemma log_write_fields:
  assumes "log_write b s = Ret s'"
  shows "log_outstanding s' = log_outstanding s" "log_committing s' = log_committing s" "log_size s' = log_size s"
    "length (lh_block s') = length (lh_block s)" "lh_n s' = lh_n s \<or> lh_n s' = lh_n s + 1"
  using assms by (auto simp: log_write_def Let_def upd_buf_def split: if_splits)

lemma log_space_begin:
  assumes sp: "log_space s us" and b: "begin_op s = Ret s'"
  shows "log_space s' (0 # us)"
proof -
  obtain n where n: "lh_n s = of_nat n" "n + sum_list (map (\<lambda>u. MAXOPBLOCKS - u) us) \<le> LOGSIZE" "log_outstanding s = of_nat (length us)"
    using sp by (auto simp: log_space_def)
  let ?k = "n + Suc (length us) * MAXOPBLOCKS"
  have w: "lh_n s + (log_outstanding s + 1) * of_nat MAXOPBLOCKS = of_nat ?k"
    by (simp add: n(1,3) algebra_simps)
  have "?k < 2 ^ 31" using n(2) log_space_length [OF sp] by (simp add: LOGSIZE_def MAXOPBLOCKS_def)
  note K = sint_of_nat32 [OF this]
  have "\<not> sint (of_nat ?k :: s32) > int LOGSIZE"
  proof
    assume "sint (of_nat ?k :: s32) > int LOGSIZE"
    then have "begin_op s = Block ChanLog" unfolding begin_op_def w by simp
    then show False using b by simp
  qed
  then have k: "?k \<le> LOGSIZE" unfolding K of_nat_less_iff by linarith
  have s': "s' = s\<lparr>log_outstanding := log_outstanding s + 1\<rparr>" using b by (simp add: begin_op_def split: if_splits)
  have "sum_list (map (\<lambda>u. MAXOPBLOCKS - u) us) \<le> length us * MAXOPBLOCKS"
    by (induction us) (auto simp: MAXOPBLOCKS_def)
  then have "n + sum_list (map (\<lambda>u. MAXOPBLOCKS - u) (0 # us)) \<le> LOGSIZE" using k by simp
  then show ?thesis using sp n(1,3) by (auto simp: log_space_def s' add.commute MAXOPBLOCKS_def)
qed

lemma log_space_write:
  assumes sp: "log_space s us" and i: "i < length us" "us ! i < MAXOPBLOCKS - 1" and w: "log_write b s = Ret s'"
  shows "log_space s' (us[i := Suc (us ! i)])"
proof -
  obtain n where n: "lh_n s = of_nat n" "n + sum_list (map (\<lambda>u. MAXOPBLOCKS - u) us) \<le> LOGSIZE" using sp by (auto simp: log_space_def)
  note F = log_write_fields [OF w]
  let ?f = "\<lambda>u. MAXOPBLOCKS - u"
  have "?f (us ! i) \<le> sum_list (map ?f us)" using i(1) by (intro member_le_sum_list) auto
  then have "Suc n + sum_list (map ?f (us[i := Suc (us ! i)])) \<le> LOGSIZE"
    using n(2) i by (simp add: map_update sum_list_update)
  moreover have "\<exists>m \<le> Suc n. lh_n s' = of_nat m"
    using F(5) n(1) by (metis le_SucI le_refl of_nat_Suc add.commute)
  ultimately obtain m where "lh_n s' = of_nat m" "m + sum_list (map ?f (us[i := Suc (us ! i)])) \<le> LOGSIZE" by fastforce
  moreover have "\<forall>u \<in> set (us[i := Suc (us ! i)]). u < MAXOPBLOCKS"
    using sp i by (auto simp: log_space_def MAXOPBLOCKS_def dest!: set_update_subset_insert [THEN subsetD])
  ultimately show ?thesis using sp F(1-4) by (auto simp: log_space_def)
qed

lemma log_space_end:
  fixes s s' :: "'a lst_scheme"
  assumes sp: "log_space s us" and i: "i < length us" and e: "end_op cur s = Ret s'"
  shows "log_space s' (take i us @ drop (Suc i) us)"
proof -
  define vs where "vs = take i us @ drop (Suc i) us"
  obtain n where n: "lh_n s = of_nat n" "n + sum_list (map (\<lambda>u. MAXOPBLOCKS - u) us) \<le> LOGSIZE" using sp by (auto simp: log_space_def)
  note P = sp [unfolded log_space_def]
  have "us = take i us @ us ! i # drop (Suc i) us" using i by (rule id_take_nth_drop)
  then have "sum_list (map (\<lambda>u. MAXOPBLOCKS - u) us) = sum_list (map (\<lambda>u. MAXOPBLOCKS - u) (take i us @ us ! i # drop (Suc i) us))" by simp
  then have sum: "sum_list (map (\<lambda>u. MAXOPBLOCKS - u) vs) \<le> sum_list (map (\<lambda>u. MAXOPBLOCKS - u) us)" by (simp add: vs_def)
  have sub: "\<forall>u \<in> set vs. u < MAXOPBLOCKS" using P by (auto simp: vs_def dest: in_set_takeD in_set_dropD)
  have len: "length vs = length us - 1" "length us = Suc (length vs)" using i unfolding vs_def length_append length_take length_drop by linarith+
  have "log_outstanding s = of_nat (Suc (length vs))" using P len(2) by metis
  then have o: "log_outstanding s - 1 = of_nat (length vs)" by simp
  have "length vs < 2 ^ 32" using log_space_length [OF sp] len(1) by (simp add: LOGSIZE_def MAXOPBLOCKS_def)
  then have u: "unat (log_outstanding s - 1) = length vs" unfolding o by (rule unat_of_nat32)
  have z: "log_outstanding s - 1 = 0 \<longleftrightarrow> vs = []"
  proof
    assume "log_outstanding s - 1 = 0"
    then show "vs = []" using u by simp
  next
    assume "vs = []"
    then show "log_outstanding s - 1 = 0" using o by simp
  qed
  let ?s = "s\<lparr>log_outstanding := log_outstanding s - 1, log_committing := True\<rparr>"
  have "log_space s' vs"
  proof (cases "vs = []")
    case True
    then obtain s1 where s1: "commit cur ?s = Ret s1" "s' = wakeup ChanLog (s1\<lparr>log_committing := False\<rparr>)"
      using e z P by (auto simp: end_op_def outcome_simps split: if_splits)
    have "n \<le> LOGSIZE" using n(2) by simp
    then have 1: "log_size s1 = log_size s" "log_outstanding s1 = 0" "length (lh_block s1) = LOGSIZE" "lh_n s1 = 0"
      using commit_fields(1-3) [OF s1(1)] commit_fields(5) [OF s1(1), of n] n(1) z True P by simp_all
    have "bst.more s' = bst.more (s1\<lparr>log_committing := False\<rparr>)" by (simp add: s1(2))
    note F = log_fields [OF this, simplified]
    show ?thesis unfolding True log_space_def using P 1 F by (auto intro: exI [of _ 0])
  next
    case False
    then have s': "s' = wakeup ChanLog (s\<lparr>log_outstanding := of_nat (length vs)\<rparr>)"
      using e z P o by (auto simp: end_op_def split: if_splits)
    have "bst.more s' = bst.more (s\<lparr>log_outstanding := of_nat (length vs)\<rparr>)" by (simp add: s')
    note F = log_fields [OF this, simplified]
    have "n + sum_list (map (\<lambda>u. MAXOPBLOCKS - u) vs) \<le> LOGSIZE" using n(2) sum by linarith
    then show ?thesis unfolding log_space_def using P n(1) sub F len(1) by auto
  qed
  then show ?thesis by (simp add: vs_def)
qed

lemma log_run_space: "log_run s us \<Longrightarrow> log_space s us"
proof (induction rule: log_run.induct)
  case (run_init s)
  then show ?case by (auto simp: log_space_def intro: exI [of _ 0])
next
  case (run_other s us s')
  then show ?case using log_fields [OF run_other.hyps(2)] by (simp add: log_space_def)
qed (blast intro: log_space_begin log_space_write log_space_end)+

section \<open>An update of one block in a transaction\<close>

text \<open>
  The file system changes a block by \<open>bp = bread(dev, b)\<close>, assignments to \<open>bp->data\<close>, \<open>log_write(bp)\<close> and \<open>brelse(bp)\<close>.
\<close>

definition log_update :: "nat \<Rightarrow> u32 \<Rightarrow> u32 \<Rightarrow> (u8 list \<Rightarrow> u8 list) \<Rightarrow> 'a lst_scheme \<Rightarrow> 'a lst_scheme outcome" where
  "log_update cur dev blk f s =
     obind (bread cur dev blk s) (\<lambda>(bp, s).
     obind (log_write bp (upd_buf bp (\<lambda>b. b\<lparr>b_data := f (b_data b)\<rparr>) s)) (brelse cur bp))"

text \<open>\<open>in_tx cur bs s\<close>: a system call is in a transaction that has logged the blocks \<open>bs\<close>, and holds no buffer.\<close>

definition in_tx :: "nat \<Rightarrow> u32 list \<Rightarrow> 'a lst_scheme \<Rightarrow> bool" where
  "in_tx cur bs s \<longleftrightarrow> quiet cur s \<and> log_ok bs s \<and> 1 \<le> sint (log_outstanding s)"

text \<open>The operations on files change nothing of the log but its header, and nothing on the disk.\<close>

definition same_log :: "'a lst_scheme \<Rightarrow> 'a lst_scheme \<Rightarrow> bool" where
  "same_log s s' \<longleftrightarrow> log_start s' = log_start s \<and> log_size s' = log_size s \<and> log_outstanding s' = log_outstanding s
     \<and> log_committing s' = log_committing s \<and> disk s' = disk s \<and> disk_log s' = disk_log s
     \<and> length (ptable s') = length (ptable s)"

lemma same_log_refl [simp]: "same_log s s"
  by (simp add: same_log_def)

lemma same_log_trans: "same_log s t \<Longrightarrow> same_log t u \<Longrightarrow> same_log s u"
  by (simp add: same_log_def)

definition log_room :: "nat \<Rightarrow> u32 list \<Rightarrow> 'a lst_scheme \<Rightarrow> bool" where
  "log_room k bs s \<longleftrightarrow> length bs + k \<le> LOGSIZE \<and> int (length bs + k) \<le> sint (log_size s - 1) \<and> length bs + k < NBUF"

definition home_blk :: "'a lst_scheme \<Rightarrow> u32 \<Rightarrow> bool" where
  "home_blk s b \<longleftrightarrow> unat b < FSSIZE \<and> b \<notin> log_area s \<and> b \<noteq> 1"

lemma card_set_room: "log_ok bs s \<Longrightarrow> length bs < NBUF \<Longrightarrow> card (dirty_blks s) < NBUF"
  using card_length [of bs] by (simp add: log_ok_def)

lemma log_update_ok:
  fixes s :: "'a lst_scheme"
  assumes tx: "in_tx cur bs s" and room: "log_room 1 bs s" and b: "home_blk s blk"
  shows "\<exists>s'. log_update cur 1 blk f s = Ret s' \<and> in_tx cur (add_blk blk bs) s'
    \<and> blk_view s' = (blk_view s)(blk := f (blk_view s blk)) \<and> same_log s s' \<and> lst.more s' = lst.more s"
proof -
  have q: "quiet cur s" and ok: "log_ok bs s" and o: "1 \<le> sint (log_outstanding s)" using tx by (simp_all add: in_tx_def)
  have R: "length bs < LOGSIZE" "int (length bs) < sint (log_size s - 1)" "length bs < NBUF"
    and B: "unat blk < FSSIZE" "blk \<notin> log_area s" "blk \<noteq> 1"
    using room b by (simp_all add: log_room_def home_blk_def)
  obtain i s1 where 1: "bread cur 1 blk s = Ret (i, s1)" "bst.more s1 = bst.more s" "b_data (bufs s1 ! i) = blk_view s blk"
    "binv s1" "has_buf cur s1 i blk" "blk_view s1 = blk_view s" "dirty_blks s1 = dirty_blks s" "held_blks s1 = {blk}"
    "disk s1 = disk s" "disk_log s1 = disk_log s" "ptable s1 = ptable s"
    by (rule put_through [OF q B(1) card_set_room [OF ok R(3)]], rule that)
  define s2 where "s2 = upd_buf i (\<lambda>b. b\<lparr>b_data := f (blk_view s blk)\<rparr>) s1"
  have up: "upd_buf i (\<lambda>b. b\<lparr>b_data := f (b_data b)\<rparr>) s1 = s2" by (simp add: s2_def upd_buf_def 1(3))
  note D = set_data_ok [OF 1(4,5) s2_def]
  have S2: "disk s2 = disk s" "disk_log s2 = disk_log s" "ptable s2 = ptable s" "bst.more s2 = bst.more s"
    by (simp_all add: s2_def 1(2,9-11))
  note F2 = log_fields [OF S2(4)]
  note A2 = log_area_cong [OF F2(1)]
  have hb2: "has_buf cur s2 i blk" using D(4) 1(5) by blast
  have ok2: "log_ok bs s2"
    using ok by (simp add: log_ok_def log_geom_def trans_def F2 A2 S2 D(5) 1(7))
  obtain s3 where 3: "log_write i s2 = Ret s3" "binv s3" "blk_view s3 = blk_view s2" "held_blks s3 = held_blks s2"
    "has_buf cur s3 i blk" "dirty_blks s3 = insert blk (dirty_blks s2)"
    "disk s3 = disk s2" "disk_log s3 = disk_log s2" "ptable s3 = ptable s2" "log_ok (add_blk blk bs) s3"
    "log_start s3 = log_start s2" "log_size s3 = log_size s2" "log_outstanding s3 = log_outstanding s2"
    "log_committing s3 = log_committing s2" "lst.more s3 = lst.more s2"
    using log_write_ok [OF D(1) hb2 ok2 B(1) _ B(3) R(1)] R(2) B(2) o hb2 by (auto simp: F2 A2)
  have cur: "cur < length (ptable s3)" using q by (simp add: quiet_def 3(9) S2)
  obtain s4 where 4: "brelse cur i s3 = Ret s4" "binv s4" "blk_view s4 = blk_view s3" "held_blks s4 = held_blks s3 - {blk}"
    "dirty_blks s4 = dirty_blks s3" "disk s4 = disk s3" "disk_log s4 = disk_log s3" "length (ptable s4) = length (ptable s3)"
    "bst.more s4 = bst.more s3"
    using brelse_ok [OF 3(2,5) _ cur] 3(6) by blast
  note F4 = log_fields [OF 4(9)]
  have more4: "lst.more s4 = lst.more s" using 4(9) 3(15) S2(4) by (cases s; cases s2; cases s3; cases s4) simp
  have "quiet cur s4" using cur by (simp add: quiet_def 4(2,4,8) 3(4) D(3) 1(8))
  moreover have "log_ok (add_blk blk bs) s4"
    using 3(10) by (simp add: log_ok_def log_geom_def trans_def F4 log_area_cong [OF F4(1)] 4(5,6))
  ultimately have "in_tx cur (add_blk blk bs) s4" using o by (simp add: in_tx_def F4 3(13) F2)
  moreover have "same_log s s4"
    by (simp add: same_log_def F4 3(7-9,11-14) F2 S2 4(6-8))
  moreover have "log_update cur 1 blk f s = Ret s4" by (simp add: log_update_def 1(1) up 3(1) 4(1))
  moreover have "blk_view s4 = (blk_view s)(blk := f (blk_view s blk))" by (simp add: 4(3) 3(3) D(2) 1(6))
  ultimately show ?thesis using more4 by blast
qed

lemma begin_op_ok:
  assumes q: "quiet cur s" and ok: "log_ok [] s" and o: "log_outstanding s = 0" and c: "\<not> log_committing s"
  shows "begin_op s = Ret (s\<lparr>log_outstanding := 1\<rparr>)" and "in_tx cur [] (s\<lparr>log_outstanding := 1\<rparr>)"
proof -
  have n: "lh_n s = 0" using ok by (simp add: log_ok_def trans_def)
  have "sint (10 :: s32) = 10" by simp
  then show "begin_op s = Ret (s\<lparr>log_outstanding := 1\<rparr>)"
    using o c n by (simp add: begin_op_def MAXOPBLOCKS_def LOGSIZE_def)
  show "in_tx cur [] (s\<lparr>log_outstanding := 1\<rparr>)"
    using q ok by (simp add: in_tx_def log_ok_def log_geom_def trans_def log_area_def log_blk_def)
qed

section \<open>Properties\<close>

text \<open>
  C14. Transactions are atomic with respect to crashes. The last \<open>end_op\<close> of a transaction commits it by a sequence
  of disk writes. If the machine stops after any number \<open>k\<close> of these writes (all or none included) and
  boots again with the disk so left and an empty cache, \<open>initlog\<close> succeeds, and either every block
  outside the log has its contents from before the transaction, or every one has the contents the
  transaction gave it in the cache; the log is empty again.
\<close>

theorem end_op_crash_atomic:
  fixes s :: "'a lst_scheme"
  assumes "quiet cur s" and "log_ok bs s" and "log_outstanding s = 1" and "\<not> log_committing s" and "Suc (length bs) < NBUF"
  shows "\<exists>s'. end_op cur s = Ret s' \<and>
    (\<forall>k me r. quiet me r \<and> dirty_blks r = {} \<and> disk (r :: 'a lst_scheme) = crash_disk k s s' \<longrightarrow>
      (\<exists>r'. initlog me 1 r = Ret r' \<and> quiet me r' \<and> lh_n r' = 0 \<and> get32 (disk r' 1 (log_start s)) 0 = 0
        \<and> ((\<forall>b. b \<notin> log_area s \<longrightarrow> disk r' 1 b = disk s 1 b)
          \<or> (\<forall>b. b \<notin> log_area s \<longrightarrow> disk r' 1 b = blk_view s b))))"
proof -
  let ?W = "if bs = [] then [] else commit_writes bs s"
  obtain s' where S: "end_op cur s = Ret s'" "wrote cur ?W s s'"
    using end_op_last [OF assms] by blast
  have "?W = [] \<or> ?W = commit_writes bs s" by simp
  from crash_recovers [OF assms(1,2) this] crash_disk_wrote [OF S(2)] S(1)
  show ?thesis by metis
qed

text \<open>
  C15. A committed transaction is durable: when the last \<open>end_op\<close> of a transaction returns, the disk holds
  the cached contents of every block outside the log, the cache has not changed them, no block is dirty, and the log
  is ready for the next transaction.
\<close>

theorem end_op_durable:
  assumes "quiet cur s" and "log_ok bs s" and "log_outstanding s = 1" and "\<not> log_committing s" and "Suc (length bs) < NBUF"
  shows "\<exists>s'. end_op cur s = Ret s' \<and> quiet cur s' \<and> log_ok [] s' \<and> log_outstanding s' = 0 \<and> \<not> log_committing s'
    \<and> (\<forall>b. b \<notin> log_area s \<longrightarrow> disk s' 1 b = blk_view s b \<and> blk_view s' b = blk_view s b)"
proof -
  let ?W = "if bs = [] then [] else commit_writes bs s"
  note O = log_okD [OF assms(1,2)]
  obtain s' where S: "end_op cur s = Ret s'" "wrote cur ?W s s'"
    "bst.more s' = bst.more (s\<lparr>log_outstanding := 0, log_committing := False, lh_n := 0\<rparr>)"
    using end_op_last [OF assms] by blast
  note F = log_fields [OF S(3), simplified]
  note A = log_area_cong [OF F(1)]
  have "set bs \<subseteq> fst ` set (commit_writes bs s)" by (force simp: commit_writes_def)
  then have d: "dirty_blks s' = {}" using wroteD(5) [OF S(2)] O(3) by auto
  then have v: "blk_view s' = disk s' 1"
    using unheld_clean [of s'] wroteD(1) [OF S(2)] by (auto simp: quiet_def fun_eq_iff)
  have D: "get32 (disk s' 1 (log_start s)) 0 = 0" "length (disk s' 1 (log_start s)) = BSIZE"
    "\<And>b. b \<notin> log_area s \<Longrightarrow> disk s' 1 b = blk_view s b"
    using commit_final [OF assms(1,2) refl] O(4) assms(2) wroteD(3) [OF S(2)]
    by (cases "bs = []"; simp add: log_ok_def)+
  have 1: "1 \<notin> set bs" "1 \<notin> log_area s" using assms(2) by (simp_all add: log_ok_def)
  have "log_ok [] s'"
    using assms(2) D d O(4) [OF 1(1)] by (simp add: log_ok_def log_geom_def trans_def F A)
  then show ?thesis using S(1) wroteD(1) [OF S(2)] D(3) v F by auto
qed


section \<open>Concrete states\<close>

text \<open>A machine that boots with the disk \<open>D\<close>; \<open>disk0\<close> has its log at block 2 and is otherwise empty.\<close>

definition boot :: "(u32 \<Rightarrow> u32 \<Rightarrow> u8 list) \<Rightarrow> lst" where
  "boot D = binit (bst.extend (bst0\<lparr>disk := D\<rparr>) (lst.fields 2 30 0 False 1 0 (replicate LOGSIZE 0)))"

definition disk0 :: "u32 \<Rightarrow> u32 \<Rightarrow> u8 list" where
  "disk0 = (\<lambda>_ b. if b = 1 then put32 (replicate BSIZE 0) 16 2 else replicate BSIZE 0)"

lemma binit_more: "bst.more (binit s) = bst.more s" "disk_log (binit s) = disk_log s"
proof -
  have "bst.more (fold (\<lambda>b s. upd_buf b f (s\<lparr>bufs := push_buf b (bufs s)\<rparr>)) xs t) = bst.more t
    \<and> disk_log (fold (\<lambda>b s. upd_buf b f (s\<lparr>bufs := push_buf b (bufs s)\<rparr>)) xs t) = disk_log t" for f xs and t :: "'a bst_scheme"
    by (induction xs arbitrary: t) simp_all
  then show "bst.more (binit s) = bst.more s" "disk_log (binit s) = disk_log s" by (simp_all add: binit_def)
qed

lemma boot_ok: "quiet 0 (boot D)" "dirty_blks (boot D) = {}" "log_run (boot D) []" "disk (boot D) = D"
  "log_start (boot D) = 2" "log_size (boot D) = 30" "log_outstanding (boot D) = 0" "\<not> log_committing (boot D)"
  "log_dev (boot D) = 1" "lh_n (boot D) = 0" "lh_block (boot D) = replicate LOGSIZE 0" "disk_log (boot D) = []"
proof -
  let ?s = "bst.extend (bst0\<lparr>disk := D\<rparr>) (lst.fields 2 30 0 False 1 0 (replicate LOGSIZE 0))"
  have len: "length (bufs ?s) = Suc NBUF" by (simp add: bst.defs bst0_def del: replicate_Suc)
  have idle: "idle_buf (bufs ?s ! j)" if "j < NBUF" for j
    using that by (simp add: bst.defs bst0_def idle_buf_def initsleeplock_def del: replicate_Suc)
  have hd: "havedisk1 ?s" "ptable ?s = replicate NPROC proc0" "disk_log ?s = []" by (simp_all add: bst.defs bst0_def)
  note B = binit_ok [OF len idle hd(1)]
  show "quiet 0 (boot D)" "dirty_blks (boot D) = {}"
    using B hd(2) unfolding boot_def quiet_def by (simp_all add: NPROC_def)
  show "disk (boot D) = D" using B(4) unfolding boot_def by (simp add: bst.defs)
  have M: "bst.more (boot D) = bst.more ?s" by (simp only: boot_def binit_more)
  note F = log_fields [OF M]
  show "log_start (boot D) = 2" "log_size (boot D) = 30" "log_outstanding (boot D) = 0" "\<not> log_committing (boot D)"
    "log_dev (boot D) = 1" "lh_n (boot D) = 0" "lh_block (boot D) = replicate LOGSIZE 0"
    unfolding F by (simp_all add: bst.defs lst.defs)
  then show "log_run (boot D) []"
    by (intro run_init) (simp_all add: LOGSIZE_def MAXOPBLOCKS_def)
  show "disk_log (boot D) = []" using hd(3) by (simp only: boot_def binit_more)
qed

lemma boot0_log_ok: "log_ok [] (boot disk0)" "home_blk (boot disk0) 100"
proof -
  have g: "log_geom (boot disk0)" by (simp add: log_geom_def boot_ok LOGSIZE_def MAXOPBLOCKS_def FSSIZE_def)
  have "unat b \<in> {2..32}" if "b \<in> log_area (boot disk0)" for b
    using that unat_log_blk [OF g] by (auto simp: log_area_def boot_ok LOGSIZE_def MAXOPBLOCKS_def)
  then have "1 \<notin> log_area (boot disk0)" "100 \<notin> log_area (boot disk0)" by fastforce+
  moreover have "get32 (replicate BSIZE 0) 0 = 0" by (simp add: get32_def BSIZE_def)
  ultimately show "log_ok [] (boot disk0)" "home_blk (boot disk0) 100"
    using g by (simp_all add: log_ok_def trans_def boot_ok disk0_def dec_sb_def home_blk_def FSSIZE_def BSIZE_def)
qed

lemma transaction1:
  "\<exists>s. obind (begin_op (boot disk0)) (log_update 0 1 100 (\<lambda>_. replicate BSIZE 7)) = Ret s \<and> quiet 0 s \<and> log_ok [100] s
    \<and> log_outstanding s = 1 \<and> \<not> log_committing s \<and> disk s 1 100 = replicate BSIZE 0 \<and> blk_view s 100 = replicate BSIZE 7"
proof -
  note B = begin_op_ok [OF boot_ok(1) boot0_log_ok(1) boot_ok(7,8)]
  have r: "log_room 1 [] ((boot disk0)\<lparr>log_outstanding := 1\<rparr>)"
    by (simp add: log_room_def boot_ok LOGSIZE_def MAXOPBLOCKS_def NBUF_def)
  have h: "home_blk ((boot disk0)\<lparr>log_outstanding := 1\<rparr>) 100"
    using boot0_log_ok(2) by (simp add: home_blk_def log_area_def log_blk_def)
  obtain s where S: "log_update 0 1 100 (\<lambda>_. replicate BSIZE 7) ((boot disk0)\<lparr>log_outstanding := 1\<rparr>) = Ret s"
    "in_tx 0 (add_blk 100 []) s" "blk_view s = (blk_view ((boot disk0)\<lparr>log_outstanding := 1\<rparr>))(100 := replicate BSIZE 7)"
    "same_log ((boot disk0)\<lparr>log_outstanding := 1\<rparr>) s"
    using log_update_ok [OF B(2) r h, of "\<lambda>_. replicate BSIZE 7"] by blast
  have "disk0 1 100 = replicate BSIZE 0" by (simp add: disk0_def)
  then show ?thesis
    using S by (intro exI [of _ s]) (simp add: B(1) in_tx_def same_log_def boot_ok add_blk_def)
qed

theorem end_op_crash_atomic_witness:
  "\<exists>(s :: lst) s'. log_ok [100] s \<and> disk s 1 100 \<noteq> blk_view s 100 \<and> end_op 0 s = Ret s' \<and>
    (\<forall>k. \<exists>r'. initlog 0 1 (boot (crash_disk k s s')) = Ret r' \<and> get32 (disk r' 1 (log_start s)) 0 = 0
      \<and> ((\<forall>b. b \<notin> log_area s \<longrightarrow> disk r' 1 b = disk s 1 b) \<or> (\<forall>b. b \<notin> log_area s \<longrightarrow> disk r' 1 b = blk_view s b)))"
proof -
  obtain s :: lst where s: "quiet 0 s" "log_ok [100] s" "log_outstanding s = 1" "\<not> log_committing s"
    "disk s 1 100 = replicate BSIZE 0" "blk_view s 100 = replicate BSIZE 7"
    using transaction1 by blast
  have "disk s 1 100 \<noteq> blk_view s 100" by (simp add: s(5,6) BSIZE_def)
  moreover have "Suc (length [100 :: u32]) < NBUF" by (simp add: NBUF_def MAXOPBLOCKS_def)
  ultimately show ?thesis
    using end_op_crash_atomic [OF s(1-4)] s(2) boot_ok(1,2,4) by metis
qed

theorem end_op_durable_witness:
  "\<exists>(s :: lst) s'. log_ok [100] s \<and> end_op 0 s = Ret s' \<and> disk s 1 100 = replicate BSIZE 0 \<and> disk s' 1 100 = replicate BSIZE 7"
proof -
  obtain s where s: "obind (begin_op (boot disk0)) (log_update 0 1 100 (\<lambda>_. replicate BSIZE 7)) = Ret s"
    "quiet 0 s" "log_ok [100] s" "log_outstanding s = 1" "\<not> log_committing s"
    "disk s 1 100 = replicate BSIZE 0" "blk_view s 100 = replicate BSIZE 7"
    using transaction1 by blast
  have "Suc (length [100 :: u32]) < NBUF" by (simp add: NBUF_def MAXOPBLOCKS_def)
  moreover have "100 \<notin> log_area s" using s(3) by (simp add: log_ok_def trans_def)
  ultimately show ?thesis
    using end_op_durable [OF s(2-5)] s(3,6,7) by metis
qed


end
