(* ===== verification/Inode.thy ===== *)
theory Inode
  imports Log
begin

unbundle bit_operations_syntax

text \<open>
  The block allocator, the inodes and the contents of files of \<open>fs.c\<close>. The record \<open>fsst\<close> adds the variables
  \<open>sb\<close> and \<open>icache\<close> to the state; an inode pointer is an index into \<open>icache\<close>. A routine that copies to or from a buffer of its
  caller takes or returns the list of the bytes. Sections under \<open>icache.lock\<close> are single steps. The device switch,
  whose functions are in \<open>console.c\<close>, is an argument of \<open>readi\<close> and \<open>writei\<close>.
\<close>

section \<open>Constants and structures of fs.h, stat.h and file.h\<close>

definition ROOTINO :: u32 where "ROOTINO = 1"
definition NDIRECT :: nat where "NDIRECT = 12"
definition NINDIRECT :: nat where "NINDIRECT = BSIZE div 4"
definition MAXFILE :: nat where "MAXFILE = NDIRECT + NINDIRECT"
definition IPB :: nat where "IPB = BSIZE div 64"
definition BPB :: nat where "BPB = BSIZE * 8"
definition T_DIR :: s16 where "T_DIR = 1"
definition T_FILE :: s16 where "T_FILE = 2"
definition T_DEV :: s16 where "T_DEV = 3"

lemmas fs_consts = NDIRECT_def NINDIRECT_def MAXFILE_def IPB_def BPB_def BSIZE_def

record dinode =
  d_type :: s16
  d_major :: s16
  d_minor :: s16
  d_nlink :: s16
  d_size :: u32
  d_addrs :: "u32 list"

record inode =
  i_dev :: u32
  i_inum :: u32
  i_ref :: s32
  i_lock :: sleeplock
  i_valid :: bool
  i_type :: s16
  i_major :: s16
  i_minor :: s16
  i_nlink :: s16
  i_size :: u32
  i_addrs :: "u32 list"

record fsst = lst +
  sb :: superblock
  icache :: "inode list"

record 's devops =
  dev_read :: "(nat \<Rightarrow> u32 \<Rightarrow> 's \<Rightarrow> (s32 \<times> u8 list \<times> 's) outcome) option"
  dev_write :: "(nat \<Rightarrow> u8 list \<Rightarrow> 's \<Rightarrow> (s32 \<times> 's) outcome) option"

text \<open>The on-disk inode at byte \<open>k\<close> of a block's data.\<close>

definition get_dinode :: "u8 list \<Rightarrow> nat \<Rightarrow> dinode" where
  "get_dinode d k = \<lparr>d_type = get16 d k, d_major = get16 d (k + 2), d_minor = get16 d (k + 4),
     d_nlink = get16 d (k + 6), d_size = get32 d (k + 8), d_addrs = get32s d (k + 12) (NDIRECT + 1)\<rparr>"

definition put_dinode :: "u8 list \<Rightarrow> nat \<Rightarrow> dinode \<Rightarrow> u8 list" where
  "put_dinode d k di = put32s (put32 (put16 (put16 (put16 (put16 d k (d_type di)) (k + 2) (d_major di))
     (k + 4) (d_minor di)) (k + 6) (d_nlink di)) (k + 8) (d_size di)) (k + 12) (d_addrs di)"

definition IBLOCK :: "u32 \<Rightarrow> superblock \<Rightarrow> u32" where
  "IBLOCK i sp = i div of_nat IPB + sb_inodestart sp"

definition ioff :: "u32 \<Rightarrow> nat" where
  "ioff i = 64 * (unat i mod IPB)"

definition BBLOCK :: "u32 \<Rightarrow> superblock \<Rightarrow> u32" where
  "BBLOCK b sp = b div of_nat BPB + sb_bmapstart sp"

definition upd_inode :: "nat \<Rightarrow> (inode \<Rightarrow> inode) \<Rightarrow> 'a fsst_scheme \<Rightarrow> 'a fsst_scheme" where
  "upd_inode ip f s = s\<lparr>icache := (icache s)[ip := f (icache s ! ip)]\<rparr>"

section \<open>Blocks\<close>

definition bzero :: "nat \<Rightarrow> u32 \<Rightarrow> u32 \<Rightarrow> 'a lst_scheme \<Rightarrow> 'a lst_scheme outcome" where
  "bzero cur dev bno s = log_update cur dev bno (\<lambda>d. replicate BSIZE 0) s"

definition bit_mask :: "nat \<Rightarrow> u8" where
  "bit_mask bi = push_bit (bi mod 8) 1"

text \<open>The inner loop of \<open>balloc\<close>: the first clear bit of the block of the map, among those of existing blocks.\<close>

definition free_bit :: "u8 list \<Rightarrow> nat \<Rightarrow> nat \<Rightarrow> nat option" where
  "free_bit d b sz = find_slot (\<lambda>bi. d ! (bi div 8) AND bit_mask bi = 0) [0..<min BPB (sz - b)]"

fun balloc_loop :: "nat \<Rightarrow> u32 \<Rightarrow> nat list \<Rightarrow> 'a fsst_scheme \<Rightarrow> (u32 \<times> 'a fsst_scheme) outcome" where
  "balloc_loop cur dev [] s = Panic ''balloc: out of blocks''"
| "balloc_loop cur dev (b # bs) s =
     obind (bread cur dev (BBLOCK (of_nat b) (sb s)) s) (\<lambda>(bp, s).
     case free_bit (b_data (bufs s ! bp)) b (unat (sb_size (sb s))) of
       Some bi \<Rightarrow>
         let s = upd_buf bp (\<lambda>x. x\<lparr>b_data := (b_data x)[bi div 8 := b_data x ! (bi div 8) OR bit_mask bi]\<rparr>) s in
         obind (log_write bp s) (\<lambda>s.
         obind (brelse cur bp s) (\<lambda>s.
         obind (bzero cur dev (of_nat (b + bi)) s) (\<lambda>s.
         Ret (of_nat (b + bi), s))))
     | None \<Rightarrow> obind (brelse cur bp s) (balloc_loop cur dev bs))"

text \<open>The values of \<open>b\<close> in the outer loop: the multiples of \<open>BPB\<close> below \<open>sb.size\<close>.\<close>

definition balloc :: "nat \<Rightarrow> u32 \<Rightarrow> 'a fsst_scheme \<Rightarrow> (u32 \<times> 'a fsst_scheme) outcome" where
  "balloc cur dev s =
     balloc_loop cur dev (map (\<lambda>k. k * BPB) [0..<(unat (sb_size (sb s)) + BPB - 1) div BPB]) s"

definition bfree :: "nat \<Rightarrow> u32 \<Rightarrow> u32 \<Rightarrow> 'a fsst_scheme \<Rightarrow> 'a fsst_scheme outcome" where
  "bfree cur dev b s =
     obind (bread cur dev (BBLOCK b (sb s)) s) (\<lambda>(bp, s).
     let bi = unat b mod BPB; d = b_data (bufs s ! bp) in
     if d ! (bi div 8) AND bit_mask bi = 0 then Panic ''freeing free block''
     else
       let s = upd_buf bp (\<lambda>x. x\<lparr>b_data := d[bi div 8 := d ! (bi div 8) AND NOT (bit_mask bi)]\<rparr>) s in
       obind (log_write bp s) (brelse cur bp))"

section \<open>Inodes\<close>

definition iinit :: "nat \<Rightarrow> u32 \<Rightarrow> 'a fsst_scheme \<Rightarrow> 'a fsst_scheme outcome" where
  "iinit cur dev s =
     (let s = s\<lparr>icache := map (\<lambda>ip. ip\<lparr>i_lock := initsleeplock ''inode''\<rparr>) (icache s)\<rparr> in
      obind (readsb cur dev s) (\<lambda>(b, s). Ret (s\<lparr>sb := b\<rparr>)))"

definition iget :: "u32 \<Rightarrow> u32 \<Rightarrow> 'a fsst_scheme \<Rightarrow> (nat \<times> 'a fsst_scheme) outcome" where
  "iget dev inum s =
     (case find_slot (\<lambda>ip. sint (i_ref ip) > 0 \<and> i_dev ip = dev \<and> i_inum ip = inum) (icache s) of
        Some ip \<Rightarrow> Ret (ip, upd_inode ip (\<lambda>i. i\<lparr>i_ref := i_ref i + 1\<rparr>) s)
      | None \<Rightarrow>
          (case find_slot (\<lambda>ip. i_ref ip = 0) (icache s) of
             None \<Rightarrow> Panic ''iget: no inodes''
           | Some ip \<Rightarrow>
               Ret (ip, upd_inode ip (\<lambda>i. i\<lparr>i_dev := dev, i_inum := inum, i_ref := 1, i_valid := False\<rparr>) s)))"

fun ialloc_loop :: "nat \<Rightarrow> u32 \<Rightarrow> s16 \<Rightarrow> nat list \<Rightarrow> 'a fsst_scheme \<Rightarrow> (nat \<times> 'a fsst_scheme) outcome" where
  "ialloc_loop cur dev ty [] s = Panic ''ialloc: no inodes''"
| "ialloc_loop cur dev ty (inum # is) s =
     obind (bread cur dev (IBLOCK (of_nat inum) (sb s)) s) (\<lambda>(bp, s).
     let k = ioff (of_nat inum) in
     if d_type (get_dinode (b_data (bufs s ! bp)) k) = 0 then
       let s = upd_buf bp (\<lambda>x. x\<lparr>b_data := put_dinode (b_data x) k
                 \<lparr>d_type = ty, d_major = 0, d_minor = 0, d_nlink = 0, d_size = 0, d_addrs = replicate (NDIRECT + 1) 0\<rparr>\<rparr>) s in
       obind (log_write bp s) (\<lambda>s.
       obind (brelse cur bp s) (iget dev (of_nat inum)))
     else obind (brelse cur bp s) (ialloc_loop cur dev ty is))"

definition ialloc :: "nat \<Rightarrow> u32 \<Rightarrow> s16 \<Rightarrow> 'a fsst_scheme \<Rightarrow> (nat \<times> 'a fsst_scheme) outcome" where
  "ialloc cur dev ty s = ialloc_loop cur dev ty [1..<unat (sb_ninodes (sb s))] s"

definition iupdate :: "nat \<Rightarrow> nat \<Rightarrow> 'a fsst_scheme \<Rightarrow> 'a fsst_scheme outcome" where
  "iupdate cur ip s =
     (let i = icache s ! ip in
      log_update cur (i_dev i) (IBLOCK (i_inum i) (sb s))
        (\<lambda>d. put_dinode d (ioff (i_inum i)) \<lparr>d_type = i_type i, d_major = i_major i, d_minor = i_minor i,
           d_nlink = i_nlink i, d_size = i_size i, d_addrs = i_addrs i\<rparr>) s)"

definition idup :: "nat \<Rightarrow> 'a fsst_scheme \<Rightarrow> nat \<times> 'a fsst_scheme" where
  "idup ip s = (ip, upd_inode ip (\<lambda>i. i\<lparr>i_ref := i_ref i + 1\<rparr>) s)"

definition ilock :: "nat \<Rightarrow> nat option \<Rightarrow> 'a fsst_scheme \<Rightarrow> 'a fsst_scheme outcome" where
  "ilock cur ipo s =
     (case ipo of
        None \<Rightarrow> Panic ''ilock''
      | Some ip \<Rightarrow>
          if sint (i_ref (icache s ! ip)) < 1 then Panic ''ilock''
          else
            obind (acquiresleep cur (ChanInodeLock ip) (i_lock (icache s ! ip)) s) (\<lambda>lk.
            let s = upd_inode ip (\<lambda>i. i\<lparr>i_lock := lk\<rparr>) s; i = icache s ! ip in
            if i_valid i then Ret s
            else
              obind (bread cur (i_dev i) (IBLOCK (i_inum i) (sb s)) s) (\<lambda>(bp, s).
              let di = get_dinode (b_data (bufs s ! bp)) (ioff (i_inum i));
                  s = upd_inode ip (\<lambda>i. i\<lparr>i_type := d_type di, i_major := d_major di, i_minor := d_minor di,
                        i_nlink := d_nlink di, i_size := d_size di, i_addrs := d_addrs di\<rparr>) s in
              obind (brelse cur bp s) (\<lambda>s.
              let s = upd_inode ip (\<lambda>i. i\<lparr>i_valid := True\<rparr>) s in
              if i_type (icache s ! ip) = 0 then Panic ''ilock: no type'' else Ret s))))"

definition unlock_inode :: "nat \<Rightarrow> 'a fsst_scheme \<Rightarrow> 'a fsst_scheme" where
  "unlock_inode ip s =
     (let (lk, s) = releasesleep (ChanInodeLock ip) (i_lock (icache s ! ip)) s in upd_inode ip (\<lambda>i. i\<lparr>i_lock := lk\<rparr>) s)"

definition iunlock :: "nat \<Rightarrow> nat option \<Rightarrow> 'a fsst_scheme \<Rightarrow> 'a fsst_scheme outcome" where
  "iunlock cur ipo s =
     (case ipo of
        None \<Rightarrow> Panic ''iunlock''
      | Some ip \<Rightarrow>
          if \<not> holdingsleep cur (i_lock (icache s ! ip)) s \<or> sint (i_ref (icache s ! ip)) < 1 then Panic ''iunlock''
          else Ret (unlock_inode ip s))"

section \<open>Contents\<close>

definition bmap :: "nat \<Rightarrow> nat \<Rightarrow> u32 \<Rightarrow> 'a fsst_scheme \<Rightarrow> (u32 \<times> 'a fsst_scheme) outcome" where
  "bmap cur ip bn s =
     (let i = icache s ! ip in
      if bn < of_nat NDIRECT then
        let k = unat bn; addr = i_addrs i ! k in
        if addr = 0 then
          obind (balloc cur (i_dev i) s) (\<lambda>(addr, s).
          Ret (addr, upd_inode ip (\<lambda>i. i\<lparr>i_addrs := (i_addrs i)[k := addr]\<rparr>) s))
        else Ret (addr, s)
      else
        let bn = bn - of_nat NDIRECT in
        if bn < of_nat NINDIRECT then
          let k = unat bn in
          obind (if i_addrs i ! NDIRECT = 0 then
                   obind (balloc cur (i_dev i) s) (\<lambda>(addr, s).
                   Ret (addr, upd_inode ip (\<lambda>i. i\<lparr>i_addrs := (i_addrs i)[NDIRECT := addr]\<rparr>) s))
                 else Ret (i_addrs i ! NDIRECT, s)) (\<lambda>(addr, s).
          obind (bread cur (i_dev i) addr s) (\<lambda>(bp, s).
          let addr = get32 (b_data (bufs s ! bp)) (4 * k) in
          obind (if addr = 0 then
                   obind (balloc cur (i_dev i) s) (\<lambda>(addr, s).
                   let s = upd_buf bp (\<lambda>x. x\<lparr>b_data := put32 (b_data x) (4 * k) addr\<rparr>) s in
                   obind (log_write bp s) (\<lambda>s. Ret (addr, s)))
                 else Ret (addr, s)) (\<lambda>(addr, s).
          obind (brelse cur bp s) (\<lambda>s. Ret (addr, s)))))
        else Panic ''bmap: out of range'')"

definition itrunc_direct :: "nat \<Rightarrow> nat \<Rightarrow> nat \<Rightarrow> 'a fsst_scheme \<Rightarrow> 'a fsst_scheme outcome" where
  "itrunc_direct cur ip k s =
     (let i = icache s ! ip in
      if i_addrs i ! k \<noteq> 0 then
        obind (bfree cur (i_dev i) (i_addrs i ! k) s) (\<lambda>s.
        Ret (upd_inode ip (\<lambda>i. i\<lparr>i_addrs := (i_addrs i)[k := 0]\<rparr>) s))
      else Ret s)"

definition itrunc :: "nat \<Rightarrow> nat \<Rightarrow> 'a fsst_scheme \<Rightarrow> 'a fsst_scheme outcome" where
  "itrunc cur ip s =
     obind (ofold (itrunc_direct cur ip) [0..<NDIRECT] s) (\<lambda>s.
     let i = icache s ! ip in
     obind (if i_addrs i ! NDIRECT \<noteq> 0 then
              obind (bread cur (i_dev i) (i_addrs i ! NDIRECT) s) (\<lambda>(bp, s).
              obind (ofold (\<lambda>j s. let a = get32 (b_data (bufs s ! bp)) (4 * j) in
                             if a \<noteq> 0 then bfree cur (i_dev i) a s else Ret s) [0..<NINDIRECT] s) (\<lambda>s.
              obind (brelse cur bp s) (\<lambda>s.
              obind (bfree cur (i_dev i) (i_addrs i ! NDIRECT) s) (\<lambda>s.
              Ret (upd_inode ip (\<lambda>i. i\<lparr>i_addrs := (i_addrs i)[NDIRECT := 0]\<rparr>) s)))))
            else Ret s) (\<lambda>s.
     iupdate cur ip (upd_inode ip (\<lambda>i. i\<lparr>i_size := 0\<rparr>) s)))"

definition iput :: "nat \<Rightarrow> nat \<Rightarrow> 'a fsst_scheme \<Rightarrow> 'a fsst_scheme outcome" where
  "iput cur ip s =
     obind (acquiresleep cur (ChanInodeLock ip) (i_lock (icache s ! ip)) s) (\<lambda>lk.
     let s = upd_inode ip (\<lambda>i. i\<lparr>i_lock := lk\<rparr>) s; i = icache s ! ip in
     obind (if i_valid i \<and> i_nlink i = 0 \<and> i_ref i = 1 then
              obind (itrunc cur ip s) (\<lambda>s.
              obind (iupdate cur ip (upd_inode ip (\<lambda>i. i\<lparr>i_type := 0\<rparr>) s)) (\<lambda>s.
              Ret (upd_inode ip (\<lambda>i. i\<lparr>i_valid := False\<rparr>) s)))
            else Ret s) (\<lambda>s.
     let s = unlock_inode ip s in
     Ret (upd_inode ip (\<lambda>i. i\<lparr>i_ref := i_ref i - 1\<rparr>) s)))"

definition iunlockput :: "nat \<Rightarrow> nat \<Rightarrow> 'a fsst_scheme \<Rightarrow> 'a fsst_scheme outcome" where
  "iunlockput cur ip s = obind (iunlock cur (Some ip) s) (iput cur ip)"

definition stati :: "nat \<Rightarrow> 'a fsst_scheme \<Rightarrow> statr" where
  "stati ip s =
     (let i = icache s ! ip in
      \<lparr>st_type = i_type i, st_dev = i_dev i, st_ino = i_inum i, st_nlink = i_nlink i, st_size = i_size i\<rparr>)"

text \<open>
  The copying loop of \<open>readi\<close>, with \<open>n\<close> the number of bytes still to be copied (\<open>n - tot\<close> in the code), and that of \<open>writei\<close> with
  the bytes still to be copied, which also returns the final \<open>off\<close>.
\<close>

definition chunk :: "u32 \<Rightarrow> u32 \<Rightarrow> u32" where
  "chunk off n = min n (of_nat BSIZE - off mod of_nat BSIZE)"

lemma chunk_pos: "n \<noteq> 0 \<Longrightarrow> unat (n - chunk off n) < unat n"
proof -
  assume n: "n \<noteq> 0"
  have "off mod 512 < 512" by (simp add: word_mod_less_divisor)
  then have "0 < 512 - off mod 512" by (simp add: word_less_nat_alt unat_sub word_le_nat_alt)
  then have "0 < chunk off n" "chunk off n \<le> n" using n by (auto simp: chunk_def BSIZE_def min_def word_gt_0)
  then show ?thesis by (simp add: unat_sub word_less_nat_alt word_le_nat_alt)
qed

function readi_loop :: "nat \<Rightarrow> nat \<Rightarrow> u32 \<Rightarrow> u32 \<Rightarrow> 'a fsst_scheme \<Rightarrow> (u8 list \<times> 'a fsst_scheme) outcome" where
  "readi_loop cur ip off n s =
     (if n = 0 then Ret ([], s)
      else
        obind (bmap cur ip (off div of_nat BSIZE) s) (\<lambda>(addr, s).
        obind (bread cur (i_dev (icache s ! ip)) addr s) (\<lambda>(bp, s).
        let m = chunk off n;
            bytes = take (unat m) (drop (unat off mod BSIZE) (b_data (bufs s ! bp))) in
        obind (brelse cur bp s) (\<lambda>s.
        obind (readi_loop cur ip (off + m) (n - m) s) (\<lambda>(rest, s).
        Ret (bytes @ rest, s))))))"
  by pat_completeness auto
termination by (relation "measure (\<lambda>(cur, ip, off, n, s). unat n)") (simp_all add: chunk_pos)

declare readi_loop.simps [simp del]

definition readi :: "'a fsst_scheme devops list \<Rightarrow> nat \<Rightarrow> nat \<Rightarrow> u32 \<Rightarrow> u32 \<Rightarrow> 'a fsst_scheme
    \<Rightarrow> (s32 \<times> u8 list \<times> 'a fsst_scheme) outcome" where
  "readi devsw cur ip off n s =
     (let i = icache s ! ip in
      if i_type i = T_DEV then
        (if sint (i_major i) < 0 \<or> sint (i_major i) \<ge> int NDEV then Ret (- 1, [], s)
         else case dev_read (devsw ! unat (i_major i)) of
                None \<Rightarrow> Ret (- 1, [], s)
              | Some rd \<Rightarrow> rd ip n s)
      else if off > i_size i \<or> off + n < off then Ret (- 1, [], s)
      else
        let n = (if off + n > i_size i then i_size i - off else n) in
        obind (readi_loop cur ip off n s) (\<lambda>(bytes, s). Ret (n, bytes, s)))"

definition write_at :: "nat \<Rightarrow> u8 list \<Rightarrow> u8 list \<Rightarrow> u8 list" where
  "write_at k bytes d = take k d @ bytes @ drop (k + length bytes) d"

function writei_loop :: "nat \<Rightarrow> nat \<Rightarrow> u8 list \<Rightarrow> u32 \<Rightarrow> u32 \<Rightarrow> 'a fsst_scheme \<Rightarrow> (u32 \<times> 'a fsst_scheme) outcome" where
  "writei_loop cur ip src off n s =
     (if n = 0 then Ret (off, s)
      else
        obind (bmap cur ip (off div of_nat BSIZE) s) (\<lambda>(addr, s).
        let m = chunk off n in
        obind (log_update cur (i_dev (icache s ! ip)) addr (write_at (unat off mod BSIZE) (take (unat m) src)) s) (\<lambda>s.
        writei_loop cur ip (drop (unat m) src) (off + m) (n - m) s)))"
  by pat_completeness auto
termination by (relation "measure (\<lambda>(cur, ip, src, off, n, s). unat n)") (simp_all add: chunk_pos)

declare writei_loop.simps [simp del]

definition writei :: "'a fsst_scheme devops list \<Rightarrow> nat \<Rightarrow> nat \<Rightarrow> u8 list \<Rightarrow> u32 \<Rightarrow> u32 \<Rightarrow> 'a fsst_scheme
    \<Rightarrow> (s32 \<times> 'a fsst_scheme) outcome" where
  "writei devsw cur ip src off n s =
     (let i = icache s ! ip in
      if i_type i = T_DEV then
        (if sint (i_major i) < 0 \<or> sint (i_major i) \<ge> int NDEV then Ret (- 1, s)
         else case dev_write (devsw ! unat (i_major i)) of
                None \<Rightarrow> Ret (- 1, s)
              | Some wr \<Rightarrow> wr ip (take (unat n) src) s)
      else if off > i_size i \<or> off + n < off then Ret (- 1, s)
      else if off + n > of_nat (MAXFILE * BSIZE) then Ret (- 1, s)
      else
        obind (writei_loop cur ip src off n s) (\<lambda>(off, s).
        if n > 0 \<and> off > i_size (icache s ! ip) then
          obind (iupdate cur ip (upd_inode ip (\<lambda>i. i\<lparr>i_size := off\<rparr>) s)) (\<lambda>s. Ret (n, s))
        else Ret (n, s)))"

end
