(* ===== verification/Blocks.thy ===== *)
theory Blocks
  imports Inode
begin

text \<open>
  The steps by which \<open>fs.c\<close> works on blocks, as contracts: \<open>bread\<close>, changing a buffer and \<open>log_write\<close>, \<open>brelse\<close>, while
  one other buffer may be held. \<open>rd\<close> is the state in which blocks can be read, \<open>tx\<close> that of a
  system call in a transaction that may still log \<open>k\<close> more blocks. On them rest the lemmas on the
  allocator: \<open>balloc\<close> delivers a zeroed block that was free, and changes nothing else but the block's bit of the map.
\<close>

section \<open>Reading and logging\<close>

definition rd :: "nat \<Rightarrow> u32 set \<Rightarrow> 'a lst_scheme \<Rightarrow> bool" where
  "rd cur H s \<longleftrightarrow> binv s \<and> held_blks s = H \<and> cur < length (ptable s) \<and> card (dirty_blks s) + 2 \<le> NBUF
     \<and> (\<forall>b. b \<in> dirty_blks s \<or> blk_view s b = disk s 1 b)"

definition tx :: "nat \<Rightarrow> u32 set \<Rightarrow> nat \<Rightarrow> 'a lst_scheme \<Rightarrow> bool" where
  "tx cur H k s \<longleftrightarrow> rd cur H s \<and> 1 \<le> sint (log_outstanding s)
     \<and> (\<exists>bs. log_ok bs s \<and> length bs + k < LOGSIZE \<and> int (length bs + k) < sint (log_size s - 1) \<and> length bs + k + 2 \<le> NBUF)"

text \<open>What every operation on blocks leaves alone.\<close>

definition keeps :: "nat \<Rightarrow> 'a lst_scheme \<Rightarrow> 'a lst_scheme \<Rightarrow> bool" where
  "keeps cur s s' \<longleftrightarrow> same_log s s' \<and> lst.more s' = lst.more s \<and> (\<forall>j b. has_buf cur s j b \<longrightarrow> has_buf cur s' j b)"

lemma keeps_refl [simp]: "keeps cur s s"
  by (simp add: keeps_def)

lemma keeps_trans: "keeps cur s t \<Longrightarrow> keeps cur t u \<Longrightarrow> keeps cur s u"
  unfolding keeps_def using same_log_trans by fastforce

lemma tx_rd: "tx cur H k s \<Longrightarrow> rd cur H s"
  by (simp add: tx_def)

lemma tx_weaken: "tx cur H k s \<Longrightarrow> j \<le> k \<Longrightarrow> tx cur H j s"
  unfolding tx_def by fastforce

lemma has_buf_data: "rd cur H s \<Longrightarrow> has_buf cur s i b \<Longrightarrow> b_data (bufs s ! i) = blk_view s b \<and> b \<in> H"
  using blk_view_cached [of s i b] by (auto simp: rd_def has_buf_def held_blks_def holdingsleep_def)

lemma rd_bread:
  assumes r: "rd cur H s" and H: "card H \<le> 1" "b \<notin> H" and b: "unat b < FSSIZE"
  shows "\<exists>i s1. bread cur 1 b s = Ret (i, s1) \<and> rd cur (insert b H) s1 \<and> has_buf cur s1 i b
    \<and> b_data (bufs s1 ! i) = blk_view s b \<and> blk_view s1 = blk_view s \<and> dirty_blks s1 = dirty_blks s
    \<and> bst.more s1 = bst.more s \<and> disk s1 = disk s \<and> disk_log s1 = disk_log s \<and> length (ptable s1) = length (ptable s)
    \<and> (\<forall>j c. has_buf cur s j c \<longrightarrow> has_buf cur s1 j c)"
proof -
  have R: "binv s" "held_blks s = H" "cur < length (ptable s)" "card (dirty_blks s) + 2 \<le> NBUF"
    "\<forall>b. b \<in> dirty_blks s \<or> blk_view s b = disk s 1 b" using r by (simp_all add: rd_def)
  have "card (dirty_blks s \<union> held_blks s) \<le> card (dirty_blks s) + card H" using card_Un_le R(2) by blast
  then have c: "card (dirty_blks s \<union> held_blks s) < NBUF" using R(4) H(1) by linarith
  have bh: "b \<notin> held_blks s" using H R(2) by simp
  obtain i f where i: "bread cur 1 b s = Ret (i, upd_buf i f s)" "\<not> sl_locked (b_lock (bufs s ! i))"
    "binv (upd_buf i f s)" "blk_view (upd_buf i f s) = blk_view s" "dirty_blks (upd_buf i f s) = dirty_blks s"
    "held_blks (upd_buf i f s) = insert b (held_blks s)" "has_buf cur (upd_buf i f s) i b"
    "b_data (bufs (upd_buf i f s) ! i) = blk_view s b"
    using bread_ok [OF R(1) b bh c, of cur] by blast
  have "has_buf cur (upd_buf i f s) j c" if "has_buf cur s j c" for j c
  proof -
    have "j \<noteq> i" using that i(2) by (auto simp: has_buf_def holdingsleep_def)
    then show ?thesis using that by (simp add: has_buf_def holdingsleep_def)
  qed
  then show ?thesis
    using i R by (intro exI [of _ i] exI [of _ "upd_buf i f s"]) (simp add: rd_def)
qed

lemma rd_brelse:
  assumes r: "rd cur H s" and hb: "has_buf cur s i b"
  shows "\<exists>s'. brelse cur i s = Ret s' \<and> rd cur (H - {b}) s' \<and> blk_view s' = blk_view s \<and> dirty_blks s' = dirty_blks s
    \<and> bst.more s' = bst.more s \<and> disk s' = disk s \<and> disk_log s' = disk_log s \<and> length (ptable s') = length (ptable s)
    \<and> (\<forall>j c. c \<noteq> b \<longrightarrow> has_buf cur s j c \<longrightarrow> has_buf cur s' j c)"
proof -
  have R: "binv s" "held_blks s = H" "cur < length (ptable s)" "card (dirty_blks s) + 2 \<le> NBUF"
    "\<forall>b. b \<in> dirty_blks s \<or> blk_view s b = disk s 1 b" using r by (simp_all add: rd_def)
  obtain s' where s': "brelse cur i s = Ret s'" "binv s'" "blk_view s' = blk_view s" "held_blks s' = held_blks s - {b}"
    "\<forall>j c. j \<noteq> i \<longrightarrow> has_buf cur s j c \<longrightarrow> has_buf cur s' j c \<and> b_data (bufs s' ! j) = b_data (bufs s ! j)"
    "dirty_blks s' = dirty_blks s" "disk s' = disk s" "disk_log s' = disk_log s"
    "length (ptable s') = length (ptable s)" "bst.more s' = bst.more s"
    using brelse_ok [OF R(1) hb _ R(3)] R(5) by blast
  have "has_buf cur s' j c" if "c \<noteq> b" "has_buf cur s j c" for j c
  proof -
    have "j \<noteq> i" using that hb by (auto simp: has_buf_def keyed_def)
    then show ?thesis using that s'(5) by blast
  qed
  moreover have "rd cur (H - {b}) s'" using s' R by (simp add: rd_def)
  ultimately show ?thesis using s'(1,3,6-10) by (intro exI [of _ s']) simp
qed

lemma tx_log_write:
  assumes t: "tx cur H k s" and hb: "has_buf cur s i b" and b: "home_blk s b" and k: "b \<in> dirty_blks s \<or> 0 < k"
  shows "\<exists>s'. log_write i (upd_buf i (\<lambda>x. x\<lparr>b_data := d\<rparr>) s) = Ret s'
    \<and> tx cur H (k - (if b \<in> dirty_blks s then 0 else 1)) s' \<and> blk_view s' = (blk_view s)(b := d)
    \<and> dirty_blks s' = insert b (dirty_blks s) \<and> keeps cur s s'"
proof -
  have R: "binv s" "held_blks s = H" "cur < length (ptable s)" "card (dirty_blks s) + 2 \<le> NBUF"
    "\<forall>b. b \<in> dirty_blks s \<or> blk_view s b = disk s 1 b" "1 \<le> sint (log_outstanding s)"
    using t by (simp_all add: tx_def rd_def)
  obtain bs where bs: "log_ok bs s" "length bs + k < LOGSIZE" "int (length bs + k) < sint (log_size s - 1)" "length bs + k + 2 \<le> NBUF"
    using t unfolding tx_def by blast
  define s2 where "s2 = upd_buf i (\<lambda>x. x\<lparr>b_data := d\<rparr>) s"
  note D = set_data_ok [OF R(1) hb s2_def]
  have S2: "disk s2 = disk s" "disk_log s2 = disk_log s" "ptable s2 = ptable s" "bst.more s2 = bst.more s"
    by (simp_all add: s2_def)
  note F2 = log_fields [OF S2(4)]
  note A2 = log_area_cong [OF F2(1)]
  have hb2: "has_buf cur s2 i b" using D(4) hb by blast
  have ok2: "log_ok bs s2" using bs(1) by (simp add: log_ok_def log_geom_def trans_def F2 A2 S2 D(5))
  have B: "unat b < FSSIZE" "b \<notin> log_area s2" "b \<noteq> 1" using b by (simp_all add: home_blk_def A2)
  have n: "length bs < LOGSIZE" "int (length bs) < sint (log_size s2 - 1)" using bs(2,3) by (simp_all add: F2)
  obtain s3 where 3: "log_write i s2 = Ret s3" "binv s3" "blk_view s3 = blk_view s2" "held_blks s3 = held_blks s2"
    "\<forall>j b. has_buf cur s3 j b \<longleftrightarrow> has_buf cur s2 j b" "dirty_blks s3 = insert b (dirty_blks s2)"
    "disk s3 = disk s2" "disk_log s3 = disk_log s2" "ptable s3 = ptable s2" "log_ok (add_blk b bs) s3"
    "log_start s3 = log_start s2" "log_size s3 = log_size s2" "log_outstanding s3 = log_outstanding s2"
    "log_committing s3 = log_committing s2" "lst.more s3 = lst.more s2"
    using log_write_ok [OF D(1) hb2 ok2 B n] R(6) by (auto simp: F2)
  have db: "dirty_blks s = set bs" using bs(1) by (simp add: log_ok_def)
  have len: "length (add_blk b bs) + (k - (if b \<in> dirty_blks s then 0 else 1)) = length bs + k"
    using k by (auto simp: add_blk_def db)
  have "card (dirty_blks s3) \<le> length (add_blk b bs)"
    using 3(10) card_length [of "add_blk b bs"] by (simp add: log_ok_def)
  then have c3: "card (dirty_blks s3) + 2 \<le> NBUF" using len bs(4) by linarith
  have "rd cur H s3" using R 3 D S2 c3 by (auto simp: rd_def)
  then have "tx cur H (k - (if b \<in> dirty_blks s then 0 else 1)) s3"
    unfolding tx_def using 3(10) len bs R(6) by (auto intro!: exI [of _ "add_blk b bs"] simp: 3 F2)
  moreover have "lst.more s2 = lst.more s" by (simp add: s2_def upd_buf_def)
  ultimately show ?thesis
    using 3 D S2 F2 by (intro exI [of _ s3]) (auto simp: s2_def [symmetric] keeps_def same_log_def)
qed

lemma keepsI:
  assumes "bst.more s' = bst.more s" and "disk s' = disk s" and "disk_log s' = disk_log s"
    and "length (ptable s') = length (ptable s)" and "\<And>j b. has_buf cur s j b \<Longrightarrow> has_buf cur s' j b"
  shows "keeps cur s s'"
proof -
  have "lst.more s' = lst.more s" using assms(1) by (cases s; cases s') simp
  then show ?thesis using assms log_fields [OF assms(1)] by (simp add: keeps_def same_log_def)
qed

lemma tx_more:
  assumes "tx cur H k s" and "rd cur H' s'" and "bst.more s' = bst.more s" and "disk s' = disk s" and "dirty_blks s' = dirty_blks s"
  shows "tx cur H' k s'"
proof -
  note F = log_fields [OF assms(3)]
  have "log_ok bs s' = log_ok bs s" for bs
    by (simp add: log_ok_def log_geom_def trans_def F log_area_cong [OF F(1)] assms(4,5))
  then show ?thesis using assms(1,2) by (simp add: tx_def F)
qed

lemma home_blk_cong: "log_start s' = log_start s \<Longrightarrow> home_blk s' = home_blk s"
  using log_area_cong [of s' s] by (simp add: home_blk_def fun_eq_iff)

lemma tx_update:
  assumes t: "tx cur H k s" and H: "card H \<le> 1" "b \<notin> H" and b: "home_blk s b" and k: "b \<in> dirty_blks s \<or> 0 < k"
  shows "\<exists>s'. log_update cur 1 b f s = Ret s' \<and> tx cur H (k - (if b \<in> dirty_blks s then 0 else 1)) s'
    \<and> blk_view s' = (blk_view s)(b := f (blk_view s b)) \<and> dirty_blks s' = insert b (dirty_blks s) \<and> keeps cur s s'"
proof -
  have b': "unat b < FSSIZE" using b by (simp add: home_blk_def)
  obtain i s1 where 1: "bread cur 1 b s = Ret (i, s1)" "rd cur (insert b H) s1" "has_buf cur s1 i b"
    "b_data (bufs s1 ! i) = blk_view s b" "blk_view s1 = blk_view s" "dirty_blks s1 = dirty_blks s"
    "bst.more s1 = bst.more s" "disk s1 = disk s" "disk_log s1 = disk_log s" "length (ptable s1) = length (ptable s)"
    "\<forall>j c. has_buf cur s j c \<longrightarrow> has_buf cur s1 j c"
    using rd_bread [OF tx_rd [OF t] H b'] by blast
  have k1: "keeps cur s s1" using keepsI [OF 1(7-10)] 1(11) by blast
  have t1: "tx cur (insert b H) k s1" by (rule tx_more [OF t 1(2,7,8,6)])
  have h1: "home_blk s1 b" using b home_blk_cong log_fields(1) [OF 1(7)] by metis
  obtain s2 where 2: "log_write i (upd_buf i (\<lambda>x. x\<lparr>b_data := f (blk_view s b)\<rparr>) s1) = Ret s2"
    "tx cur (insert b H) (k - (if b \<in> dirty_blks s1 then 0 else 1)) s2" "blk_view s2 = (blk_view s1)(b := f (blk_view s b))"
    "dirty_blks s2 = insert b (dirty_blks s1)" "keeps cur s1 s2"
    using tx_log_write [OF t1 1(3) h1] k 1(6) by blast
  have up: "upd_buf i (\<lambda>x. x\<lparr>b_data := f (b_data x)\<rparr>) s1 = upd_buf i (\<lambda>x. x\<lparr>b_data := f (blk_view s b)\<rparr>) s1"
    by (simp add: upd_buf_def 1(4))
  have hb2: "has_buf cur s2 i b" using 2(5) 1(3) by (simp add: keeps_def)
  obtain s3 where 3: "brelse cur i s2 = Ret s3" "rd cur (insert b H - {b}) s3" "blk_view s3 = blk_view s2" "dirty_blks s3 = dirty_blks s2"
    "bst.more s3 = bst.more s2" "disk s3 = disk s2" "disk_log s3 = disk_log s2" "length (ptable s3) = length (ptable s2)"
    "\<forall>j c. c \<noteq> b \<longrightarrow> has_buf cur s2 j c \<longrightarrow> has_buf cur s3 j c"
    using rd_brelse [OF tx_rd [OF 2(2)] hb2] by blast
  have "insert b H - {b} = H" using H(2) by blast
  then have t3: "tx cur H (k - (if b \<in> dirty_blks s then 0 else 1)) s3" using tx_more [OF 2(2) 3(2,5,6,4)] 1(6) by simp
  have "has_buf cur s3 j c" if "has_buf cur s j c" for j c
  proof -
    have "c \<in> H" using that has_buf_data [OF tx_rd [OF t]] by blast
    then have "c \<noteq> b" using H(2) by blast
    then show ?thesis using that 1(11) 2(5) 3(9) by (simp add: keeps_def)
  qed
  moreover have "lst.more s3 = lst.more s2" using 3(5) by (cases s3; cases s2) simp
  ultimately have "keeps cur s s3"
    using keeps_trans [OF k1 2(5)] log_fields [OF 3(5)] 3(6-8) by (simp add: keeps_def same_log_def)
  then show ?thesis using 1(1,5,6) 2(1,3,4) 3(1,3,4) t3 by (simp add: log_update_def up)
qed

section \<open>The free map\<close>

text \<open>
  The file system has at most \<open>FSSIZE\<close> blocks, so that its map is one block. Blocks that are not data blocks
  (the boot and super blocks, the log, the inodes, the map itself) are marked as in use.
\<close>

abbreviation bm :: "'a fsst_scheme \<Rightarrow> u32" where
  "bm s \<equiv> sb_bmapstart (sb s)"

definition marked_in :: "u8 list \<Rightarrow> u32 \<Rightarrow> bool" where
  "marked_in d b \<longleftrightarrow> bit (d ! (unat b div 8)) (unat b mod 8)"

definition marked :: "'a fsst_scheme \<Rightarrow> u32 \<Rightarrow> bool" where
  "marked s b \<longleftrightarrow> marked_in (blk_view s (bm s)) b"

definition in_fs :: "'a fsst_scheme \<Rightarrow> u32 \<Rightarrow> bool" where
  "in_fs s b \<longleftrightarrow> unat b < unat (sb_size (sb s))"

definition inode_blk :: "'a fsst_scheme \<Rightarrow> u32 \<Rightarrow> bool" where
  "inode_blk s b \<longleftrightarrow> (\<exists>i. unat i < unat (sb_ninodes (sb s)) \<and> b = IBLOCK i (sb s))"

definition data_blk :: "'a fsst_scheme \<Rightarrow> u32 \<Rightarrow> bool" where
  "data_blk s b \<longleftrightarrow> b \<noteq> 0 \<and> in_fs s b \<and> home_blk s b \<and> b \<noteq> bm s \<and> \<not> inode_blk s b"

definition fs_geom :: "'a fsst_scheme \<Rightarrow> bool" where
  "fs_geom s \<longleftrightarrow> unat (sb_size (sb s)) \<le> FSSIZE \<and> home_blk s (bm s) \<and> \<not> inode_blk s (bm s)
     \<and> (\<forall>b. inode_blk s b \<longrightarrow> home_blk s b) \<and> (\<forall>b. unat b < FSSIZE \<longrightarrow> length (blk_view s b) = BSIZE)
     \<and> (\<forall>b. in_fs s b \<and> \<not> marked s b \<longrightarrow> data_blk s b)"

lemma mask_zero: "x AND bit_mask bi = 0 \<longleftrightarrow> \<not> bit x (bi mod 8)"
  by (simp add: bit_mask_def push_bit_of_1 and_exp_eq_0_iff_not_bit)

lemma mark_bit: "n < 8 \<Longrightarrow> bit (x OR bit_mask bi) n \<longleftrightarrow> bit x n \<or> n = bi mod 8"
  by (auto simp: bit_simps bit_mask_def)

lemma unmark_bit: "n < 8 \<Longrightarrow> bit (x AND NOT (bit_mask bi)) n \<longleftrightarrow> bit x n \<and> n \<noteq> bi mod 8"
  by (auto simp: bit_simps bit_mask_def)

definition set_mark :: "u32 \<Rightarrow> u8 list \<Rightarrow> u8 list" where
  "set_mark b d = d[unat b div 8 := d ! (unat b div 8) OR bit_mask (unat b)]"

definition clear_mark :: "u32 \<Rightarrow> u8 list \<Rightarrow> u8 list" where
  "clear_mark b d = d[unat b div 8 := d ! (unat b div 8) AND NOT (bit_mask (unat b))]"

lemma unat_div_mod_8: "unat (a :: u32) div 8 = unat b div 8 \<Longrightarrow> unat a mod 8 = unat b mod 8 \<Longrightarrow> a = b"
  by (metis div_mult_mod_eq word_unat_eq_iff)

lemma marked_set:
  "unat b div 8 < length d \<Longrightarrow> marked_in (set_mark b d) c \<longleftrightarrow> marked_in d c \<or> c = b"
  "unat b div 8 < length d \<Longrightarrow> marked_in (clear_mark b d) c \<longleftrightarrow> marked_in d c \<and> c \<noteq> b"
  using unat_div_mod_8 [of c b]
  by (auto simp: marked_in_def set_mark_def clear_mark_def nth_list_update mark_bit unmark_bit)

lemma length_marks [simp]: "length (set_mark b d) = length d" "length (clear_mark b d) = length d"
  by (simp_all add: set_mark_def clear_mark_def)

lemma keeps_fields:
  fixes s s' :: "'a fsst_scheme"
  assumes "keeps cur s s'"
  shows "sb s' = sb s" "icache s' = icache s" "log_start s' = log_start s" "home_blk s' = home_blk s" "in_fs s' = in_fs s"
    "inode_blk s' = inode_blk s" "data_blk s' = data_blk s"
proof -
  show 1: "sb s' = sb s" "icache s' = icache s" "log_start s' = log_start s"
    using assms by (cases s; cases s'; simp add: keeps_def same_log_def)+
  show 2: "home_blk s' = home_blk s" by (rule home_blk_cong [OF 1(3)])
  show "in_fs s' = in_fs s" "inode_blk s' = inode_blk s" "data_blk s' = data_blk s"
    by (simp_all add: in_fs_def [abs_def] inode_blk_def [abs_def] data_blk_def [abs_def] 1 2)
qed

lemma free_bit_marked:
  assumes "length d = BSIZE" and "n \<le> FSSIZE"
  shows "(\<exists>b :: u32. unat b < n \<and> \<not> marked_in d b) \<longleftrightarrow> free_bit d 0 n \<noteq> None"
    and "free_bit d 0 n = Some bi \<Longrightarrow> bi < n \<and> unat (of_nat bi :: u32) = bi \<and> \<not> marked_in d (of_nat bi)"
proof -
  have n: "min BPB (n - 0) = n" using assms(2) by (simp add: fs_consts FSSIZE_def)
  have u: "unat (of_nat k :: u32) = k" if "k < n" for k
    using that assms(2) by (intro unat_of_nat32) (simp add: FSSIZE_def)
  have M: "d ! (k div 8) AND bit_mask k = 0 \<longleftrightarrow> \<not> marked_in d (of_nat k)" if "k < n" for k
    unfolding mask_zero marked_in_def u [OF that] ..
  show "bi < n \<and> unat (of_nat bi :: u32) = bi \<and> \<not> marked_in d (of_nat bi)" if "free_bit d 0 n = Some bi"
    using find_slot_SomeD(1,2) [OF that [unfolded free_bit_def n]] u M by simp
  have "free_bit d 0 n = None \<longleftrightarrow> (\<forall>k < n. marked_in d (of_nat k))"
    unfolding free_bit_def n find_slot_None_iff using M by auto
  moreover have "(\<forall>k < n. marked_in d (of_nat k)) \<longleftrightarrow> (\<forall>b :: u32. unat b < n \<longrightarrow> marked_in d b)"
  proof (intro iffI allI impI)
    fix b :: u32
    assume "\<forall>k < n. marked_in d (of_nat k)" "unat b < n"
    then have "marked_in d (of_nat (unat b))" by blast
    then show "marked_in d b" by simp
  qed (simp add: u)
  ultimately show "(\<exists>b :: u32. unat b < n \<and> \<not> marked_in d b) \<longleftrightarrow> free_bit d 0 n \<noteq> None" by (simp only: not_all not_imp)
qed

lemma marked_upd:
  assumes g: "fs_geom s" and k: "keeps cur s s'" and v: "blk_view s' = (blk_view s)(bm s := d)" and d: "length d = BSIZE"
  shows "marked s' b = marked_in d b" and "(\<And>b. in_fs s b \<Longrightarrow> \<not> marked_in d b \<Longrightarrow> data_blk s b) \<Longrightarrow> fs_geom s'"
  using g d unfolding fs_geom_def marked_def keeps_fields [OF k] v by simp_all

lemma geom_upd:
  assumes g: "fs_geom s" and k: "keeps cur s s'" and v: "blk_view s' = (blk_view s)(a := d)" and d: "length d = BSIZE" and a: "a \<noteq> bm s"
  shows "marked s' b = marked s b" and "fs_geom s'"
  using g d a unfolding fs_geom_def marked_def keeps_fields [OF k] v by simp_all

text \<open>The block that \<open>balloc\<close> delivers, and its price in blocks to be logged.\<close>

definition balloc_cost :: "'a fsst_scheme \<Rightarrow> nat" where
  "balloc_cost s = (if bm s \<in> dirty_blks s then 1 else 2)"

lemma balloc_run:
  assumes t: "tx cur H k s" and H: "card H \<le> 1" "bm s \<notin> H" and g: "fs_geom s"
    and free: "in_fs s b" "\<not> marked s b" and k: "balloc_cost s \<le> k"
  shows "\<exists>a s1. in_fs s a \<and> \<not> marked s a \<and> balloc cur 1 s = obind (bzero cur 1 a s1) (\<lambda>s. Ret (a, s))
    \<and> tx cur H (k - (balloc_cost s - 1)) s1 \<and> blk_view s1 = (blk_view s)(bm s := set_mark a (blk_view s (bm s)))
    \<and> dirty_blks s1 = insert (bm s) (dirty_blks s) \<and> keeps cur s s1"
proof -
  let ?n = "unat (sb_size (sb s))" and ?d = "blk_view s (bm s)"
  have G: "?n \<le> FSSIZE" "home_blk s (bm s)" "length ?d = BSIZE" using g by (simp_all add: fs_geom_def home_blk_def)
  have u: "unat (bm s) < FSSIZE" using G(2) by (simp add: home_blk_def)
  obtain bi where bi: "free_bit ?d 0 ?n = Some bi"
    using free_bit_marked(1) [OF G(3,1)] free unfolding in_fs_def marked_def by blast
  define a :: u32 where "a = of_nat bi"
  have a: "bi < ?n" "unat a = bi" "\<not> marked_in ?d a" using free_bit_marked(2) [OF G(3,1) bi] by (simp_all add: a_def)
  have n: "0 < ?n" "(?n + BPB - 1) div BPB = 1" using a(1) G(1) by (auto simp: fs_consts FSSIZE_def)
  have loop: "balloc cur 1 s = balloc_loop cur 1 [0] s" unfolding balloc_def n(2) by (simp del: balloc_loop.simps)
  have bb: "BBLOCK 0 (sb s) = bm s" by (simp add: BBLOCK_def)
  obtain i s1 where 1: "bread cur 1 (bm s) s = Ret (i, s1)" "b_data (bufs s1 ! i) = ?d" "bst.more s1 = bst.more s"
    using rd_bread [OF tx_rd [OF t] H u] by blast
  have sb1: "sb s1 = sb s" using 1(3) by (cases s; cases s1) simp
  have up: "upd_buf i (\<lambda>x. x\<lparr>b_data := (b_data x)[bi div 8 := b_data x ! (bi div 8) OR bit_mask bi]\<rparr>) s1
    = upd_buf i (\<lambda>x. x\<lparr>b_data := set_mark a (b_data x)\<rparr>) s1"
    by (simp add: set_mark_def a(2))
  have run: "balloc cur 1 s = obind (log_update cur 1 (bm s) (set_mark a) s) (\<lambda>s. obind (bzero cur 1 a s) (\<lambda>s. Ret (a, s)))"
    unfolding loop log_update_def by (simp add: bb 1(1,2) sb1 bi up a_def [symmetric] obind_assoc)
  have kk: "bm s \<in> dirty_blks s \<or> 0 < k" using k by (auto simp: balloc_cost_def split: if_splits)
  obtain s3 where 3: "log_update cur 1 (bm s) (set_mark a) s = Ret s3" "tx cur H (k - (if bm s \<in> dirty_blks s then 0 else 1)) s3"
    "blk_view s3 = (blk_view s)(bm s := set_mark a ?d)" "dirty_blks s3 = insert (bm s) (dirty_blks s)" "keeps cur s s3"
    using tx_update [OF t H G(2) kk] by blast
  have "balloc_cost s - 1 = (if bm s \<in> dirty_blks s then 0 else 1)" by (simp add: balloc_cost_def)
  then have "tx cur H (k - (balloc_cost s - 1)) s3" using 3(2) by simp
  then show ?thesis
    using a 3 by (intro exI [of _ a] exI [of _ s3]) (simp add: in_fs_def marked_def run)
qed

lemma balloc_ok:
  assumes t: "tx cur H k s" and H: "card H \<le> 1" "bm s \<notin> H" "\<forall>b \<in> H. marked s b" and g: "fs_geom s"
    and free: "in_fs s b" "\<not> marked s b" and k: "balloc_cost s \<le> k"
  shows "\<exists>a s'. balloc cur 1 s = Ret (a, s') \<and> \<not> marked s a \<and> data_blk s a \<and> tx cur H (k - balloc_cost s) s'
    \<and> blk_view s' = (blk_view s)(bm s := set_mark a (blk_view s (bm s)), a := replicate BSIZE 0)
    \<and> dirty_blks s' = insert a (insert (bm s) (dirty_blks s)) \<and> keeps cur s s' \<and> fs_geom s'
    \<and> (\<forall>c. marked s' c \<longleftrightarrow> marked s c \<or> c = a)"
proof -
  obtain a s1 where 1: "in_fs s a" "\<not> marked s a" "balloc cur 1 s = obind (bzero cur 1 a s1) (\<lambda>s. Ret (a, s))"
    "tx cur H (k - (balloc_cost s - 1)) s1" "blk_view s1 = (blk_view s)(bm s := set_mark a (blk_view s (bm s)))"
    "dirty_blks s1 = insert (bm s) (dirty_blks s)" "keeps cur s s1"
    using balloc_run [OF t H(1,2) g free k] by blast
  note F = keeps_fields [OF 1(7)]
  have a: "data_blk s a" using g 1(1,2) unfolding fs_geom_def by blast
  then have a': "home_blk s1 a" "a \<noteq> bm s" "a \<notin> H" using H(3) 1(2) by (auto simp: data_blk_def F)
  have c: "0 < balloc_cost s" by (simp add: balloc_cost_def)
  then have k': "a \<in> dirty_blks s1 \<or> 0 < k - (balloc_cost s - 1)" using k by linarith
  obtain s2 where 2: "bzero cur 1 a s1 = Ret s2" "tx cur H (k - (balloc_cost s - 1) - (if a \<in> dirty_blks s1 then 0 else 1)) s2"
    "blk_view s2 = (blk_view s1)(a := replicate BSIZE 0)" "dirty_blks s2 = insert a (dirty_blks s1)" "keeps cur s1 s2"
    using tx_update [OF 1(4) H(1) a'(3,1) k', of "\<lambda>_. replicate BSIZE 0"] unfolding bzero_def by blast
  have t2: "tx cur H (k - balloc_cost s) s2" by (rule tx_weaken [OF 2(2)]) (use c in auto)
  have u: "unat (bm s) < FSSIZE" "unat a div 8 < BSIZE"
    using g a by (auto simp: fs_geom_def home_blk_def data_blk_def FSSIZE_def BSIZE_def)
  have len: "length (blk_view s (bm s)) = BSIZE" using g u(1) by (simp add: fs_geom_def)
  then have M: "marked_in (set_mark a (blk_view s (bm s))) c \<longleftrightarrow> marked s c \<or> c = a" for c
    using marked_set(1) u(2) by (simp add: marked_def)
  have g1: "fs_geom s1"
    by (rule marked_upd(2) [OF g 1(7,5)]) (use len M g in \<open>simp_all add: fs_geom_def\<close>)
  have m1: "marked s1 c \<longleftrightarrow> marked s c \<or> c = a" for c using marked_upd(1) [OF g 1(7,5)] len M by simp
  have a1: "a \<noteq> bm s1" using a'(2) F by simp
  note G2 = geom_upd [OF g1 2(5,3) length_replicate a1]
  show ?thesis
    using 1(2,3) a t2 2 keeps_trans [OF 1(7) 2(5)] G2 m1 1(5,6) by (intro exI [of _ a] exI [of _ s2]) simp
qed

text \<open>The error paths: a full disk, and a block that is freed twice.\<close>

lemma balloc_full:
  assumes r: "rd cur {} s" and g: "fs_geom s" and full: "\<forall>b. in_fs s b \<longrightarrow> marked s b"
  shows "balloc cur 1 s = Panic ''balloc: out of blocks''"
proof -
  let ?n = "unat (sb_size (sb s))" and ?d = "blk_view s (bm s)"
  have G: "?n \<le> FSSIZE" "unat (bm s) < FSSIZE" "length ?d = BSIZE" using g by (simp_all add: fs_geom_def home_blk_def)
  have none: "free_bit ?d 0 ?n = None"
    using free_bit_marked(1) [OF G(3,1)] full unfolding in_fs_def marked_def by auto
  have "?n = 0 \<or> (?n + BPB - 1) div BPB = 1" using G(1) by (auto simp: fs_consts FSSIZE_def)
  then consider "balloc cur 1 s = balloc_loop cur 1 [] s" | "balloc cur 1 s = balloc_loop cur 1 [0] s"
    unfolding balloc_def by (auto simp: fs_consts simp del: balloc_loop.simps)
  then show ?thesis
  proof cases
    case 2
    obtain i s1 where 1: "bread cur 1 (bm s) s = Ret (i, s1)" "rd cur {bm s} s1" "has_buf cur s1 i (bm s)"
      "b_data (bufs s1 ! i) = ?d" "bst.more s1 = bst.more s"
      using rd_bread [OF r _ _ G(2)] by auto
    obtain s2 where "brelse cur i s1 = Ret s2" using rd_brelse [OF 1(2,3)] by blast
    moreover have "sb s1 = sb s" using 1(5) by (cases s; cases s1) simp
    ultimately show ?thesis using 2 1(1,4) none by (simp add: BBLOCK_def)
  qed simp
qed

lemma bfree_run:
  assumes t: "tx cur {} k s" and g: "fs_geom s" and c: "in_fs s c" and k: "0 < k"
  shows "bfree cur 1 c s = (if marked s c then log_update cur 1 (bm s) (clear_mark c) s else Panic ''freeing free block'')"
proof -
  have G: "unat (sb_size (sb s)) \<le> FSSIZE" "unat (bm s) < FSSIZE" using g by (simp_all add: fs_geom_def home_blk_def)
  then have u: "unat c < BPB" using c by (simp add: in_fs_def fs_consts FSSIZE_def)
  then have "c div 4096 = 0" by (simp add: word_unat_eq_iff unat_div fs_consts)
  then have bb: "BBLOCK c (sb s) = bm s" by (simp add: BBLOCK_def fs_consts)
  obtain i s1 where 1: "bread cur 1 (bm s) s = Ret (i, s1)" "b_data (bufs s1 ! i) = blk_view s (bm s)"
    using rd_bread [OF tx_rd [OF t] _ _ G(2)] by auto
  have m: "blk_view s (bm s) ! (unat c div 8) AND bit_mask (unat c) = 0 \<longleftrightarrow> \<not> marked s c"
    unfolding mask_zero marked_def marked_in_def ..
  have "upd_buf i (\<lambda>x. x\<lparr>b_data := (blk_view s (bm s))[unat c div 8 := blk_view s (bm s) ! (unat c div 8) AND NOT (bit_mask (unat c))]\<rparr>) s1
    = upd_buf i (\<lambda>x. x\<lparr>b_data := clear_mark c (b_data x)\<rparr>) s1"
    by (simp add: upd_buf_def clear_mark_def 1(2))
  then show ?thesis using u 1 m by (simp add: bfree_def bb log_update_def Let_def)
qed

lemma bfree_ok:
  assumes t: "tx cur {} k s" and g: "fs_geom s" and c: "data_blk s c" "marked s c" and k: "0 < k"
  shows "\<exists>s'. bfree cur 1 c s = Ret s' \<and> fs_geom s' \<and> (\<forall>b. marked s' b \<longleftrightarrow> marked s b \<and> b \<noteq> c) \<and> keeps cur s s'
    \<and> (\<forall>b. b \<noteq> bm s \<longrightarrow> blk_view s' b = blk_view s b) \<and> tx cur {} (k - 1) s'"
proof -
  have h: "home_blk s (bm s)" using g by (simp add: fs_geom_def)
  have len: "length (blk_view s (bm s)) = BSIZE" "unat c div 8 < BSIZE" using g c(1) by (auto simp: fs_geom_def home_blk_def data_blk_def FSSIZE_def BSIZE_def)
  obtain s' where 1: "log_update cur 1 (bm s) (clear_mark c) s = Ret s'" "tx cur {} (k - (if bm s \<in> dirty_blks s then 0 else 1)) s'"
    "blk_view s' = (blk_view s)(bm s := clear_mark c (blk_view s (bm s)))" "keeps cur s s'"
    using tx_update [OF t _ _ h] k by auto
  have cl: "length (clear_mark c (blk_view s (bm s))) = BSIZE" using len by simp
  have M: "marked_in (clear_mark c (blk_view s (bm s))) b \<longleftrightarrow> marked s b \<and> b \<noteq> c" for b
    using marked_set(2) len by (simp add: marked_def)
  note U = marked_upd [OF g 1(4,3) cl]
  have "fs_geom s'" by (rule U(2)) (use M c(1) g in \<open>auto simp: fs_geom_def\<close>)
  moreover have "bfree cur 1 c s = Ret s'" using bfree_run [OF t g _ k] c 1(1) by (simp add: data_blk_def)
  moreover have "tx cur {} (k - 1) s'" by (rule tx_weaken [OF 1(2)]) simp
  ultimately show ?thesis using 1 U(1) M by auto
qed

end
