(* ===== verification/Dir.thy ===== *)
theory Dir
  imports Blocks
begin

text \<open>
  Directories and path names of \<open>fs.c\<close>. A C string is the list of its bytes without the terminator; \<open>chr0\<close> reads the byte
  at a pointer into it. The name buffer of \<open>namex\<close> is the list of its \<open>DIRSIZ\<close> bytes, stale ones included.
\<close>

section \<open>Names\<close>

definition chr0 :: "u8 list \<Rightarrow> u8" where
  "chr0 p = (case p of [] \<Rightarrow> 0 | c # _ \<Rightarrow> c)"

text \<open>\<open>strncmp\<close> and \<open>strncpy\<close> of \<open>string.c\<close> on such pointers.\<close>

fun str_ncmp :: "nat \<Rightarrow> u8 list \<Rightarrow> u8 list \<Rightarrow> s32" where
  "str_ncmp 0 p q = 0"
| "str_ncmp (Suc n) p q =
     (if chr0 p \<noteq> 0 \<and> chr0 p = chr0 q then str_ncmp n (tl p) (tl q) else ucast (chr0 p) - ucast (chr0 q))"

fun str_ncpy :: "nat \<Rightarrow> u8 list \<Rightarrow> u8 list" where
  "str_ncpy 0 t = []"
| "str_ncpy (Suc n) t = (if chr0 t \<noteq> 0 then chr0 t # str_ncpy n (tl t) else replicate (Suc n) 0)"

definition namecmp :: "u8 list \<Rightarrow> u8 list \<Rightarrow> s32" where
  "namecmp s t = str_ncmp DIRSIZ s t"

section \<open>Directories\<close>

definition de_inum :: "u8 list \<Rightarrow> u16" where
  "de_inum de = get16 de 0"

definition de_name :: "u8 list \<Rightarrow> u8 list" where
  "de_name de = take DIRSIZ (drop 2 de)"

definition mk_dirent :: "u16 \<Rightarrow> u8 list \<Rightarrow> u8 list" where
  "mk_dirent inum nm = put16 (replicate 2 0 @ nm) 0 inum"

text \<open>The values of \<open>off\<close> in the loops over a directory: the multiples of \<open>sizeof(de)\<close> below \<open>dp->size\<close>.\<close>

definition dir_offs :: "u32 \<Rightarrow> u32 list" where
  "dir_offs sz = map (\<lambda>k. of_nat (16 * k)) [0..<(unat sz + 15) div 16]"

fun dirlookup_loop :: "'a fsst_scheme devops list \<Rightarrow> nat \<Rightarrow> nat \<Rightarrow> u8 list \<Rightarrow> u32 list \<Rightarrow> 'a fsst_scheme
    \<Rightarrow> ((nat \<times> u32) option \<times> 'a fsst_scheme) outcome" where
  "dirlookup_loop devsw cur dp name [] s = Ret (None, s)"
| "dirlookup_loop devsw cur dp name (off # offs) s =
     obind (readi devsw cur dp off 16 s) (\<lambda>(r, de, s).
     if r \<noteq> 16 then Panic ''dirlookup read''
     else if de_inum de = 0 then dirlookup_loop devsw cur dp name offs s
     else if namecmp name (de_name de) = 0 then
       obind (iget (i_dev (icache s ! dp)) (ucast (de_inum de)) s) (\<lambda>(ip, s). Ret (Some (ip, off), s))
     else dirlookup_loop devsw cur dp name offs s)"

text \<open>The result is the inode and the offset that goes to \<open>*poff\<close>.\<close>

definition dirlookup :: "'a fsst_scheme devops list \<Rightarrow> nat \<Rightarrow> nat \<Rightarrow> u8 list \<Rightarrow> 'a fsst_scheme
    \<Rightarrow> ((nat \<times> u32) option \<times> 'a fsst_scheme) outcome" where
  "dirlookup devsw cur dp name s =
     (if i_type (icache s ! dp) \<noteq> T_DIR then Panic ''dirlookup not DIR''
      else dirlookup_loop devsw cur dp name (dir_offs (i_size (icache s ! dp))) s)"

text \<open>The offset of the first empty entry, or of the end of the directory.\<close>

fun dir_slot :: "'a fsst_scheme devops list \<Rightarrow> nat \<Rightarrow> nat \<Rightarrow> u32 list \<Rightarrow> u32 \<Rightarrow> 'a fsst_scheme
    \<Rightarrow> (u32 \<times> 'a fsst_scheme) outcome" where
  "dir_slot devsw cur dp [] fin s = Ret (fin, s)"
| "dir_slot devsw cur dp (off # offs) fin s =
     obind (readi devsw cur dp off 16 s) (\<lambda>(r, de, s).
     if r \<noteq> 16 then Panic ''dirlink read''
     else if de_inum de = 0 then Ret (off, s)
     else dir_slot devsw cur dp offs fin s)"

definition dirlink :: "'a fsst_scheme devops list \<Rightarrow> nat \<Rightarrow> nat \<Rightarrow> u8 list \<Rightarrow> u32 \<Rightarrow> 'a fsst_scheme
    \<Rightarrow> (s32 \<times> 'a fsst_scheme) outcome" where
  "dirlink devsw cur dp name inum s =
     obind (dirlookup devsw cur dp name s) (\<lambda>(r, s).
     case r of
       Some (ip, off) \<Rightarrow> obind (iput cur ip s) (\<lambda>s. Ret (- 1, s))
     | None \<Rightarrow>
         let sz = i_size (icache s ! dp) in
         obind (dir_slot devsw cur dp (dir_offs sz) (of_nat (16 * ((unat sz + 15) div 16))) s) (\<lambda>(off, s).
         let de = mk_dirent (ucast inum) (str_ncpy DIRSIZ name) in
         obind (writei devsw cur dp de off 16 s) (\<lambda>(r, s).
         if r \<noteq> 16 then Panic ''dirlink'' else Ret (0, s))))"

section \<open>Paths\<close>

text \<open>The rest of the path, and the name buffer with the next element copied into it.\<close>

definition skipelem :: "u8 list \<Rightarrow> u8 list \<Rightarrow> (u8 list \<times> u8 list) option" where
  "skipelem path name =
     (let path = dropWhile (\<lambda>c. c = 47) path in
      if path = [] then None
      else
        let s = takeWhile (\<lambda>c. c \<noteq> 47) path;
            path = dropWhile (\<lambda>c. c \<noteq> 47) path;
            len = length s;
            name = (if len \<ge> DIRSIZ then take DIRSIZ s else s @ [0] @ drop (len + 1) name)
        in Some (dropWhile (\<lambda>c. c = 47) path, name))"

lemma skipelem_shorter:
  assumes "skipelem path name = Some (path', name')"
  shows "length path' < length path"
proof -
  define p where "p = dropWhile (\<lambda>c. c = 47) path"
  have p: "p \<noteq> []" "length p \<le> length path" and p': "path' = dropWhile (\<lambda>c. c = 47) (dropWhile (\<lambda>c. c \<noteq> 47) p)"
    using assms by (auto simp: skipelem_def p_def Let_def length_dropWhile_le split: if_splits)
  obtain c q where q: "p = c # q" using p(1) by (cases p) auto
  then have "c \<noteq> 47" using hd_dropWhile [of "\<lambda>c. c = 47" path] by (simp add: p_def)
  then have "dropWhile (\<lambda>c. c \<noteq> 47) p = dropWhile (\<lambda>c. c \<noteq> 47) q" by (simp add: q)
  then have "length path' \<le> length q"
    unfolding p' using length_dropWhile_le [of "\<lambda>c. c = 47" "dropWhile (\<lambda>c. c \<noteq> 47) q"] length_dropWhile_le [of "\<lambda>c. c \<noteq> 47" q]
    by simp
  then show ?thesis using p(2) q by simp
qed

function namex_loop :: "'a fsst_scheme devops list \<Rightarrow> nat \<Rightarrow> bool \<Rightarrow> u8 list \<Rightarrow> u8 list \<Rightarrow> nat \<Rightarrow> 'a fsst_scheme
    \<Rightarrow> ((nat \<times> u8 list) option \<times> 'a fsst_scheme) outcome" where
  "namex_loop devsw cur np path name ip s =
     (case skipelem path name of
        None \<Rightarrow>
          if np then obind (iput cur ip s) (\<lambda>s. Ret (None, s)) else Ret (Some (ip, name), s)
      | Some (path', name') \<Rightarrow>
          obind (ilock cur (Some ip) s) (\<lambda>s.
          if i_type (icache s ! ip) \<noteq> T_DIR then obind (iunlockput cur ip s) (\<lambda>s. Ret (None, s))
          else if np \<and> path' = [] then obind (iunlock cur (Some ip) s) (\<lambda>s. Ret (Some (ip, name'), s))
          else
            obind (dirlookup devsw cur ip name' s) (\<lambda>(r, s).
            case r of
              None \<Rightarrow> obind (iunlockput cur ip s) (\<lambda>s. Ret (None, s))
            | Some (nxt, _) \<Rightarrow>
                obind (iunlockput cur ip s) (namex_loop devsw cur np path' name' nxt))))"
  by pat_completeness auto
termination
proof (relation "measure (\<lambda>(_, _, _, path, _). length path)", simp)
  fix path name x2 and x y :: "u8 list"
  assume "skipelem path name = Some x2" "(x, y) = x2"
  then have "length x < length path" using skipelem_shorter [of path name x y] by simp
  then show "((devsw, cur, np, x, y, nxt, s'), devsw, cur, np, path, name, ip, s) \<in> measure (\<lambda>(_, _, _, path, _). length path)"
    for devsw :: "'a fsst_scheme devops list" and cur np nxt ip and s s' :: "'a fsst_scheme"
    by (simp only: in_measure prod.case)
qed

declare namex_loop.simps [simp del]

definition namex :: "'a fsst_scheme devops list \<Rightarrow> nat \<Rightarrow> u8 list \<Rightarrow> bool \<Rightarrow> u8 list \<Rightarrow> 'a fsst_scheme
    \<Rightarrow> ((nat \<times> u8 list) option \<times> 'a fsst_scheme) outcome" where
  "namex devsw cur path np name s =
     obind (if chr0 path = 47 then iget ROOTDEV ROOTINO s
            else case cwd (ptable s ! cur) of None \<Rightarrow> Fault | Some d \<Rightarrow> Ret (idup d s)) (\<lambda>(ip, s).
     namex_loop devsw cur np path name ip s)"

definition namei :: "'a fsst_scheme devops list \<Rightarrow> nat \<Rightarrow> u8 list \<Rightarrow> 'a fsst_scheme \<Rightarrow> (nat option \<times> 'a fsst_scheme) outcome" where
  "namei devsw cur path s =
     obind (namex devsw cur path False (replicate DIRSIZ 0) s) (\<lambda>(r, s). Ret (map_option fst r, s))"

definition nameiparent :: "'a fsst_scheme devops list \<Rightarrow> nat \<Rightarrow> u8 list \<Rightarrow> u8 list \<Rightarrow> 'a fsst_scheme
    \<Rightarrow> ((nat \<times> u8 list) option \<times> 'a fsst_scheme) outcome" where
  "nameiparent devsw cur path name s = namex devsw cur path True name s"

end
