(* ===== verification/Ring.thy ===== *)
theory Ring
  imports Prelude
begin

text \<open>
  Ring buffers indexed by free-running 32-bit counters, as \<open>pipe.c\<close> and \<open>console.c\<close> have them: the byte
  number \<open>x\<close> is at \<open>x mod N\<close>, and \<open>N\<close> divides \<open>2^32\<close>, so that the counters may wrap around. \<open>win\<close>
  is the content of a stretch of the ring.
\<close>

locale ringbuf =
  fixes N :: nat
  assumes N_pos: "0 < N" and N_dvd: "N dvd 2 ^ 32"
begin

definition win :: "'b list \<Rightarrow> u32 \<Rightarrow> nat \<Rightarrow> 'b list" where
  "win d r n = map (\<lambda>i. d ! ((unat r + i) mod N)) [0..<n]"

lemma mod_wrap: "unat (x + of_nat i :: u32) mod N = (unat x + i) mod N"
proof -
  have "unat (x + of_nat i :: u32) = (unat x + i) mod 2 ^ 32"
    by (simp add: unat_word_ariths unsigned_of_nat take_bit_eq_mod mod_add_right_eq)
  then show ?thesis using N_dvd by (simp add: mod_mod_cancel)
qed

lemma length_win [simp]: "length (win d r n) = n"
  by (simp add: win_def)

lemma win_0 [simp]: "win d r 0 = []"
  by (simp add: win_def)

lemma index_ne:
  assumes "i < n" and "n < N"
  shows "(a + n) mod N \<noteq> (a + i) mod N"
proof
  assume "(a + n) mod N = (a + i) mod N"
  moreover have "a + i \<le> a + n" using assms(1) by simp
  ultimately have "N dvd (a + n) - (a + i)" by (simp only: mod_eq_dvd_iff_nat)
  then have "N dvd n - i" by simp
  then show False using assms by (auto dest: dvd_imp_le)
qed

lemma win_put:
  assumes "length d = N" and "n < N" and "x = r + of_nat n"
  shows "win (d[unat x mod N := c]) r (Suc n) = win d r n @ [c]"
proof -
  have x: "unat x mod N = (unat r + n) mod N" using mod_wrap assms(3) by simp
  have "(unat r + n) mod N < length d" using assms(1) N_pos by simp
  then show ?thesis using index_ne [OF _ assms(2)] by (simp add: win_def x)
qed

lemma win_pop: "0 < n \<Longrightarrow> win d r n = d ! (unat r mod N) # win d (r + 1) (n - 1)"
proof (cases n)
  case (Suc m)
  have "(unat (r + 1) + i) mod N = (unat r + Suc i) mod N" for i
  proof -
    have "(unat (r + 1) + i) mod N = ((unat r + 1) mod N + i) mod N" using mod_wrap [of r 1] by (subst mod_add_left_eq [symmetric]) simp
    then show ?thesis by (simp add: mod_add_left_eq)
  qed
  then show ?thesis unfolding Suc win_def by (simp add: upt_conv_Cons map_Suc_upt [symmetric] del: upt_Suc)
qed simp

lemma win_split: "m \<le> n \<Longrightarrow> win d r n = win d r m @ win d (r + of_nat m) (n - m)"
proof -
  assume m: "m \<le> n"
  have e: "m + (n - m) = n" "n - m + m = n" using m by simp_all
  have "[0..<n] = [0..<m] @ map (\<lambda>i. i + m) [0..<n - m]"
    using upt_add_eq_append [of 0 m "n - m"] unfolding map_add_upt e by simp
  moreover have "(unat (r + of_nat m) + i) mod N = (unat r + (i + m)) mod N" for i
  proof -
    have "(unat (r + of_nat m) + i) mod N = ((unat r + m) mod N + i) mod N" using mod_wrap [of r m] by (subst mod_add_left_eq [symmetric]) simp
    then show ?thesis by (simp add: mod_add_left_eq mod_add_right_eq add.commute add.left_commute)
  qed
  ultimately show ?thesis by (simp add: win_def comp_def)
qed

lemma win_butlast: "win d r (n - 1) = butlast (win d r n)"
  by (cases n) (simp_all add: win_def butlast_append)

lemma win_nth: "i < n \<Longrightarrow> x = r + of_nat i \<Longrightarrow> win d r n ! i = d ! (unat x mod N)"
  by (simp add: win_def mod_wrap)

end

end
