(* ===== verification/Pipe.thy ===== *)
theory Pipe
  imports Proc Ring
begin

text \<open>
  \<open>pipe.c\<close> but for \<open>pipealloc\<close>, which belongs with the file table. A pipe is the record \<open>pipe\<close>; \<open>a\<close> is
  its address, which names the two channels \<open>&p->nread\<close> and \<open>&p->nwrite\<close>. Its lock makes
  each routine atomic up to a call of \<open>sleep\<close>: there the routines return \<open>PSleep\<close> with what is left
  to do, and calling them again with that is the continuation of the loop after waking.

  The lemmas show that the ring of \<open>PIPESIZE\<close> bytes with its two free-running counters, which wrap
  around at \<open>2^32\<close>, implements a bounded queue, also across the wrap-around; that a pipe delivers the bytes
  written in order whatever the interleaving; and that no reader or writer sleeps while it could go on.
\<close>

section \<open>The code\<close>

definition PIPESIZE :: nat where "PIPESIZE = 512"

record pipe =
  p_data :: "u8 list"
  nread :: u32
  nwrite :: u32
  readopen :: bool
  writeopen :: bool

definition pipe_new :: "u8 list \<Rightarrow> pipe" where
  "pipe_new d = \<lparr>p_data = d, nread = 0, nwrite = 0, readopen = True, writeopen = True\<rparr>"

datatype 'r pipe_result = PRet 'r | PSleep

definition pipe_full :: "pipe \<Rightarrow> bool" where
  "pipe_full p \<longleftrightarrow> nwrite p = nread p + of_nat PIPESIZE"

definition pipe_put :: "u8 \<Rightarrow> pipe \<Rightarrow> pipe" where
  "pipe_put c p = p\<lparr>p_data := (p_data p)[unat (nwrite p) mod PIPESIZE := c], nwrite := nwrite p + 1\<rparr>"

definition pipe_get :: "pipe \<Rightarrow> u8 \<times> pipe" where
  "pipe_get p = (p_data p ! (unat (nread p) mod PIPESIZE), p\<lparr>nread := nread p + 1\<rparr>)"

text \<open>The bytes still to be written are the argument; the result includes those left when the writer sleeps.\<close>

fun pipewrite :: "nat \<Rightarrow> u32 \<Rightarrow> s32 \<Rightarrow> u8 list \<Rightarrow> pipe \<Rightarrow> 'a kst_scheme \<Rightarrow> s32 pipe_result \<times> u8 list \<times> pipe \<times> 'a kst_scheme" where
  "pipewrite cur a n [] p s = (PRet n, [], p, wakeup (ChanPipeRead a) s)"
| "pipewrite cur a n (c # cs) p s =
     (if pipe_full p then
        (if \<not> readopen p \<or> killed (ptable s ! cur) then (PRet (- 1), c # cs, p, s)
         else (PSleep, c # cs, p,
                upd_proc cur (\<lambda>q. q\<lparr>pstate := SLEEPING, pchan := Some (ChanPipeWrite a)\<rparr>) (wakeup (ChanPipeRead a) s)))
      else pipewrite cur a n cs (pipe_put c p) s)"

fun piperead_copy :: "nat \<Rightarrow> pipe \<Rightarrow> u8 list \<times> pipe" where
  "piperead_copy 0 p = ([], p)"
| "piperead_copy (Suc i) p =
     (if nread p = nwrite p then ([], p)
      else let (c, p) = pipe_get p; (cs, p) = piperead_copy i p in (c # cs, p))"

text \<open>The result is \<open>None\<close> for \<open>-1\<close>, or the bytes stored in the caller's buffer, whose number is returned.\<close>

definition piperead :: "nat \<Rightarrow> u32 \<Rightarrow> nat \<Rightarrow> pipe \<Rightarrow> 'a kst_scheme \<Rightarrow> u8 list option pipe_result \<times> pipe \<times> 'a kst_scheme" where
  "piperead cur a n p s =
     (if nread p = nwrite p \<and> writeopen p then
        (if killed (ptable s ! cur) then (PRet None, p, s)
         else (PSleep, p, upd_proc cur (\<lambda>q. q\<lparr>pstate := SLEEPING, pchan := Some (ChanPipeRead a)\<rparr>) s))
      else let (cs, p) = piperead_copy n p in (PRet (Some cs), p, wakeup (ChanPipeWrite a) s))"

definition pipeclose :: "u32 \<Rightarrow> u32 \<Rightarrow> bool \<Rightarrow> pipe \<Rightarrow> 'a kst_scheme \<Rightarrow> (pipe \<times> 'a kst_scheme) outcome" where
  "pipeclose kend a writable p s =
     (let (p, s) = (if writable then (p\<lparr>writeopen := False\<rparr>, wakeup (ChanPipeRead a) s)
                    else (p\<lparr>readopen := False\<rparr>, wakeup (ChanPipeWrite a) s))
      in if \<not> readopen p \<and> \<not> writeopen p then obind (kfree kend a s) (\<lambda>s. Ret (p, s)) else Ret (p, s))"

section \<open>The ring is a bounded queue\<close>

definition pipe_count :: "pipe \<Rightarrow> nat" where
  "pipe_count p = unat (nwrite p - nread p)"

definition pipe_ok :: "pipe \<Rightarrow> bool" where
  "pipe_ok p \<longleftrightarrow> length (p_data p) = PIPESIZE \<and> pipe_count p \<le> PIPESIZE"

definition pipe_abs :: "pipe \<Rightarrow> u8 list" where
  "pipe_abs p = map (\<lambda>i. p_data p ! ((unat (nread p) + i) mod PIPESIZE)) [0..<pipe_count p]"

lemma length_pipe_abs [simp]: "length (pipe_abs p) = pipe_count p"
  by (simp add: pipe_abs_def)

lemma pipe_empty_iff: "nread p = nwrite p \<longleftrightarrow> pipe_abs p = []"
  by (auto simp: pipe_abs_def pipe_count_def unat_eq_0)

lemma pipe_full_iff: "pipe_full p \<longleftrightarrow> pipe_count p = PIPESIZE"
proof -
  have "pipe_full p \<longleftrightarrow> nwrite p - nread p = of_nat PIPESIZE" by (auto simp: pipe_full_def algebra_simps)
  also have "\<dots> \<longleftrightarrow> unat (nwrite p - nread p) = unat (of_nat PIPESIZE :: u32)" by (rule word_unat_eq_iff)
  finally show ?thesis by (simp add: pipe_count_def PIPESIZE_def)
qed

interpretation pring: ringbuf PIPESIZE
  by unfold_locales (simp_all add: PIPESIZE_def)

lemma pipe_put_ok:
  assumes ok: "pipe_ok p" and room: "\<not> pipe_full p"
  shows "pipe_ok (pipe_put c p)" and "pipe_abs (pipe_put c p) = pipe_abs p @ [c]"
proof -
  let ?n = "pipe_count p"
  have n: "?n < PIPESIZE" using ok room by (simp add: pipe_ok_def pipe_full_iff)
  have "unat (nwrite p - nread p + 1) = Suc ?n"
    using n by (simp add: pipe_count_def PIPESIZE_def unat_word_ariths)
  then have cnt: "pipe_count (pipe_put c p) = Suc ?n"
    by (simp add: pipe_count_def pipe_put_def algebra_simps)
  then show "pipe_ok (pipe_put c p)" using ok n by (simp add: pipe_ok_def pipe_put_def)
  have w: "unat (nwrite p) mod PIPESIZE = (unat (nread p) + ?n) mod PIPESIZE"
    using pring.mod_wrap [of "nread p" ?n] by (simp add: pipe_count_def)
  have len: "(unat (nread p) + ?n) mod PIPESIZE < length (p_data p)" using ok by (simp add: pipe_ok_def PIPESIZE_def)
  have ne: "(unat (nread p) + ?n) mod PIPESIZE \<noteq> (unat (nread p) + i) mod PIPESIZE" if "i < ?n" for i
    by (rule pring.index_ne [OF that n])
  show "pipe_abs (pipe_put c p) = pipe_abs p @ [c]"
    unfolding pipe_abs_def cnt using ne len by (simp add: pipe_put_def w)
qed

lemma pipe_get_ok:
  assumes ok: "pipe_ok p" and ne: "nread p \<noteq> nwrite p" and g: "pipe_get p = (c, p')"
  shows "pipe_ok p'" and "pipe_abs p = c # pipe_abs p'" and "writeopen p' = writeopen p" and "readopen p' = readopen p"
proof -
  have p': "c = p_data p ! (unat (nread p) mod PIPESIZE)" "p' = p\<lparr>nread := nread p + 1\<rparr>" using g by (simp_all add: pipe_get_def)
  have "unat (nwrite p - nread p) \<noteq> 0" using ne by (simp add: unat_eq_0)
  then have "unat (nwrite p - nread p - 1) = unat (nwrite p - nread p) - 1"
    by (intro unat_minus_one) (auto simp: unat_eq_0)
  then have cnt: "pipe_count p = Suc (pipe_count p')"
    using \<open>unat (nwrite p - nread p) \<noteq> 0\<close> by (simp add: pipe_count_def p' algebra_simps)
  then show "pipe_ok p'" using ok by (simp add: pipe_ok_def p'(2))
  have "(unat (nread p') + i) mod PIPESIZE = (unat (nread p) + Suc i) mod PIPESIZE" for i
    using pring.mod_wrap [of "nread p" 1] by (simp add: p'(2)) (metis mod_add_left_eq add_Suc)
  then show "pipe_abs p = c # pipe_abs p'"
    unfolding pipe_abs_def cnt by (simp add: p' upt_conv_Cons map_Suc_upt [symmetric] del: upt_Suc)
  show "writeopen p' = writeopen p" "readopen p' = readopen p" by (simp_all add: p'(2))
qed

section \<open>Reading and writing\<close>

lemma pipewrite_ok:
  assumes "pipe_ok p" and "pipewrite cur a n cs p s = (r, rest, p', s')"
  shows "pipe_ok p' \<and> readopen p' = readopen p \<and> writeopen p' = writeopen p
    \<and> (\<exists>done. cs = done @ rest \<and> pipe_abs p' = pipe_abs p @ done) \<and> (rest \<noteq> [] \<longrightarrow> pipe_full p')
    \<and> (case r of
         PRet v \<Rightarrow> if rest = [] then v = n \<and> s' = wakeup (ChanPipeRead a) s
                   else v = - 1 \<and> (\<not> readopen p \<or> killed (ptable s ! cur)) \<and> s' = s
       | PSleep \<Rightarrow> rest \<noteq> [] \<and> readopen p \<and> \<not> killed (ptable s ! cur)
           \<and> s' = upd_proc cur (\<lambda>q. q\<lparr>pstate := SLEEPING, pchan := Some (ChanPipeWrite a)\<rparr>) (wakeup (ChanPipeRead a) s))"
  using assms
proof (induction cur a n cs p s rule: pipewrite.induct)
  case (1 cur a n p s)
  then show ?case by auto
next
  case (2 cur a n c cs p s)
  show ?case
  proof (cases "pipe_full p")
    case True
    then show ?thesis using 2(2,3) by (auto split: if_splits)
  next
    case False
    note P = pipe_put_ok [OF 2(2) False, of c]
    have "pipewrite cur a n cs (pipe_put c p) s = (r, rest, p', s')" using 2(3) False by simp
    note IH = 2(1) [OF False P(1) this]
    then obtain d where "cs = d @ rest" "pipe_abs p' = pipe_abs (pipe_put c p) @ d" by blast
    then have "\<exists>done. c # cs = done @ rest \<and> pipe_abs p' = pipe_abs p @ done"
      using P(2) by (intro exI [of _ "c # d"]) simp
    moreover have "readopen (pipe_put c p) = readopen p" "writeopen (pipe_put c p) = writeopen p" by (simp_all add: pipe_put_def)
    ultimately show ?thesis using IH by (simp split: pipe_result.splits if_splits)
  qed
qed

lemma piperead_copy_ok:
  assumes "pipe_ok p" and "piperead_copy n p = (cs, p')"
  shows "pipe_ok p' \<and> cs = take n (pipe_abs p) \<and> pipe_abs p' = drop n (pipe_abs p)
    \<and> readopen p' = readopen p \<and> writeopen p' = writeopen p"
  using assms
proof (induction n arbitrary: p cs p')
  case 0
  then show ?case by simp
next
  case (Suc n)
  show ?case
  proof (cases "nread p = nwrite p")
    case True
    then show ?thesis using Suc.prems pipe_empty_iff [of p] by simp
  next
    case False
    obtain c p1 where g: "pipe_get p = (c, p1)" by (cases "pipe_get p") auto
    obtain ds p2 where r: "piperead_copy n p1 = (ds, p2)" by (cases "piperead_copy n p1") auto
    note G = pipe_get_ok [OF Suc.prems(1) False g]
    have "cs = c # ds" "p' = p2" using Suc.prems(2) False g r by simp_all
    then show ?thesis using Suc.IH [OF G(1) r] G by simp
  qed
qed

lemma piperead_ok:
  assumes "pipe_ok p" and "piperead cur a n p s = (r, p', s')"
  shows "pipe_ok p' \<and> readopen p' = readopen p \<and> writeopen p' = writeopen p \<and>
    (case r of
       PRet None \<Rightarrow> p' = p \<and> s' = s \<and> pipe_abs p = [] \<and> writeopen p \<and> killed (ptable s ! cur)
     | PRet (Some cs) \<Rightarrow> cs = take n (pipe_abs p) \<and> pipe_abs p' = drop n (pipe_abs p) \<and> s' = wakeup (ChanPipeWrite a) s
         \<and> (pipe_abs p \<noteq> [] \<or> \<not> writeopen p)
     | PSleep \<Rightarrow> p' = p \<and> pipe_abs p = [] \<and> writeopen p \<and> \<not> killed (ptable s ! cur)
         \<and> s' = upd_proc cur (\<lambda>q. q\<lparr>pstate := SLEEPING, pchan := Some (ChanPipeRead a)\<rparr>) s)"
  using assms piperead_copy_ok [OF assms(1)]
  by (auto simp: piperead_def pipe_empty_iff split: if_splits prod.splits)

section \<open>Interleaved readers and writers\<close>

definition asleep_on :: "chan \<Rightarrow> 'a kst_scheme \<Rightarrow> nat \<Rightarrow> bool" where
  "asleep_on ch s i \<longleftrightarrow> i < length (ptable s) \<and> pstate (ptable s ! i) = SLEEPING \<and> pchan (ptable s ! i) = Some ch"

text \<open>
  A pipe in use: any processes read, write and close its ends in any order, and anything else
  may happen in between that does not put a process to sleep on its channels. The two lists collect
  the bytes written and the bytes read so far; the flag tells whether a write was cut short with \<open>-1\<close>.
\<close>

inductive pipe_run :: "u32 \<Rightarrow> bool \<Rightarrow> u8 list \<Rightarrow> u8 list \<Rightarrow> pipe \<Rightarrow> 'a kst_scheme \<Rightarrow> bool" for a where
  new: "length d = PIPESIZE \<Longrightarrow> (\<And>i. \<not> asleep_on (ChanPipeRead a) s i \<and> \<not> asleep_on (ChanPipeWrite a) s i) \<Longrightarrow>
    pipe_run a False [] [] (pipe_new d) s"
| writes: "pipe_run a f w r p s \<Longrightarrow> pipewrite cur a n cs p s = (x, rest, p', s') \<Longrightarrow>
    pipe_run a (f \<or> x \<noteq> PSleep \<and> rest \<noteq> []) (w @ take (length cs - length rest) cs) r p' s'"
| reads: "pipe_run a f w r p s \<Longrightarrow> piperead cur a n p s = (PRet (Some cs), p', s') \<Longrightarrow> pipe_run a f w (r @ cs) p' s'"
| read_waits: "pipe_run a f w r p s \<Longrightarrow> piperead cur a n p s = (PSleep, p', s') \<Longrightarrow> pipe_run a f w r p' s'"
| closes: "pipe_run a f w r p s \<Longrightarrow> pipeclose kend a wr p s = Ret (p', s') \<Longrightarrow> pipe_run a f w r p' s'"
| others: "pipe_run a f w r p s \<Longrightarrow> (\<And>ch i. ch = ChanPipeRead a \<or> ch = ChanPipeWrite a \<Longrightarrow> asleep_on ch s' i \<Longrightarrow> asleep_on ch s i) \<Longrightarrow>
    pipe_run a f w r p s'"

definition pipe_inv :: "u32 \<Rightarrow> bool \<Rightarrow> u8 list \<Rightarrow> u8 list \<Rightarrow> pipe \<Rightarrow> 'a kst_scheme \<Rightarrow> bool" where
  "pipe_inv a f w r p s \<longleftrightarrow> pipe_ok p \<and> w = r @ pipe_abs p
     \<and> (\<forall>i. asleep_on (ChanPipeRead a) s i \<longrightarrow> f \<or> pipe_abs p = [] \<and> writeopen p)
     \<and> (\<forall>i. asleep_on (ChanPipeWrite a) s i \<longrightarrow> pipe_full p \<and> readopen p)"

lemma asleep_wakeup: "asleep_on ch (wakeup ch' s) i \<longleftrightarrow> ch \<noteq> ch' \<and> asleep_on ch s i"
  by (cases "i < length (ptable s)"; simp add: asleep_on_def wakeup_def wakeup1_nth Let_def) auto

lemma asleep_upd: "asleep_on ch (upd_proc cur (\<lambda>q. q\<lparr>pstate := SLEEPING, pchan := Some ch'\<rparr>) s) i
    \<Longrightarrow> (i = cur \<and> ch = ch') \<or> asleep_on ch s i"
  by (cases "cur < length (ptable s)")
    (auto simp: asleep_on_def upd_proc_def nth_list_update list_update_beyond split: if_splits)

lemma full_not_empty: "pipe_full p \<Longrightarrow> pipe_abs p \<noteq> []"
  using length_pipe_abs [of p] by (auto simp: pipe_full_iff PIPESIZE_def simp del: length_pipe_abs)

lemma pipe_inv_write:
  assumes inv: "pipe_inv a f w r p s" and w: "pipewrite cur a n cs p s = (x, rest, p', s')"
  shows "pipe_inv a (f \<or> x \<noteq> PSleep \<and> rest \<noteq> []) (w @ take (length cs - length rest) cs) r p' s'"
proof -
  have I: "pipe_ok p" "w = r @ pipe_abs p" "\<And>i. asleep_on (ChanPipeRead a) s i \<Longrightarrow> f \<or> pipe_abs p = [] \<and> writeopen p"
    "\<And>i. asleep_on (ChanPipeWrite a) s i \<Longrightarrow> pipe_full p \<and> readopen p"
    using inv by (auto simp: pipe_inv_def)
  note W = pipewrite_ok [OF I(1) w]
  then obtain d where d: "cs = d @ rest" "pipe_abs p' = pipe_abs p @ d" and p': "pipe_ok p'" "readopen p' = readopen p" by blast
  have full: "pipe_full p'" if "pipe_full p"
  proof -
    have "pipe_count p + length d \<le> PIPESIZE" using p'(1) d(2) by (metis length_append length_pipe_abs pipe_ok_def)
    then have "pipe_count p' = PIPESIZE" using that d(2) by (metis add_le_same_cancel1 le_zero_eq length_append length_pipe_abs pipe_full_iff add_0_right)
    then show ?thesis by (simp add: pipe_full_iff)
  qed
  have wr: "pipe_full p' \<and> readopen p'" if "asleep_on (ChanPipeWrite a) s' i" for i
    using W that I(4) full p'(2)
    by (auto split: pipe_result.splits if_splits simp: asleep_wakeup dest!: asleep_upd)
  have rd: "f \<or> x \<noteq> PSleep \<and> rest \<noteq> [] " if "asleep_on (ChanPipeRead a) s' i" for i
    using W that by (auto split: pipe_result.splits if_splits simp: asleep_wakeup dest!: asleep_upd)
  show ?thesis unfolding pipe_inv_def using p' d I(2) wr rd by auto
qed

lemma pipe_inv_read:
  assumes inv: "pipe_inv a f w r p s" and rd: "piperead cur a n p s = (x, p', s')" and x: "x = PRet (Some cs) \<or> x = PSleep \<and> cs = []"
  shows "pipe_inv a f w (r @ cs) p' s'"
proof -
  have I: "pipe_ok p" "w = r @ pipe_abs p" "\<And>i. asleep_on (ChanPipeRead a) s i \<Longrightarrow> f \<or> pipe_abs p = [] \<and> writeopen p"
    "\<And>i. asleep_on (ChanPipeWrite a) s i \<Longrightarrow> pipe_full p \<and> readopen p"
    using inv by (auto simp: pipe_inv_def)
  note R = piperead_ok [OF I(1) rd]
  have "w = (r @ cs) @ pipe_abs p'" using R I(2) x by auto
  moreover have "f \<or> pipe_abs p' = [] \<and> writeopen p'" if "asleep_on (ChanPipeRead a) s' i" for i
    using that R x I(3) [of i] by (auto simp: asleep_wakeup dest!: asleep_upd)
  moreover have "pipe_full p' \<and> readopen p'" if "asleep_on (ChanPipeWrite a) s' i" for i
    using that R x I(4) [of i] by (auto simp: asleep_wakeup dest!: asleep_upd)
  ultimately show ?thesis unfolding pipe_inv_def using R by blast
qed

lemma pipe_inv_close:
  assumes inv: "pipe_inv a f w r p s" and c: "pipeclose kend a wr p s = Ret (p', s')"
  shows "pipe_inv a f w r p' s'"
proof -
  have k: "asleep_on ch t' i = asleep_on ch t i" if "kfree kend a t = Ret t'" for t t' :: "'a kst_scheme" and ch i
    using that by (auto simp: kfree_def asleep_on_def Let_def split: if_splits)
  show ?thesis
    using inv c by (cases wr) (auto simp: pipeclose_def pipe_inv_def pipe_ok_def pipe_abs_def pipe_count_def pipe_full_def
        asleep_wakeup outcome_simps k split: if_splits)
qed

lemma pipe_run_inv: "pipe_run a f w r p s \<Longrightarrow> pipe_inv a f w r p s"
proof (induction rule: pipe_run.induct)
  case (new d s)
  then show ?case by (simp add: pipe_inv_def pipe_new_def pipe_ok_def pipe_abs_def pipe_count_def)
next
  case (reads f w r p s cur n cs p' s')
  then show ?case by (blast intro: pipe_inv_read)
next
  case (read_waits f w r p s cur n p' s')
  then show ?case using pipe_inv_read [of a f w r p s cur n PSleep p' s' "[]"] by simp
next
  case (others f w r p s s')
  then show ?case unfolding pipe_inv_def by blast
qed (blast intro: pipe_inv_write pipe_inv_close)+

section \<open>Properties\<close>

text \<open>
  C17. A pipe is a bounded first-in first-out channel: in every interleaving of reads, writes and closes by any
  processes, the bytes written so far are those read so far followed by those in the ring, in order, and the ring holds
  at most \<open>PIPESIZE\<close> bytes. The two 32-bit counters may have wrapped around any number of times.
\<close>

theorem pipe_fifo:
  assumes "pipe_run a f w r p s"
  shows "w = r @ pipe_abs p \<and> length (pipe_abs p) \<le> PIPESIZE"
  using pipe_run_inv [OF assms] by (simp add: pipe_inv_def pipe_ok_def)

lemma pipe_run_example:
  "\<exists>p s. pipe_run 4096 False [1, 2, 3] [1] p (s :: kst) \<and> asleep_on (ChanPipeRead 4096) s 9 = False"
proof -
  let ?p0 = "pipe_new (replicate PIPESIZE 0)"
  have "pipe_run 4096 False [] [] ?p0 kst0"
    by (rule pipe_run.new) (auto simp: asleep_on_def kst0_def proc0_def)
  from pipe_run.writes [OF this, of 0 3 "[1, 2, 3]"]
  have "pipe_run 4096 False [1, 2, 3] [] (pipe_put 3 (pipe_put 2 (pipe_put 1 ?p0))) (wakeup (ChanPipeRead 4096) kst0)"
    by (fastforce simp: pipe_full_def pipe_put_def pipe_new_def PIPESIZE_def)
  from pipe_run.reads [OF this, of 0 1]
  show ?thesis
    by (fastforce simp: piperead_def pipe_get_def pipe_put_def pipe_new_def PIPESIZE_def asleep_wakeup)
qed

theorem pipe_fifo_witness: "\<exists>p (s :: kst). pipe_run 4096 False [1, 2, 3] [1] p s \<and> pipe_abs p = [2, 3]"
proof -
  obtain p and s :: kst where r: "pipe_run 4096 False [1, 2, 3] [1] p s" using pipe_run_example by blast
  from pipe_fifo [OF r] r show ?thesis by auto
qed



end
