(* ===== verification/File.thy ===== *)
theory File
  imports Dir Pipe
begin

unbundle bit_operations_syntax

text \<open>
  \<open>file.c\<close> and \<open>pipealloc\<close> of \<open>pipe.c\<close>. The record \<open>filst\<close> adds the file table and the pipes, which live in
  pages of the allocator and are named by their addresses. A pipe operation that goes to sleep makes the file
  operation return \<open>PSleep\<close>; calling it again with what is left to do is its continuation.
\<close>

section \<open>State\<close>

datatype ftype = FD_NONE | FD_PIPE | FD_INODE

record ofilest =
  f_type :: ftype
  f_ref :: s32
  f_readable :: bool
  f_writable :: bool
  f_pipe :: u32
  f_ip :: nat
  f_off :: u32

record filst = fsst +
  ftable :: "ofilest list"
  pipes :: "u32 \<Rightarrow> pipe"

definition upd_file :: "nat \<Rightarrow> (ofilest \<Rightarrow> ofilest) \<Rightarrow> 'a filst_scheme \<Rightarrow> 'a filst_scheme" where
  "upd_file i f s = s\<lparr>ftable := (ftable s)[i := f (ftable s ! i)]\<rparr>"

definition upd_pipe :: "u32 \<Rightarrow> pipe \<Rightarrow> 'a filst_scheme \<Rightarrow> 'a filst_scheme" where
  "upd_pipe a p s = s\<lparr>pipes := (pipes s)(a := p)\<rparr>"

section \<open>References\<close>

definition filealloc :: "'a filst_scheme \<Rightarrow> nat option \<times> 'a filst_scheme" where
  "filealloc s =
     (case find_slot (\<lambda>f. f_ref f = 0) (ftable s) of
        None \<Rightarrow> (None, s)
      | Some i \<Rightarrow> (Some i, upd_file i (\<lambda>f. f\<lparr>f_ref := 1\<rparr>) s))"

definition filedup :: "nat \<Rightarrow> 'a filst_scheme \<Rightarrow> 'a filst_scheme outcome" where
  "filedup i s =
     (if sint (f_ref (ftable s ! i)) < 1 then Panic ''filedup''
      else Ret (upd_file i (\<lambda>f. f\<lparr>f_ref := f_ref f + 1\<rparr>) s))"

definition fileclose :: "u32 \<Rightarrow> nat \<Rightarrow> nat \<Rightarrow> 'a filst_scheme \<Rightarrow> 'a filst_scheme outcome" where
  "fileclose kend cur i s =
     (if sint (f_ref (ftable s ! i)) < 1 then Panic ''fileclose''
      else
        let s = upd_file i (\<lambda>f. f\<lparr>f_ref := f_ref f - 1\<rparr>) s; ff = ftable s ! i in
        if sint (f_ref ff) > 0 then Ret s
        else
          let s = upd_file i (\<lambda>f. f\<lparr>f_ref := 0, f_type := FD_NONE\<rparr>) s in
          case f_type ff of
            FD_PIPE \<Rightarrow>
              obind (pipeclose kend (f_pipe ff) (f_writable ff) (pipes s (f_pipe ff)) s) (\<lambda>(p, s).
              Ret (upd_pipe (f_pipe ff) p s))
          | FD_INODE \<Rightarrow>
              obind (begin_op s) (\<lambda>s.
              obind (iput cur (f_ip ff) s) (end_op cur))
          | FD_NONE \<Rightarrow> Ret s)"

section \<open>Reading and writing\<close>

definition filestat :: "nat \<Rightarrow> nat \<Rightarrow> 'a filst_scheme \<Rightarrow> (statr option \<times> 'a filst_scheme) outcome" where
  "filestat cur i s =
     (let f = ftable s ! i in
      if f_type f = FD_INODE then
        obind (ilock cur (Some (f_ip f)) s) (\<lambda>s.
        let st = stati (f_ip f) s in
        obind (iunlock cur (Some (f_ip f)) s) (\<lambda>s. Ret (Some st, s)))
      else Ret (None, s))"

text \<open>The result and the bytes stored at \<open>addr\<close>.\<close>

definition fileread :: "'a filst_scheme devops list \<Rightarrow> nat \<Rightarrow> nat \<Rightarrow> s32 \<Rightarrow> 'a filst_scheme
    \<Rightarrow> ((s32 \<times> u8 list) pipe_result \<times> 'a filst_scheme) outcome" where
  "fileread devsw cur i n s =
     (let f = ftable s ! i in
      if \<not> f_readable f then Ret (PRet (- 1, []), s)
      else case f_type f of
        FD_PIPE \<Rightarrow>
          let (r, p, s) = piperead cur (f_pipe f) (nat (sint n)) (pipes s (f_pipe f)) s; s = upd_pipe (f_pipe f) p s in
          (case r of
             PSleep \<Rightarrow> Ret (PSleep, s)
           | PRet None \<Rightarrow> Ret (PRet (- 1, []), s)
           | PRet (Some cs) \<Rightarrow> Ret (PRet (of_nat (length cs), cs), s))
      | FD_INODE \<Rightarrow>
          obind (ilock cur (Some (f_ip f)) s) (\<lambda>s.
          obind (readi devsw cur (f_ip f) (f_off (ftable s ! i)) n s) (\<lambda>(r, bytes, s).
          let s = (if sint r > 0 then upd_file i (\<lambda>f. f\<lparr>f_off := f_off f + r\<rparr>) s else s) in
          obind (iunlock cur (Some (f_ip f)) s) (\<lambda>s. Ret (PRet (r, bytes), s))))
      | FD_NONE \<Rightarrow> Panic ''fileread'')"

definition write_max :: nat where
  "write_max = ((MAXOPBLOCKS - 1 - 1 - 2) div 2) * 512"

text \<open>The loop of \<open>filewrite\<close> on the bytes from \<open>addr + i\<close> on; \<open>True\<close> when all were written, \<open>False\<close> when a call failed.\<close>

function filewrite_loop :: "'a filst_scheme devops list \<Rightarrow> nat \<Rightarrow> nat \<Rightarrow> u8 list \<Rightarrow> 'a filst_scheme \<Rightarrow> (bool \<times> 'a filst_scheme) outcome" where
  "filewrite_loop devsw cur i src s =
     (if src = [] then Ret (True, s)
      else
        let n1 = min (length src) write_max; ip = f_ip (ftable s ! i) in
        obind (begin_op s) (\<lambda>s.
        obind (ilock cur (Some ip) s) (\<lambda>s.
        obind (writei devsw cur ip (take n1 src) (f_off (ftable s ! i)) (of_nat n1) s) (\<lambda>(r, s).
        let s = (if sint r > 0 then upd_file i (\<lambda>f. f\<lparr>f_off := f_off f + r\<rparr>) s else s) in
        obind (iunlock cur (Some ip) s) (\<lambda>s.
        obind (end_op cur s) (\<lambda>s.
        if sint r < 0 then Ret (False, s)
        else if r \<noteq> of_nat n1 then Panic ''short filewrite''
        else filewrite_loop devsw cur i (drop n1 src) s))))))"
  by pat_completeness auto
termination
  by (relation "measure (\<lambda>(_, _, _, src, _). length src)") (simp_all add: write_max_def MAXOPBLOCKS_def)

declare filewrite_loop.simps [simp del]

text \<open>
  The bytes at \<open>addr\<close> are an argument; \<open>n\<close> is their number. For a pipe the bytes not yet written are returned with \<open>PSleep\<close>.
\<close>

definition filewrite :: "'a filst_scheme devops list \<Rightarrow> nat \<Rightarrow> nat \<Rightarrow> u8 list \<Rightarrow> s32 \<Rightarrow> 'a filst_scheme
    \<Rightarrow> (s32 pipe_result \<times> u8 list \<times> 'a filst_scheme) outcome" where
  "filewrite devsw cur i src n s =
     (let f = ftable s ! i in
      if \<not> f_writable f then Ret (PRet (- 1), [], s)
      else case f_type f of
        FD_PIPE \<Rightarrow>
          let (r, left, p, s) = pipewrite cur (f_pipe f) n src (pipes s (f_pipe f)) s in
          Ret (r, left, upd_pipe (f_pipe f) p s)
      | FD_INODE \<Rightarrow>
          obind (filewrite_loop devsw cur i src s) (\<lambda>(ok, s). Ret (PRet (if ok \<and> 0 \<le> sint n then n else - 1), [], s))
      | FD_NONE \<Rightarrow> Panic ''filewrite'')"

section \<open>pipealloc\<close>

text \<open>The label \<open>bad\<close> without a page: close what was allocated.\<close>

definition close_opt :: "u32 \<Rightarrow> nat \<Rightarrow> nat option \<Rightarrow> 'a filst_scheme \<Rightarrow> 'a filst_scheme outcome" where
  "close_opt kend cur fo s = (case fo of None \<Rightarrow> Ret s | Some i \<Rightarrow> fileclose kend cur i s)"

definition pipealloc :: "u32 \<Rightarrow> nat \<Rightarrow> 'a filst_scheme \<Rightarrow> ((nat \<times> nat) option \<times> 'a filst_scheme) outcome" where
  "pipealloc kend cur s =
     (let (f0, s) = filealloc s;
          (f1, s) = (if f0 = None then (None, s) else filealloc s) in
      case (f0, f1) of
        (Some i, Some j) \<Rightarrow>
          let (p, s) = kalloc s in
          if p = 0 then
            obind (fileclose kend cur i s) (\<lambda>s.
            obind (fileclose kend cur j s) (\<lambda>s. Ret (None, s)))
          else
            let s = upd_pipe p (pipe_new (bytes_at (mem s) (p + 52) PIPESIZE)) s;
                s = upd_file i (\<lambda>f. f\<lparr>f_type := FD_PIPE, f_readable := True, f_writable := False, f_pipe := p\<rparr>) s;
                s = upd_file j (\<lambda>f. f\<lparr>f_type := FD_PIPE, f_readable := False, f_writable := True, f_pipe := p\<rparr>) s in
            Ret (Some (i, j), s)
      | _ \<Rightarrow> obind (close_opt kend cur f0 s) (\<lambda>s. obind (close_opt kend cur f1 s) (\<lambda>s. Ret (None, s))))"

end
