(* ===== verification/Syscall.thy ===== *)
theory Syscall
  imports Sched
begin

unbundle bit_operations_syntax

text \<open>
  \<open>syscall.c\<close>: fetching the arguments of a system call from user memory, the per-process counters of system calls,
  which are a linked list of pages, and the dispatch; and \<open>getsyscallcounter\<close> of \<open>proc.c\<close>. The kernel reads user memory at the user's virtual
  addresses: \<open>mmu_pa\<close> is the translation by the page tables, and an access it does not map is \<open>Fault\<close>.
  \<open>cur\<close> is the current process. The handlers are an argument of \<open>syscall\<close>.
\<close>

section \<open>User memory\<close>

definition mmu_pa :: "mem \<Rightarrow> u32 \<Rightarrow> u32 \<Rightarrow> u32 option" where
  "mmu_pa m pd va =
     (let pde = rd32 m (pd + 4 * PDX va) in
      if pde AND PTE_P = 0 then None
      else
        let pte = rd32 m (P2V (PTE_ADDR pde) + 4 * PTX va) in
        if pte AND PTE_P = 0 then None else Some (P2V (PTE_ADDR pte) + (va - PGROUNDDOWN va)))"

definition uload :: "nat \<Rightarrow> u32 \<Rightarrow> 'a kst_scheme \<Rightarrow> u8 outcome" where
  "uload cur va s =
     (case mmu_pa (mem s) (pgdir (ptable s ! cur)) va of None \<Rightarrow> Fault | Some pa \<Rightarrow> Ret (mem s pa))"

definition uload32 :: "nat \<Rightarrow> u32 \<Rightarrow> 'a kst_scheme \<Rightarrow> u32 outcome" where
  "uload32 cur va s =
     obind (uload cur va s) (\<lambda>b0. obind (uload cur (va + 1) s) (\<lambda>b1.
     obind (uload cur (va + 2) s) (\<lambda>b2. obind (uload cur (va + 3) s) (\<lambda>b3.
     Ret (ucast b0 OR push_bit 8 (ucast b1) OR push_bit 16 (ucast b2) OR push_bit 24 (ucast b3))))))"

definition ustore :: "nat \<Rightarrow> u32 \<Rightarrow> u8 \<Rightarrow> 'a kst_scheme \<Rightarrow> 'a kst_scheme outcome" where
  "ustore cur va b s =
     (case mmu_pa (mem s) (pgdir (ptable s ! cur)) va of
        None \<Rightarrow> Fault
      | Some pa \<Rightarrow> Ret (s\<lparr>mem := (mem s)(pa := b)\<rparr>))"

fun ustores :: "nat \<Rightarrow> u32 \<Rightarrow> u8 list \<Rightarrow> 'a kst_scheme \<Rightarrow> 'a kst_scheme outcome" where
  "ustores cur va [] s = Ret s"
| "ustores cur va (b # bs) s = obind (ustore cur va b s) (ustores cur (va + 1) bs)"

fun uloads :: "nat \<Rightarrow> u32 \<Rightarrow> nat \<Rightarrow> 'a kst_scheme \<Rightarrow> u8 list outcome" where
  "uloads cur va 0 s = Ret []"
| "uloads cur va (Suc n) s = obind (uload cur va s) (\<lambda>b. obind (uloads cur (va + 1) n s) (\<lambda>bs. Ret (b # bs)))"

section \<open>Arguments\<close>

text \<open>\<open>None\<close> is the result \<open>-1\<close>.\<close>

definition fetchint :: "nat \<Rightarrow> u32 \<Rightarrow> 'a kst_scheme \<Rightarrow> s32 option outcome" where
  "fetchint cur addr s =
     (let sz = psz (ptable s ! cur) in
      if addr \<ge> sz \<or> addr + 4 > sz then Ret None
      else obind (uload32 cur addr s) (\<lambda>v. Ret (Some v)))"

text \<open>The loop of \<open>fetchstr\<close>; \<open>n\<close> is \<open>ep - s\<close>. The result is the string, whose length is returned.\<close>

fun fetchstr_loop :: "nat \<Rightarrow> u32 \<Rightarrow> nat \<Rightarrow> 'a kst_scheme \<Rightarrow> u8 list option outcome" where
  "fetchstr_loop cur a 0 s = Ret None"
| "fetchstr_loop cur a (Suc n) s =
     obind (uload cur a s) (\<lambda>c.
     if c = 0 then Ret (Some [])
     else obind (fetchstr_loop cur (a + 1) n s) (\<lambda>r. Ret (map_option ((#) c) r)))"

definition fetchstr :: "nat \<Rightarrow> u32 \<Rightarrow> 'a kst_scheme \<Rightarrow> u8 list option outcome" where
  "fetchstr cur addr s =
     (let sz = psz (ptable s ! cur) in
      if addr \<ge> sz then Ret None else fetchstr_loop cur addr (unat (sz - addr)) s)"

text \<open>Offsets in \<open>struct trapframe\<close> (\<open>x86.h\<close>).\<close>

definition TF_EAX :: u32 where "TF_EAX = 28"
definition TF_EIP :: u32 where "TF_EIP = 56"
definition TF_ESP :: u32 where "TF_ESP = 68"

definition argint :: "nat \<Rightarrow> s32 \<Rightarrow> 'a kst_scheme \<Rightarrow> s32 option outcome" where
  "argint cur n s = fetchint cur (rd32 (mem s) (tf (ptable s ! cur) + TF_ESP) + 4 + 4 * n) s"

definition argptr :: "nat \<Rightarrow> s32 \<Rightarrow> s32 \<Rightarrow> 'a kst_scheme \<Rightarrow> u32 option outcome" where
  "argptr cur n sz s =
     obind (argint cur n s) (\<lambda>r.
     case r of
       None \<Rightarrow> Ret None
     | Some i \<Rightarrow>
         let psize = psz (ptable s ! cur) in
         if sint sz < 0 \<or> i \<ge> psize \<or> i + sz > psize then Ret None else Ret (Some i))"

definition argstr :: "nat \<Rightarrow> s32 \<Rightarrow> 'a kst_scheme \<Rightarrow> u8 list option outcome" where
  "argstr cur n s =
     obind (argint cur n s) (\<lambda>r. case r of None \<Rightarrow> Ret None | Some addr \<Rightarrow> fetchstr cur addr s)"

section \<open>Counting system calls\<close>

text \<open>\<open>struct syscallcounter\<close>: \<open>num\<close>, \<open>count\<close> and \<open>next\<close> at the beginning of a page.\<close>

definition newcounter :: "s32 \<Rightarrow> 'a kmem_scheme \<Rightarrow> u32 \<times> 'a kmem_scheme" where
  "newcounter num s =
     (let (c, s) = kalloc s in
      if c = 0 then (0, s)
      else (c, s\<lparr>mem := wr32 (wr32 (wr32 (mem s) c num) (c + 4) 1) (c + 8) 0\<rparr>))"

text \<open>The loop \<open>while (temp->next != 0 && temp->num != num) temp = temp->next;\<close>, which a cyclic list would not end.\<close>

partial_function (option) hist_find :: "mem \<Rightarrow> u32 \<Rightarrow> s32 \<Rightarrow> u32 option" where
  "hist_find m temp num =
     (if rd32 m (temp + 8) \<noteq> 0 \<and> rd32 m temp \<noteq> num then hist_find m (rd32 m (temp + 8)) num else Some temp)"

definition updatesyscallhistory :: "nat \<Rightarrow> s32 \<Rightarrow> 'a kst_scheme \<Rightarrow> 'a kst_scheme outcome" where
  "updatesyscallhistory cur num s =
     (if syscallhistory (ptable s ! cur) = 0 then
        let (c, s) = newcounter num s in Ret (upd_proc cur (\<lambda>p. p\<lparr>syscallhistory := c\<rparr>) s)
      else case hist_find (mem s) (syscallhistory (ptable s ! cur)) num of
        None \<Rightarrow> Loop
      | Some temp \<Rightarrow>
          if rd32 (mem s) temp = num then Ret (s\<lparr>mem := wr32 (mem s) (temp + 4) (rd32 (mem s) (temp + 4) + 1)\<rparr>)
          else let (c, s) = newcounter num s in Ret (s\<lparr>mem := wr32 (mem s) (temp + 8) c\<rparr>))"

definition getsyscallcounter :: "nat \<Rightarrow> s32 \<Rightarrow> 'a kst_scheme \<Rightarrow> s32 outcome" where
  "getsyscallcounter cur num s =
     (let temp = syscallhistory (ptable s ! cur) in
      if temp = 0 then Fault
      else case hist_find (mem s) temp num of
        None \<Rightarrow> Loop
      | Some temp \<Rightarrow> Ret (if rd32 (mem s) temp = num then rd32 (mem s) (temp + 4) else 0))"

definition NSYSCALLS :: nat where "NSYSCALLS = 30"

definition syscall :: "(s32 \<Rightarrow> ('a kst_scheme \<Rightarrow> (s32 \<times> 'a kst_scheme) outcome) option) \<Rightarrow> nat \<Rightarrow> 'a kst_scheme \<Rightarrow> 'a kst_scheme outcome" where
  "syscall syscalls cur s =
     (let tfa = tf (ptable s ! cur); num = rd32 (mem s) (tfa + TF_EAX);
          set_eax = (\<lambda>v s. s\<lparr>mem := wr32 (mem s) (tfa + TF_EAX) v\<rparr>) in
      case (if sint num > 0 \<and> num < of_nat NSYSCALLS then syscalls num else None) of
        Some handler \<Rightarrow>
          obind (updatesyscallhistory cur num s) (\<lambda>s.
          obind (handler s) (\<lambda>(r, s). Ret (set_eax r s)))
      | None \<Rightarrow> Ret (set_eax (- 1) s))"

end
