(* ===== verification/ProcLife.thy ===== *)
theory ProcLife
  imports File Syscall
begin

unbundle bit_operations_syntax

text \<open>
  The life of a process in \<open>proc.c\<close>: \<open>userinit\<close>, \<open>growproc\<close>, \<open>fork\<close>, \<open>exit\<close>, \<open>wait\<close>, \<open>kill\<close>, \<open>forkret\<close>, and the calls
  that report on processes. \<open>cur\<close> is the current process, \<open>me\<close> its CPU; \<open>kend\<close> and \<open>data\<close> are the linker's symbols, \<open>trapret\<close>
  and \<open>forkret\<close> code addresses. \<open>exit\<close> ends in the context switch of \<open>sched\<close>. \<open>wait\<close> returns \<open>PSleep\<close> when it
  sleeps; \<open>wait_scan\<close> is its continuation.
\<close>

section \<open>Helpers\<close>

definition wr16 :: "mem \<Rightarrow> u32 \<Rightarrow> u16 \<Rightarrow> mem" where
  "wr16 m a v = m(a := ucast v, a + 1 := ucast (drop_bit 8 v))"

text \<open>\<open>safestrcpy(p->name, t, sizeof(p->name))\<close> for a C string \<open>t\<close>: the bytes after the terminator stay.\<close>

definition set_name :: "u8 list \<Rightarrow> u8 list \<Rightarrow> u8 list" where
  "set_name t old = (let t = take 15 t in t @ [0] @ drop (length t + 1) old)"

text \<open>The loops that free the counters of system calls; there are no more pages than \<open>NPAGES\<close>.\<close>

definition NPAGES :: nat where "NPAGES = 57344"

fun free_history :: "nat \<Rightarrow> u32 \<Rightarrow> nat \<Rightarrow> 'a kst_scheme \<Rightarrow> 'a kst_scheme outcome" where
  "free_history 0 kend i s = (if syscallhistory (ptable s ! i) \<noteq> 0 then Loop else Ret s)"
| "free_history (Suc n) kend i s =
     (let temp = syscallhistory (ptable s ! i) in
      if temp \<noteq> 0 then
        obind (kfree kend temp (upd_proc i (\<lambda>p. p\<lparr>syscallhistory := rd32 (mem s) (temp + 8)\<rparr>) s)) (free_history n kend i)
      else Ret s)"

section \<open>Creation\<close>

definition SEG_UCODE :: u16 where "SEG_UCODE = 3"
definition SEG_UDATA :: u16 where "SEG_UDATA = 4"
definition DPL_USER :: u16 where "DPL_USER = 3"
definition FL_IF :: u32 where "FL_IF = 0x200"
definition TF_ES :: u32 where "TF_ES = 40"
definition TF_DS :: u32 where "TF_DS = 44"
definition TF_CS :: u32 where "TF_CS = 60"
definition TF_EFLAGS :: u32 where "TF_EFLAGS = 64"
definition TF_SS :: u32 where "TF_SS = 72"

definition init_tf :: "mem \<Rightarrow> u32 \<Rightarrow> mem" where
  "init_tf m t =
     (let m = memset m t 0 TF_SIZE;
          m = wr16 m (t + TF_CS) (push_bit 3 SEG_UCODE OR DPL_USER);
          m = wr16 m (t + TF_DS) (push_bit 3 SEG_UDATA OR DPL_USER);
          m = wr16 m (t + TF_ES) (push_bit 3 SEG_UDATA OR DPL_USER);
          m = wr16 m (t + TF_SS) (push_bit 3 SEG_UDATA OR DPL_USER);
          m = wr32 m (t + TF_EFLAGS) FL_IF;
          m = wr32 m (t + TF_ESP) PGSIZE
      in wr32 m (t + TF_EIP) 0)"

text \<open>The bytes of ``initcode'' in ASCII.\<close>

definition initcode_name :: "u8 list" where
  "initcode_name = [105, 110, 105, 116, 99, 111, 100, 101]"

definition userinit :: "'a filst_scheme devops list \<Rightarrow> u32 \<Rightarrow> u32 \<Rightarrow> u32 \<Rightarrow> u32 \<Rightarrow> u8 list \<Rightarrow> 'a filst_scheme \<Rightarrow> 'a filst_scheme outcome" where
  "userinit devsw kend data trapret forkret initcode s =
     (let s = s\<lparr>schedulingQueues := replicate 4 q_init\<rparr>;
          (po, s) = allocproc trapret forkret s;
          s = s\<lparr>initproc := po\<rparr> in
      case po of
        None \<Rightarrow> Fault
      | Some i \<Rightarrow>
          obind (setupkvm kend data s) (\<lambda>(pd, s).
          let s = upd_proc i (\<lambda>p. p\<lparr>pgdir := pd\<rparr>) s in
          if pd = 0 then Panic ''userinit: out of memory?''
          else
            obind (inituvm pd initcode s) (\<lambda>s.
            let s = upd_proc i (\<lambda>p. p\<lparr>psz := PGSIZE\<rparr>) s;
                s = s\<lparr>mem := init_tf (mem s) (tf (ptable s ! i))\<rparr>;
                s = upd_proc i (\<lambda>p. p\<lparr>pname := set_name initcode_name (pname p)\<rparr>) s in
            obind (namei devsw i [47] s) (\<lambda>(d, s).
            Ret (upd_proc i (\<lambda>p. p\<lparr>cwd := d, pstate := RUNNABLE\<rparr>) s)))))"

definition growproc :: "u32 \<Rightarrow> nat \<Rightarrow> nat \<Rightarrow> s32 \<Rightarrow> 'a kst_scheme \<Rightarrow> (s32 \<times> 'a kst_scheme) outcome" where
  "growproc kend me cur n s =
     (let p = ptable s ! cur; sz = psz p in
      obind (if sint n > 0 then allocuvm kend (pgdir p) sz (sz + n) s
             else if sint n < 0 then deallocuvm kend (pgdir p) sz (sz + n) s
             else Ret (sz, s)) (\<lambda>(sz', s).
      if n \<noteq> 0 \<and> sz' = 0 then Ret (- 1, s)
      else
        obind (switchuvm me (Some cur) (upd_proc cur (\<lambda>p. p\<lparr>psz := sz'\<rparr>) s)) (\<lambda>s. Ret (0, s))))"

text \<open>The loop of \<open>fork\<close> on the open files.\<close>

definition dup_file :: "nat \<Rightarrow> nat \<Rightarrow> nat \<Rightarrow> 'a filst_scheme \<Rightarrow> 'a filst_scheme outcome" where
  "dup_file cur i fd s =
     (case ofile (ptable s ! cur) ! fd of
        None \<Rightarrow> Ret s
      | Some f \<Rightarrow> obind (filedup f s) (\<lambda>s. Ret (upd_proc i (\<lambda>p. p\<lparr>ofile := (ofile p)[fd := Some f]\<rparr>) s)))"

definition fork :: "u32 \<Rightarrow> u32 \<Rightarrow> u32 \<Rightarrow> u32 \<Rightarrow> nat \<Rightarrow> 'a filst_scheme \<Rightarrow> (s32 \<times> 'a filst_scheme) outcome" where
  "fork kend data trapret forkret cur s =
     (let (np, s) = allocproc trapret forkret s in
      case np of
        None \<Rightarrow> Ret (- 1, s)
      | Some i \<Rightarrow>
          obind (copyuvm kend data (pgdir (ptable s ! cur)) (psz (ptable s ! cur)) s) (\<lambda>(pd, s).
          let s = upd_proc i (\<lambda>p. p\<lparr>pgdir := pd\<rparr>) s in
          if pd = 0 then
            obind (kfree kend (kstack (ptable s ! i)) s) (\<lambda>s.
            Ret (- 1, upd_proc i (\<lambda>p. p\<lparr>kstack := 0, pstate := UNUSED\<rparr>) s))
          else
            let s = upd_proc i (\<lambda>p. p\<lparr>psz := psz (ptable s ! cur), parent := Some cur\<rparr>) s;
                s = s\<lparr>mem := put_bytes (mem s) (tf (ptable s ! i)) (bytes_at (mem s) (tf (ptable s ! cur)) (unat TF_SIZE))\<rparr>;
                s = s\<lparr>mem := wr32 (mem s) (tf (ptable s ! i) + TF_EAX) 0\<rparr> in
            obind (ofold (dup_file cur i) [0..<NOFILE] s) (\<lambda>s.
            case cwd (ptable s ! cur) of
              None \<Rightarrow> Fault
            | Some d \<Rightarrow>
                let (d, s) = idup d s;
                    s = upd_proc i (\<lambda>p. p\<lparr>cwd := Some d, pname := set_name (takeWhile (\<lambda>c. c \<noteq> 0) (pname (ptable s ! cur))) (pname p)\<rparr>) s;
                    s = upd_proc i (\<lambda>p. p\<lparr>pstate := RUNNABLE\<rparr>) s in
                Ret (pid (ptable s ! i), s))))"

text \<open>\<open>forkret\<close>: the first process to run initialises the inode cache and recovers the log.\<close>

definition forkret :: "nat \<Rightarrow> nat \<Rightarrow> bool \<Rightarrow> 'a fsst_scheme \<Rightarrow> (bool \<times> 'a fsst_scheme) outcome" where
  "forkret me cur is_first s =
     obind (release_ptable me s) (\<lambda>s.
     if is_first then
       obind (iinit cur ROOTDEV s) (\<lambda>s.
       obind (initlog cur ROOTDEV s) (\<lambda>s. Ret (False, s)))
     else Ret (False, s))"

section \<open>Exit, wait and kill\<close>

definition close_fd :: "u32 \<Rightarrow> nat \<Rightarrow> nat \<Rightarrow> 'a filst_scheme \<Rightarrow> 'a filst_scheme outcome" where
  "close_fd kend cur fd s =
     (case ofile (ptable s ! cur) ! fd of
        None \<Rightarrow> Ret s
      | Some f \<Rightarrow>
          obind (fileclose kend cur f s) (\<lambda>s. Ret (upd_proc cur (\<lambda>p. p\<lparr>ofile := (ofile p)[fd := None]\<rparr>) s)))"

definition reparent :: "nat \<Rightarrow> nat \<Rightarrow> 'a kst_scheme \<Rightarrow> 'a kst_scheme" where
  "reparent cur i s =
     (if parent (ptable s ! i) = Some cur then
        let s = upd_proc i (\<lambda>p. p\<lparr>parent := initproc s\<rparr>) s in
        if pstate (ptable s ! i) = ZOMBIE then
          (case initproc s of None \<Rightarrow> s | Some q \<Rightarrow> wakeup1 (ChanProc q) s)
        else s
      else s)"

text \<open>The part under \<open>ptable.lock\<close>, up to the call of \<open>sched\<close>.\<close>

definition exit_zombie :: "nat \<Rightarrow> 'a kst_scheme \<Rightarrow> 'a kst_scheme" where
  "exit_zombie cur s =
     (let s = (case parent (ptable s ! cur) of None \<Rightarrow> s | Some q \<Rightarrow> wakeup1 (ChanProc q) s);
          s = fold (reparent cur) [0..<length (ptable s)] s
      in upd_proc cur (\<lambda>p. p\<lparr>pstate := ZOMBIE\<rparr>) s)"

text \<open>The times that \<open>exit\<close> files under the process's pid; an index outside \<open>infos\<close> is a \<open>Fault\<close>.\<close>

definition file_info :: "nat \<Rightarrow> 'a kst_scheme \<Rightarrow> 'a kst_scheme outcome" where
  "file_info cur s =
     (let s = upd_proc cur (\<lambda>p. p\<lparr>termination_time := ticks s\<rparr>) s; p = ptable s ! cur in
      if sint (pid p) < 0 \<or> sint (pid p) \<ge> int (length (infos s)) then Fault
      else Ret (s\<lparr>infos := (infos s)[unat (pid p) :=
        \<lparr>inf_creation_time = creation_time p, inf_running_time = running_time p, inf_ready_time = ready_time p,
         inf_sleep_time = sleep_time p, inf_termination_time = termination_time p\<rparr>]\<rparr>))"

definition exit :: "u32 \<Rightarrow> nat \<Rightarrow> nat \<Rightarrow> 'a filst_scheme \<Rightarrow> (bool \<times> 'a filst_scheme) outcome" where
  "exit kend me cur s =
     (if initproc s = Some cur then Panic ''init exiting''
      else
        obind (file_info cur s) (\<lambda>s.
        obind (ofold (close_fd kend cur) [0..<NOFILE] s) (\<lambda>s.
        obind (free_history NPAGES kend cur s) (\<lambda>s.
        obind (begin_op s) (\<lambda>s.
        obind (case cwd (ptable s ! cur) of None \<Rightarrow> Fault | Some d \<Rightarrow> iput cur d s) (\<lambda>s.
        obind (end_op cur s) (\<lambda>s.
        let s = upd_proc cur (\<lambda>p. p\<lparr>cwd := None\<rparr>) s in
        obind (acquire_ptable me s) (\<lambda>s.
        sched_enter me (exit_zombie cur s)))))))))"

text \<open>What \<open>wait\<close> does to a child that has exited.\<close>

definition reap :: "u32 \<Rightarrow> nat \<Rightarrow> 'a kst_scheme \<Rightarrow> (s32 \<times> 'a kst_scheme) outcome" where
  "reap kend i s =
     (let n = pid (ptable s ! i) in
      obind (kfree kend (kstack (ptable s ! i)) s) (\<lambda>s.
      obind (freevm kend (pgdir (ptable s ! i)) (upd_proc i (\<lambda>p. p\<lparr>kstack := 0\<rparr>) s)) (\<lambda>s.
      Ret (n, upd_proc i (\<lambda>p. p\<lparr>pid := 0, parent := None, pname := (pname p)[0 := 0], killed := False, pstate := UNUSED\<rparr>) s))))"

definition wait_scan :: "u32 \<Rightarrow> nat \<Rightarrow> nat \<Rightarrow> 'a kst_scheme \<Rightarrow> (s32 pipe_result \<times> 'a kst_scheme) outcome" where
  "wait_scan kend me cur s =
     (case find_slot (\<lambda>p. parent p = Some cur \<and> pstate p = ZOMBIE) (ptable s) of
        Some i \<Rightarrow>
          obind (reap kend i s) (\<lambda>(n, s).
          obind (release_ptable me s) (\<lambda>s. Ret (PRet n, s)))
      | None \<Rightarrow>
          if (\<forall>p \<in> set (ptable s). parent p \<noteq> Some cur) \<or> killed (ptable s ! cur) then
            obind (release_ptable me s) (\<lambda>s. Ret (PRet (- 1), s))
          else
            obind (sleep_enter me (ChanProc cur) PtableLock s) (\<lambda>(_, _, s). Ret (PSleep, s)))"

definition wait :: "u32 \<Rightarrow> nat \<Rightarrow> nat \<Rightarrow> 'a kst_scheme \<Rightarrow> (s32 pipe_result \<times> 'a kst_scheme) outcome" where
  "wait kend me cur s = obind (acquire_ptable me s) (wait_scan kend me cur)"

definition kill :: "u32 \<Rightarrow> s32 \<Rightarrow> 'a kst_scheme \<Rightarrow> (s32 \<times> 'a kst_scheme) outcome" where
  "kill kend n s =
     (case find_slot (\<lambda>p. pid p = n) (ptable s) of
        None \<Rightarrow> Ret (- 1, s)
      | Some i \<Rightarrow>
          let s = upd_proc i (\<lambda>p. p\<lparr>killed := True\<rparr>) s;
              s = (if pstate (ptable s ! i) = SLEEPING
                   then upd_proc i (\<lambda>p. p\<lparr>pstate := RUNNABLE, sleep_time := sleep_time p + (ticks s - last_time p)\<rparr>) s
                   else s);
              s = upd_proc i (\<lambda>p. p\<lparr>last_time := ticks s\<rparr>) s in
          obind (free_history NPAGES kend i s) (\<lambda>s. Ret (0, s)))"

section \<open>Reports\<close>

text \<open>The loop of \<open>getchildren\<close> reads \<open>p->parent->pid\<close> of every slot of the table.\<close>

definition getchildren :: "nat \<Rightarrow> 'a kst_scheme \<Rightarrow> s32 outcome" where
  "getchildren cur s =
     ofold (\<lambda>p r.
         case parent p of
           None \<Rightarrow> Fault
         | Some q \<Rightarrow> Ret (if pid (ptable s ! q) = pid (ptable s ! cur) then r * 100 + pid p else r))
       (ptable s) 0"

definition getinfo :: "s32 \<Rightarrow> 'a kst_scheme \<Rightarrow> info outcome" where
  "getinfo n s =
     (if sint n < 0 \<or> sint n \<ge> int (length (infos s)) then Fault else Ret (infos s ! unat n))"

end
