(* ===== verification/Sysproc.thy ===== *)
theory Sysproc
  imports ProcLife
begin

unbundle bit_operations_syntax

text \<open>
  \<open>sysproc.c\<close> and the end of \<open>proc.c\<close>: the system calls on processes. Each takes its arguments from the
  user stack by \<open>argint\<close> and \<open>argptr\<close>. \<open>sys_sleep\<close> returns \<open>PSleep\<close> while it waits; \<open>sleep_on\<close> is its loop, run again after every
  wakeup. The ticks lock makes their sections single steps.
\<close>

section \<open>Arguments\<close>

text \<open>\<open>if (argint(n, &x) < 0) return -1;\<close>, with the rest of the handler as continuation.\<close>

definition with_int :: "nat \<Rightarrow> s32 \<Rightarrow> 'a kst_scheme \<Rightarrow> (s32 \<Rightarrow> (s32 \<times> 'a kst_scheme) outcome) \<Rightarrow> (s32 \<times> 'a kst_scheme) outcome" where
  "with_int cur n s k = obind (argint cur n s) (\<lambda>r. case r of None \<Rightarrow> Ret (- 1, s) | Some v \<Rightarrow> k v)"

definition with_ptr :: "nat \<Rightarrow> s32 \<Rightarrow> s32 \<Rightarrow> 'a kst_scheme \<Rightarrow> (u32 \<Rightarrow> (s32 \<times> 'a kst_scheme) outcome) \<Rightarrow> (s32 \<times> 'a kst_scheme) outcome" where
  "with_ptr cur n sz s k = obind (argptr cur n sz s) (\<lambda>r. case r of None \<Rightarrow> Ret (- 1, s) | Some v \<Rightarrow> k v)"

section \<open>The calls\<close>

definition sys_kill :: "u32 \<Rightarrow> nat \<Rightarrow> 'a kst_scheme \<Rightarrow> (s32 \<times> 'a kst_scheme) outcome" where
  "sys_kill kend cur s = with_int cur 0 s (\<lambda>n. kill kend n s)"

definition sys_getpid :: "nat \<Rightarrow> 'a kst_scheme \<Rightarrow> (s32 \<times> 'a kst_scheme) outcome" where
  "sys_getpid cur s = Ret (pid (ptable s ! cur), s)"

definition sys_sbrk :: "u32 \<Rightarrow> nat \<Rightarrow> nat \<Rightarrow> 'a kst_scheme \<Rightarrow> (s32 \<times> 'a kst_scheme) outcome" where
  "sys_sbrk kend me cur s =
     with_int cur 0 s (\<lambda>n.
     let addr = psz (ptable s ! cur) in
     obind (growproc kend me cur n s) (\<lambda>(r, s). Ret (if sint r < 0 then - 1 else addr, s)))"

text \<open>The test of the loop compares an \<open>unsigned\<close> with an \<open>int\<close>, so unsigned.\<close>

definition sleep_on :: "nat \<Rightarrow> u32 \<Rightarrow> s32 \<Rightarrow> 'a kst_scheme \<Rightarrow> s32 pipe_result" where
  "sleep_on cur ticks0 n s =
     (if ticks s - ticks0 < n then (if killed (ptable s ! cur) then PRet (- 1) else PSleep) else PRet 0)"

definition sys_sleep :: "nat \<Rightarrow> 'a kst_scheme \<Rightarrow> s32 pipe_result outcome" where
  "sys_sleep cur s =
     obind (argint cur 0 s) (\<lambda>r. case r of None \<Rightarrow> Ret (PRet (- 1)) | Some n \<Rightarrow> Ret (sleep_on cur (ticks s) n s))"

definition sys_uptime :: "'a kst_scheme \<Rightarrow> (s32 \<times> 'a kst_scheme) outcome" where
  "sys_uptime s = Ret (ticks s, s)"

definition sys_getparentid :: "nat \<Rightarrow> 'a kst_scheme \<Rightarrow> (s32 \<times> 'a kst_scheme) outcome" where
  "sys_getparentid cur s =
     (case parent (ptable s ! cur) of None \<Rightarrow> Fault | Some q \<Rightarrow> Ret (pid (ptable s ! q), s))"

definition sys_getchildren :: "nat \<Rightarrow> 'a kst_scheme \<Rightarrow> (s32 \<times> 'a kst_scheme) outcome" where
  "sys_getchildren cur s = obind (getchildren cur s) (\<lambda>r. Ret (r, s))"

definition sys_getsyscallcounter :: "nat \<Rightarrow> 'a kst_scheme \<Rightarrow> (s32 \<times> 'a kst_scheme) outcome" where
  "sys_getsyscallcounter cur s =
     with_int cur 0 s (\<lambda>num. obind (getsyscallcounter cur num s) (\<lambda>r. Ret (r, s)))"

definition sys_setpriority :: "nat \<Rightarrow> 'a kst_scheme \<Rightarrow> (s32 \<times> 'a kst_scheme) outcome" where
  "sys_setpriority cur s =
     with_int cur 0 s (\<lambda>n. with_int cur 1 s (\<lambda>prio.
     if sint n < 0 \<or> sint n > int NPROC then Ret (- 1, s)
     else if sint prio < 1 then Ret (- 1, s)
     else Ret (setPriority n (if sint prio > 6 then 5 else prio) s)))"

definition sys_setqueue :: "nat \<Rightarrow> 'a kst_scheme \<Rightarrow> (s32 \<times> 'a kst_scheme) outcome" where
  "sys_setqueue cur s =
     with_int cur 0 s (\<lambda>n. with_int cur 1 s (\<lambda>qn.
     if sint n < 0 \<or> sint n > int NPROC then Ret (- 1, s)
     else if sint qn < 0 then Ret (- 1, s)
     else setqueue n qn s))"

definition sys_changepolicy :: "nat \<Rightarrow> 'a kst_scheme \<Rightarrow> (s32 \<times> 'a kst_scheme) outcome" where
  "sys_changepolicy cur s = with_int cur 0 s (\<lambda>p. Ret (changepolicy p s))"

definition word_bytes :: "u32 \<Rightarrow> u8 list" where
  "word_bytes v = [ucast v, ucast (drop_bit 8 v), ucast (drop_bit 16 v), ucast (drop_bit 24 v)]"

text \<open>\<open>struct info\<close> in memory.\<close>

definition info_bytes :: "info \<Rightarrow> u8 list" where
  "info_bytes i = word_bytes (inf_creation_time i) @ word_bytes (inf_running_time i) @ word_bytes (inf_ready_time i)
     @ word_bytes (inf_sleep_time i) @ word_bytes (inf_termination_time i)"

definition sys_getinfo :: "nat \<Rightarrow> 'a kst_scheme \<Rightarrow> (s32 \<times> 'a kst_scheme) outcome" where
  "sys_getinfo cur s =
     with_int cur 0 s (\<lambda>n. with_ptr cur 1 20 s (\<lambda>pinfo.
     if sint n < 0 \<or> sint n > int NPROC then Ret (- 1, s)
     else
       obind (getinfo n s) (\<lambda>i.
       obind (ustores cur pinfo (info_bytes i) s) (\<lambda>s. Ret (0, s)))))"

text \<open>\<open>*(int *)va += v\<close> on user memory; \<open>struct sum\<close> is \<open>tat\<close>, \<open>w\<close>, \<open>cbt\<close>.\<close>

definition uadd32 :: "nat \<Rightarrow> u32 \<Rightarrow> u32 \<Rightarrow> 'a kst_scheme \<Rightarrow> 'a kst_scheme outcome" where
  "uadd32 cur va v s = obind (uload32 cur va s) (\<lambda>x. ustores cur va (word_bytes (x + v)) s)"

definition increment :: "nat \<Rightarrow> u32 \<Rightarrow> u32 \<Rightarrow> s32 \<Rightarrow> 'a kst_scheme \<Rightarrow> 'a kst_scheme outcome" where
  "increment cur pinfo suminfo tat s =
     obind (uload32 cur (pinfo + 4) s) (\<lambda>running.
     obind (uadd32 cur (suminfo + 8) running s) (\<lambda>s.
     obind (uload32 cur (pinfo + 12) s) (\<lambda>sleeping.
     obind (uadd32 cur (suminfo + 4) sleeping s) (\<lambda>s.
     uadd32 cur suminfo tat s))))"

definition sys_increment :: "nat \<Rightarrow> 'a kst_scheme \<Rightarrow> (s32 \<times> 'a kst_scheme) outcome" where
  "sys_increment cur s =
     with_ptr cur 0 20 s (\<lambda>pinfo. with_ptr cur 1 12 s (\<lambda>suminfo. with_int cur 2 s (\<lambda>tat.
     obind (increment cur pinfo suminfo tat s) (\<lambda>s. Ret (0, s)))))"

end
