(* ===== verification/Sysfile.thy ===== *)
theory Sysfile
  imports Sysproc
begin

unbundle bit_operations_syntax

text \<open>
  \<open>sysfile.c\<close> but for \<open>sys_exec\<close>: the system calls on files. The results of \<open>sys_read\<close> and \<open>sys_write\<close> are those of
  \<open>fileread\<close> and \<open>filewrite\<close>; the others return the value for \<open>eax\<close>. The buffer \<open>name\<close> on the stack of a handler
  is taken to be zeroed; only the part that \<open>namex\<close> writes is read.
\<close>

section \<open>Descriptors\<close>

definition argfd :: "nat \<Rightarrow> s32 \<Rightarrow> 'a kst_scheme \<Rightarrow> (s32 \<times> nat) option outcome" where
  "argfd cur n s =
     obind (argint cur n s) (\<lambda>r.
     case r of
       None \<Rightarrow> Ret None
     | Some fd \<Rightarrow>
         if sint fd < 0 \<or> sint fd \<ge> int NOFILE then Ret None
         else Ret (map_option (Pair fd) (ofile (ptable s ! cur) ! unat fd)))"

definition fdalloc :: "nat \<Rightarrow> nat \<Rightarrow> 'a kst_scheme \<Rightarrow> nat option \<times> 'a kst_scheme" where
  "fdalloc cur f s =
     (case find_slot (\<lambda>x. x = None) (ofile (ptable s ! cur)) of
        None \<Rightarrow> (None, s)
      | Some fd \<Rightarrow> (Some fd, upd_proc cur (\<lambda>p. p\<lparr>ofile := (ofile p)[fd := Some f]\<rparr>) s))"

definition sys_dup :: "nat \<Rightarrow> 'a filst_scheme \<Rightarrow> (s32 \<times> 'a filst_scheme) outcome" where
  "sys_dup cur s =
     obind (argfd cur 0 s) (\<lambda>r.
     case r of
       None \<Rightarrow> Ret (- 1, s)
     | Some (_, f) \<Rightarrow>
         (case fdalloc cur f s of
            (None, s) \<Rightarrow> Ret (- 1, s)
          | (Some fd, s) \<Rightarrow> obind (filedup f s) (\<lambda>s. Ret (of_nat fd, s))))"

definition sys_read :: "'a filst_scheme devops list \<Rightarrow> nat \<Rightarrow> 'a filst_scheme \<Rightarrow> (s32 pipe_result \<times> 'a filst_scheme) outcome" where
  "sys_read devsw cur s =
     obind (argfd cur 0 s) (\<lambda>r. case r of None \<Rightarrow> Ret (PRet (- 1), s) | Some (_, f) \<Rightarrow>
     obind (argint cur 2 s) (\<lambda>r. case r of None \<Rightarrow> Ret (PRet (- 1), s) | Some n \<Rightarrow>
     obind (argptr cur 1 n s) (\<lambda>r. case r of None \<Rightarrow> Ret (PRet (- 1), s) | Some p \<Rightarrow>
     obind (fileread devsw cur f n s) (\<lambda>(r, s).
     case r of
       PSleep \<Rightarrow> Ret (PSleep, s)
     | PRet (v, bytes) \<Rightarrow> obind (ustores cur p bytes s) (\<lambda>s. Ret (PRet v, s))))))"

definition sys_write :: "'a filst_scheme devops list \<Rightarrow> nat \<Rightarrow> 'a filst_scheme \<Rightarrow> (s32 pipe_result \<times> u8 list \<times> 'a filst_scheme) outcome" where
  "sys_write devsw cur s =
     obind (argfd cur 0 s) (\<lambda>r. case r of None \<Rightarrow> Ret (PRet (- 1), [], s) | Some (_, f) \<Rightarrow>
     obind (argint cur 2 s) (\<lambda>r. case r of None \<Rightarrow> Ret (PRet (- 1), [], s) | Some n \<Rightarrow>
     obind (argptr cur 1 n s) (\<lambda>r. case r of None \<Rightarrow> Ret (PRet (- 1), [], s) | Some p \<Rightarrow>
     obind (uloads cur p (unat n) s) (\<lambda>src. filewrite devsw cur f src n s))))"

definition sys_close :: "u32 \<Rightarrow> nat \<Rightarrow> 'a filst_scheme \<Rightarrow> (s32 \<times> 'a filst_scheme) outcome" where
  "sys_close kend cur s =
     obind (argfd cur 0 s) (\<lambda>r.
     case r of
       None \<Rightarrow> Ret (- 1, s)
     | Some (fd, f) \<Rightarrow>
         obind (fileclose kend cur f (upd_proc cur (\<lambda>p. p\<lparr>ofile := (ofile p)[unat fd := None]\<rparr>) s)) (\<lambda>s. Ret (0, s)))"

text \<open>\<open>struct stat\<close> in memory: the two \<open>short\<close> fields are padded.\<close>

definition half_bytes :: "u16 \<Rightarrow> u8 list" where
  "half_bytes v = [ucast v, ucast (drop_bit 8 v)]"

definition stat_fields :: "statr \<Rightarrow> (u32 \<times> u8 list) list" where
  "stat_fields st = [(4, word_bytes (st_dev st)), (8, word_bytes (st_ino st)), (0, half_bytes (st_type st)),
     (12, half_bytes (st_nlink st)), (16, word_bytes (st_size st))]"

definition sys_fstat :: "nat \<Rightarrow> 'a filst_scheme \<Rightarrow> (s32 \<times> 'a filst_scheme) outcome" where
  "sys_fstat cur s =
     obind (argfd cur 0 s) (\<lambda>r. case r of None \<Rightarrow> Ret (- 1, s) | Some (_, f) \<Rightarrow>
     with_ptr cur 1 20 s (\<lambda>p.
     obind (filestat cur f s) (\<lambda>(st, s).
     case st of
       None \<Rightarrow> Ret (- 1, s)
     | Some st \<Rightarrow> obind (ofold (\<lambda>(k, bs). ustores cur (p + k) bs) (stat_fields st) s) (\<lambda>s. Ret (0, s)))))"

section \<open>Links\<close>

text \<open>\<open>end_op(); return r;\<close>\<close>

definition finish_op :: "nat \<Rightarrow> 'r \<Rightarrow> 'a filst_scheme \<Rightarrow> ('r \<times> 'a filst_scheme) outcome" where
  "finish_op cur r s = obind (end_op cur s) (\<lambda>s. Ret (r, s))"

definition add_nlink :: "nat \<Rightarrow> nat \<Rightarrow> s16 \<Rightarrow> 'a fsst_scheme \<Rightarrow> 'a fsst_scheme outcome" where
  "add_nlink cur ip d s = iupdate cur ip (upd_inode ip (\<lambda>i. i\<lparr>i_nlink := i_nlink i + d\<rparr>) s)"

definition with_str :: "nat \<Rightarrow> s32 \<Rightarrow> 'a kst_scheme \<Rightarrow> (s32 \<times> 'a kst_scheme) outcome \<Rightarrow> (u8 list \<Rightarrow> (s32 \<times> 'a kst_scheme) outcome)
    \<Rightarrow> (s32 \<times> 'a kst_scheme) outcome" where
  "with_str cur n s bad k = obind (argstr cur n s) (\<lambda>r. case r of None \<Rightarrow> bad | Some str \<Rightarrow> k str)"

definition link_bad :: "nat \<Rightarrow> nat \<Rightarrow> 'a filst_scheme \<Rightarrow> (s32 \<times> 'a filst_scheme) outcome" where
  "link_bad cur ip s =
     obind (ilock cur (Some ip) s) (\<lambda>s.
     obind (add_nlink cur ip (- 1) s) (\<lambda>s.
     obind (iunlockput cur ip s) (finish_op cur (- 1))))"

definition sys_link :: "'a filst_scheme devops list \<Rightarrow> nat \<Rightarrow> 'a filst_scheme \<Rightarrow> (s32 \<times> 'a filst_scheme) outcome" where
  "sys_link devsw cur s =
     with_str cur 0 s (Ret (- 1, s)) (\<lambda>old. with_str cur 1 s (Ret (- 1, s)) (\<lambda>new.
     obind (begin_op s) (\<lambda>s.
     obind (namei devsw cur old s) (\<lambda>(r, s).
     case r of
       None \<Rightarrow> finish_op cur (- 1) s
     | Some ip \<Rightarrow>
         obind (ilock cur (Some ip) s) (\<lambda>s.
         if i_type (icache s ! ip) = T_DIR then obind (iunlockput cur ip s) (finish_op cur (- 1))
         else
           obind (add_nlink cur ip 1 s) (\<lambda>s.
           obind (iunlock cur (Some ip) s) (\<lambda>s.
           obind (nameiparent devsw cur new (replicate DIRSIZ 0) s) (\<lambda>(r, s).
           case r of
             None \<Rightarrow> link_bad cur ip s
           | Some (dp, name) \<Rightarrow>
               obind (ilock cur (Some dp) s) (\<lambda>s.
               obind (if i_dev (icache s ! dp) \<noteq> i_dev (icache s ! ip) then Ret (- 1, s)
                      else dirlink devsw cur dp name (i_inum (icache s ! ip)) s) (\<lambda>(d, s).
               obind (iunlockput cur dp s) (\<lambda>s.
               if sint d < 0 then link_bad cur ip s
               else obind (iput cur ip s) (finish_op cur 0))))))))))))"

fun isdirempty_loop :: "'a fsst_scheme devops list \<Rightarrow> nat \<Rightarrow> nat \<Rightarrow> u32 list \<Rightarrow> 'a fsst_scheme \<Rightarrow> (bool \<times> 'a fsst_scheme) outcome" where
  "isdirempty_loop devsw cur dp [] s = Ret (True, s)"
| "isdirempty_loop devsw cur dp (off # offs) s =
     obind (readi devsw cur dp off 16 s) (\<lambda>(r, de, s).
     if r \<noteq> 16 then Panic ''isdirempty: readi''
     else if de_inum de \<noteq> 0 then Ret (False, s)
     else isdirempty_loop devsw cur dp offs s)"

definition isdirempty :: "'a fsst_scheme devops list \<Rightarrow> nat \<Rightarrow> nat \<Rightarrow> 'a fsst_scheme \<Rightarrow> (bool \<times> 'a fsst_scheme) outcome" where
  "isdirempty devsw cur dp s = isdirempty_loop devsw cur dp (drop 2 (dir_offs (i_size (icache s ! dp)))) s"

definition unlink_bad :: "nat \<Rightarrow> nat \<Rightarrow> 'a filst_scheme \<Rightarrow> (s32 \<times> 'a filst_scheme) outcome" where
  "unlink_bad cur dp s = obind (iunlockput cur dp s) (finish_op cur (- 1))"

definition sys_unlink :: "'a filst_scheme devops list \<Rightarrow> nat \<Rightarrow> 'a filst_scheme \<Rightarrow> (s32 \<times> 'a filst_scheme) outcome" where
  "sys_unlink devsw cur s =
     with_str cur 0 s (Ret (- 1, s)) (\<lambda>path.
     obind (begin_op s) (\<lambda>s.
     obind (nameiparent devsw cur path (replicate DIRSIZ 0) s) (\<lambda>(r, s).
     case r of
       None \<Rightarrow> finish_op cur (- 1) s
     | Some (dp, name) \<Rightarrow>
         obind (ilock cur (Some dp) s) (\<lambda>s.
         if namecmp name [46] = 0 \<or> namecmp name [46, 46] = 0 then unlink_bad cur dp s
         else
           obind (dirlookup devsw cur dp name s) (\<lambda>(r, s).
           case r of
             None \<Rightarrow> unlink_bad cur dp s
           | Some (ip, off) \<Rightarrow>
               obind (ilock cur (Some ip) s) (\<lambda>s.
               if sint (i_nlink (icache s ! ip)) < 1 then Panic ''unlink: nlink < 1''
               else
                 obind (if i_type (icache s ! ip) = T_DIR then isdirempty devsw cur ip s else Ret (True, s)) (\<lambda>(ok, s).
                 if \<not> ok then obind (iunlockput cur ip s) (unlink_bad cur dp)
                 else
                   obind (writei devsw cur dp (replicate 16 0) off 16 s) (\<lambda>(w, s).
                   if w \<noteq> 16 then Panic ''unlink: writei''
                   else
                     obind (if i_type (icache s ! ip) = T_DIR then add_nlink cur dp (- 1) s else Ret s) (\<lambda>s.
                     obind (iunlockput cur dp s) (\<lambda>s.
                     obind (add_nlink cur ip (- 1) s) (\<lambda>s.
                     obind (iunlockput cur ip s) (finish_op cur 0))))))))))))"

section \<open>Creation and opening\<close>

definition create :: "'a fsst_scheme devops list \<Rightarrow> nat \<Rightarrow> u8 list \<Rightarrow> s16 \<Rightarrow> s16 \<Rightarrow> s16 \<Rightarrow> 'a fsst_scheme
    \<Rightarrow> (nat option \<times> 'a fsst_scheme) outcome" where
  "create devsw cur path ty major minor s =
     obind (nameiparent devsw cur path (replicate DIRSIZ 0) s) (\<lambda>(r, s).
     case r of
       None \<Rightarrow> Ret (None, s)
     | Some (dp, name) \<Rightarrow>
         obind (ilock cur (Some dp) s) (\<lambda>s.
         obind (dirlookup devsw cur dp name s) (\<lambda>(r, s).
         case r of
           Some (ip, _) \<Rightarrow>
             obind (iunlockput cur dp s) (\<lambda>s.
             obind (ilock cur (Some ip) s) (\<lambda>s.
             if ty = T_FILE \<and> i_type (icache s ! ip) = T_FILE then Ret (Some ip, s)
             else obind (iunlockput cur ip s) (\<lambda>s. Ret (None, s))))
         | None \<Rightarrow>
             obind (ialloc cur (i_dev (icache s ! dp)) ty s) (\<lambda>(ip, s).
             obind (ilock cur (Some ip) s) (\<lambda>s.
             obind (iupdate cur ip (upd_inode ip (\<lambda>i. i\<lparr>i_major := major, i_minor := minor, i_nlink := 1\<rparr>) s)) (\<lambda>s.
             obind (if ty = T_DIR then
                      obind (add_nlink cur dp 1 s) (\<lambda>s.
                      obind (dirlink devsw cur ip [46] (i_inum (icache s ! ip)) s) (\<lambda>(r, s).
                      if sint r < 0 then Panic ''create dots''
                      else
                        obind (dirlink devsw cur ip [46, 46] (i_inum (icache s ! dp)) s) (\<lambda>(r, s).
                        if sint r < 0 then Panic ''create dots'' else Ret s)))
                    else Ret s) (\<lambda>s.
             obind (dirlink devsw cur dp name (i_inum (icache s ! ip)) s) (\<lambda>(r, s).
             if sint r < 0 then Panic ''create: dirlink''
             else obind (iunlockput cur dp s) (\<lambda>s. Ret (Some ip, s))))))))))"

definition open_inode :: "'a fsst_scheme devops list \<Rightarrow> nat \<Rightarrow> u8 list \<Rightarrow> s32 \<Rightarrow> 'a fsst_scheme \<Rightarrow> (nat option \<times> 'a fsst_scheme) outcome" where
  "open_inode devsw cur path omode s =
     (if omode AND O_CREATE \<noteq> 0 then create devsw cur path T_FILE 0 0 s
      else
        obind (namei devsw cur path s) (\<lambda>(r, s).
        case r of
          None \<Rightarrow> Ret (None, s)
        | Some ip \<Rightarrow>
            obind (ilock cur (Some ip) s) (\<lambda>s.
            if i_type (icache s ! ip) = T_DIR \<and> omode \<noteq> O_RDONLY
            then obind (iunlockput cur ip s) (\<lambda>s. Ret (None, s))
            else Ret (Some ip, s))))"

definition sys_open :: "u32 \<Rightarrow> 'a filst_scheme devops list \<Rightarrow> nat \<Rightarrow> 'a filst_scheme \<Rightarrow> (s32 \<times> 'a filst_scheme) outcome" where
  "sys_open kend devsw cur s =
     with_str cur 0 s (Ret (- 1, s)) (\<lambda>path. with_int cur 1 s (\<lambda>omode.
     obind (begin_op s) (\<lambda>s.
     obind (open_inode devsw cur path omode s) (\<lambda>(r, s).
     case r of
       None \<Rightarrow> finish_op cur (- 1) s
     | Some ip \<Rightarrow>
         let (fo, s) = filealloc s;
             (fdo, s) = (case fo of None \<Rightarrow> (None, s) | Some f \<Rightarrow> fdalloc cur f s) in
         (case (fo, fdo) of
           (Some f, Some fd) \<Rightarrow>
             obind (iunlock cur (Some ip) s) (\<lambda>s.
             obind (end_op cur s) (\<lambda>s.
             Ret (of_nat fd, upd_file f (\<lambda>x. x\<lparr>f_type := FD_INODE, f_ip := ip, f_off := 0,
               f_readable := (omode AND O_WRONLY = 0),
               f_writable := (omode AND O_WRONLY \<noteq> 0 \<or> omode AND O_RDWR \<noteq> 0)\<rparr>) s)))
         | _ \<Rightarrow>
             obind (close_opt kend cur fo s) (\<lambda>s.
             obind (iunlockput cur ip s) (finish_op cur (- 1))))))))"

definition finish_create :: "nat \<Rightarrow> nat option \<times> 'a filst_scheme \<Rightarrow> (s32 \<times> 'a filst_scheme) outcome" where
  "finish_create cur rs =
     (case rs of
        (None, s) \<Rightarrow> finish_op cur (- 1) s
      | (Some ip, s) \<Rightarrow> obind (iunlockput cur ip s) (finish_op cur 0))"

definition sys_mkdir :: "'a filst_scheme devops list \<Rightarrow> nat \<Rightarrow> 'a filst_scheme \<Rightarrow> (s32 \<times> 'a filst_scheme) outcome" where
  "sys_mkdir devsw cur s =
     obind (begin_op s) (\<lambda>s.
     with_str cur 0 s (finish_op cur (- 1) s) (\<lambda>path.
     obind (create devsw cur path T_DIR 0 0 s) (finish_create cur)))"

definition sys_mknod :: "'a filst_scheme devops list \<Rightarrow> nat \<Rightarrow> 'a filst_scheme \<Rightarrow> (s32 \<times> 'a filst_scheme) outcome" where
  "sys_mknod devsw cur s =
     obind (begin_op s) (\<lambda>s.
     with_str cur 0 s (finish_op cur (- 1) s) (\<lambda>path.
     obind (argint cur 1 s) (\<lambda>major.
     obind (argint cur 2 s) (\<lambda>minor.
     case (major, minor) of
       (Some ma, Some mi) \<Rightarrow> obind (create devsw cur path T_DEV (ucast ma) (ucast mi) s) (finish_create cur)
     | _ \<Rightarrow> finish_op cur (- 1) s))))"

definition sys_chdir :: "'a filst_scheme devops list \<Rightarrow> nat \<Rightarrow> 'a filst_scheme \<Rightarrow> (s32 \<times> 'a filst_scheme) outcome" where
  "sys_chdir devsw cur s =
     obind (begin_op s) (\<lambda>s.
     with_str cur 0 s (finish_op cur (- 1) s) (\<lambda>path.
     obind (namei devsw cur path s) (\<lambda>(r, s).
     case r of
       None \<Rightarrow> finish_op cur (- 1) s
     | Some ip \<Rightarrow>
         obind (ilock cur (Some ip) s) (\<lambda>s.
         if i_type (icache s ! ip) \<noteq> T_DIR then obind (iunlockput cur ip s) (finish_op cur (- 1))
         else
           obind (iunlock cur (Some ip) s) (\<lambda>s.
           obind (case cwd (ptable s ! cur) of None \<Rightarrow> Fault | Some d \<Rightarrow> iput cur d s) (\<lambda>s.
           obind (end_op cur s) (\<lambda>s.
           Ret (0, upd_proc cur (\<lambda>p. p\<lparr>cwd := Some ip\<rparr>) s))))))))"

definition sys_pipe :: "u32 \<Rightarrow> nat \<Rightarrow> 'a filst_scheme \<Rightarrow> (s32 \<times> 'a filst_scheme) outcome" where
  "sys_pipe kend cur s =
     with_ptr cur 0 8 s (\<lambda>fd.
     obind (pipealloc kend cur s) (\<lambda>(r, s).
     case r of
       None \<Rightarrow> Ret (- 1, s)
     | Some (rfile, wfile) \<Rightarrow>
         let (fd0, s) = fdalloc cur rfile s;
             (fd1, s) = (case fd0 of None \<Rightarrow> (None, s) | Some _ \<Rightarrow> fdalloc cur wfile s) in
         (case (fd0, fd1) of
           (Some a, Some b) \<Rightarrow>
             obind (ustores cur fd (word_bytes (of_nat a)) s) (\<lambda>s.
             obind (ustores cur (fd + 4) (word_bytes (of_nat b)) s) (\<lambda>s. Ret (0, s)))
         | _ \<Rightarrow>
             let s = (case fd0 of None \<Rightarrow> s | Some a \<Rightarrow> upd_proc cur (\<lambda>p. p\<lparr>ofile := (ofile p)[a := None]\<rparr>) s) in
             obind (fileclose kend cur rfile s) (\<lambda>s.
             obind (fileclose kend cur wfile s) (\<lambda>s. Ret (- 1, s))))))"

end
