(* ===== verification/Counters.thy ===== *)
theory Counters
  imports Syscall
begin

unbundle bit_operations_syntax

text \<open>
  What the code of \<open>syscall.c\<close> guarantees. What \<open>argptr\<close>, \<open>fetchint\<close> and \<open>fetchstr\<close> accept lies in the process's memory, also at the
  edges of the address space. The linked list of counters refines a map from call numbers to counts, whatever happens
  between two calls that leaves its pages alone.
\<close>

section \<open>The counters\<close>

text \<open>The list as memory has it: the page, the call number and the count of each element.\<close>

fun hist_rep :: "mem \<Rightarrow> u32 \<Rightarrow> (u32 \<times> s32 \<times> s32) list \<Rightarrow> bool" where
  "hist_rep m a [] \<longleftrightarrow> a = 0"
| "hist_rep m a ((b, n, c) # xs) \<longleftrightarrow>
     a = b \<and> b \<noteq> 0 \<and> rd32 m b = n \<and> rd32 m (b + 4) = c \<and> hist_rep m (rd32 m (b + 8)) xs"

definition hist_ok :: "u32 \<Rightarrow> nat \<Rightarrow> (u32 \<times> s32 \<times> s32) list \<Rightarrow> u32 list \<Rightarrow> 'a kst_scheme \<Rightarrow> bool" where
  "hist_ok kend cur xs ps s \<longleftrightarrow> cur < length (ptable s) \<and> hist_rep (mem s) (syscallhistory (ptable s ! cur)) xs
     \<and> kmem_rep kend s ps \<and> distinct (map fst xs @ ps) \<and> (\<forall>b \<in> set (map fst xs). page_aligned b) \<and> distinct (map (fst \<circ> snd) xs)"

lemma field_unat:
  assumes "in_range (b + d) 4 x" and "d = 0 \<or> d = 4 \<or> d = 8"
  shows "\<exists>k < 4. unat (x - b) = unat d + k"
proof -
  define y where "y = x - (b + d)"
  have y: "unat y < 4" using assms(1) by (simp add: in_range_def word_less_nat_alt y_def)
  have d: "unat d \<le> 8" using assms(2) by auto
  have "x - b = y + d" by (simp add: y_def)
  then have "unat (x - b) = (unat y + unat d) mod 2 ^ LENGTH(32)" by (simp only: unat_word_ariths(1))
  also have "\<dots> = unat d + unat y" using y d by simp
  finally show ?thesis using y by blast
qed

lemma field_range:
  assumes "in_range (b + d) 4 x" and "d = 0 \<or> d = 4 \<or> d = 8"
  shows "in_range b 12 x" "in_range b PGSIZE x"
proof -
  have "unat (x - b) < 12" using field_unat [OF assms] assms(2) by auto
  then show "in_range b 12 x" "in_range b PGSIZE x" by (simp_all add: in_range_def word_less_nat_alt PGSIZE_def)
qed

lemma fields_apart:
  assumes "in_range (b + d) 4 x" and "in_range (b + e) 4 x" and "d = 0 \<or> d = 4 \<or> d = 8" and "e = 0 \<or> e = 4 \<or> e = 8"
  shows "d = e"
  using field_unat [OF assms(1,3)] field_unat [OF assms(2,4)] assms(3,4) by auto

lemma field_wr:
  assumes "d = 0 \<or> d = 4 \<or> d = 8" and "e = 0 \<or> e = 4 \<or> e = 8"
  shows "d \<noteq> e \<Longrightarrow> rd32 (wr32 m (b + d) v) (b + e) = rd32 m (b + e)"
    and "page_aligned a \<Longrightarrow> page_aligned b \<Longrightarrow> a \<noteq> b \<Longrightarrow> rd32 (wr32 m (b + d) v) (a + e) = rd32 m (a + e)"
proof -
  show "rd32 (wr32 m (b + d) v) (b + e) = rd32 m (b + e)" if "d \<noteq> e"
    using fields_apart [OF _ _ assms] that by (intro rd32_wr32_other) blast
  show "rd32 (wr32 m (b + d) v) (a + e) = rd32 m (a + e)" if "page_aligned a" "page_aligned b" "a \<noteq> b"
    using that field_range(2) assms pages_disjoint by (intro rd32_wr32_other) metis
qed

lemmas field_wr0 = field_wr [where d = 0, simplified] field_wr [where e = 0, simplified]

lemma hist_rep_wr:
  assumes "\<forall>b \<in> set (map fst xs). page_aligned b \<and> b \<noteq> p" and "page_aligned p" and "d = 0 \<or> d = 4 \<or> d = 8"
  shows "hist_rep (wr32 m (p + d) v) a xs = hist_rep m a xs"
  using assms(1)
proof (induction m a xs rule: hist_rep.induct)
  case (2 m a b n c xs)
  have b: "page_aligned b" "b \<noteq> p" using 2(2) by auto
  have "rd32 (wr32 m (p + d) v) (b + e) = rd32 m (b + e)" if "e = 0 \<or> e = 4 \<or> e = 8" for e
    by (rule field_wr(2) [OF assms(3) that b(1) assms(2) b(2)])
  from this [of 0] this [of 4] this [of 8] show ?case using 2 by simp
qed simp

lemma hist_find_end: "rd32 m (a + 8) = 0 \<or> rd32 m a = num \<Longrightarrow> hist_find m a num = Some a"
  by (subst hist_find.simps) auto

lemma hist_find_next: "rd32 m (a + 8) \<noteq> 0 \<Longrightarrow> rd32 m a \<noteq> num \<Longrightarrow> hist_find m a num = hist_find m (rd32 m (a + 8)) num"
  by (subst hist_find.simps) simp

text \<open>The search ends at the element with the number, or at the last one.\<close>

lemma hist_find_ok:
  assumes "hist_rep m a xs" and "xs \<noteq> []" and "distinct (map (fst \<circ> snd) xs)"
  shows "(\<exists>b c us vs. xs = us @ (b, num, c) # vs \<and> hist_find m a num = Some b)
    \<or> (num \<notin> set (map (fst \<circ> snd) xs) \<and> hist_find m a num = Some (fst (last xs)))"
  using assms
proof (induction xs arbitrary: a)
  case (Cons x xs)
  obtain b n c where x: "x = (b, n, c)" by (cases x) auto
  have m: "a = b" "rd32 m b = n" "hist_rep m (rd32 m (b + 8)) xs" using Cons.prems(1) x by simp_all
  show ?case
  proof (cases "n = num")
    case True
    have "hist_find m a num = Some b" using m True hist_find_end by simp
    then show ?thesis using x True by (intro disjI1 exI [of _ b] exI [of _ c] exI [of _ "[]"] exI [of _ xs]) simp
  next
    case False
    show ?thesis
    proof (cases xs)
      case Nil
      then have "hist_find m a num = Some b" using m hist_find_end [of m b] by simp
      then show ?thesis using Nil x False by simp
    next
      case (Cons y ys)
      then have "rd32 m (b + 8) \<noteq> 0" using m(3) by (cases y) simp
      then have f: "hist_find m a num = hist_find m (rd32 m (b + 8)) num" using hist_find_next m False by simp
      have IH: "(\<exists>b' c us vs. xs = us @ (b', num, c) # vs \<and> hist_find m (rd32 m (b + 8)) num = Some b')
        \<or> (num \<notin> set (map (fst \<circ> snd) xs) \<and> hist_find m (rd32 m (b + 8)) num = Some (fst (last xs)))"
        using Cons.IH [OF m(3)] Cons.prems(3) Cons by simp
      then show ?thesis
      proof
        assume "\<exists>b' c us vs. xs = us @ (b', num, c) # vs \<and> hist_find m (rd32 m (b + 8)) num = Some b'"
        then obtain b' c us vs where "xs = us @ (b', num, c) # vs" "hist_find m a num = Some b'" using f by auto
        then show ?thesis by (intro disjI1 exI [of _ b'] exI [of _ c] exI [of _ "x # us"] exI [of _ vs]) simp
      next
        assume "num \<notin> set (map (fst \<circ> snd) xs) \<and> hist_find m (rd32 m (b + 8)) num = Some (fst (last xs))"
        then show ?thesis using f False x Cons by simp
      qed
    qed
  qed
qed simp

lemma hist_bump:
  assumes "hist_rep m a (us @ (b, n, c) # vs)" and "distinct (map fst (us @ (b, n, c) # vs))"
    and "\<forall>p \<in> set (map fst (us @ (b, n, c) # vs)). page_aligned p"
  shows "rd32 m b = n \<and> rd32 m (b + 4) = c \<and> hist_rep (wr32 m (b + 4) v) a (us @ (b, n, v) # vs)"
  using assms
proof (induction us arbitrary: a)
  case Nil
  have w: "hist_rep (wr32 m (b + 4) v) x vs = hist_rep m x vs" for x
    by (rule hist_rep_wr) (use Nil.prems(2,3) in auto)
  have "rd32 (wr32 m (b + 4) v) b = rd32 m b" "rd32 (wr32 m (b + 4) v) (b + 8) = rd32 m (b + 8)"
    using field_wr(1) [of 4 0 m b v] field_wr(1) [of 4 8 m b v] by simp_all
  then show ?case using Nil.prems(1) w by simp
next
  case (Cons u us)
  obtain b' n' c' where u: "u = (b', n', c')" by (cases u) auto
  have ne: "page_aligned b'" "page_aligned b" "b' \<noteq> b" using Cons.prems(2,3) u by auto
  have "rd32 (wr32 m (b + 4) v) (b' + e) = rd32 m (b' + e)" if "e = 0 \<or> e = 4 \<or> e = 8" for e
    by (rule field_wr(2) [OF _ that ne]) simp
  note w = this [of 0] this [of 4] this [of 8]
  have "rd32 m b = n \<and> rd32 m (b + 4) = c \<and> hist_rep (wr32 m (b + 4) v) (rd32 m (b' + 8)) (us @ (b, n, v) # vs)"
    by (rule Cons.IH) (use Cons.prems u in auto)
  then show ?case using w Cons.prems(1) u by simp
qed

lemma hist_append:
  assumes "hist_rep m a xs" and "xs \<noteq> []" and "distinct (p # map fst xs)" and "\<forall>b \<in> set (p # map fst xs). page_aligned b"
    and p: "p \<noteq> 0" "rd32 m p = n" "rd32 m (p + 4) = c" "rd32 m (p + 8) = 0"
  shows "hist_rep (wr32 m (fst (last xs) + 8) p) a (xs @ [(p, n, c)])"
  using assms(1-4)
proof (induction xs arbitrary: a)
  case (Cons x xs)
  obtain b k v where x: "x = (b, k, v)" by (cases x) auto
  define l where "l = fst (last (x # xs))"
  have lin: "l \<in> set (map fst (x # xs))" unfolding l_def by (metis last_in_set list.distinct(1) list.set_map image_eqI)
  have al: "page_aligned l" "page_aligned b" "page_aligned p" "l \<noteq> p" using lin Cons.prems(3,4) x by auto
  have wp: "rd32 (wr32 m (l + 8) p) (p + e) = rd32 m (p + e)" if "e = 0 \<or> e = 4 \<or> e = 8" for e
    by (rule field_wr(2) [OF _ that al(3,1)]) (use al(4) in simp_all)
  show ?case
  proof (cases xs)
    case Nil
    then have lb: "l = b" using x by (simp add: l_def)
    have "rd32 (wr32 m (b + 8) p) b = rd32 m b" "rd32 (wr32 m (b + 8) p) (b + 4) = rd32 m (b + 4)"
      using field_wr(1) [of 8 0 m b p] field_wr(1) [of 8 4 m b p] by simp_all
    then show ?thesis using Nil Cons.prems(1) x p wp [of 0] wp [of 4] wp [of 8] lb by simp
  next
    case (Cons y ys)
    then have ll: "l = fst (last xs)" by (simp add: l_def)
    have "l \<in> set (map fst xs)" unfolding ll using Cons by (metis last_in_set list.distinct(1) list.set_map image_eqI)
    then have lb: "l \<noteq> b" using Cons.prems(3) x by auto
    have wb: "rd32 (wr32 m (l + 8) p) (b + e) = rd32 m (b + e)" if "e = 0 \<or> e = 4 \<or> e = 8" for e
      by (rule field_wr(2) [OF _ that al(2,1)]) (use lb in simp_all)
    have "hist_rep (wr32 m (l + 8) p) (rd32 m (b + 8)) (xs @ [(p, n, c)])"
      unfolding ll by (rule Cons.IH) (use Cons.prems x Cons in auto)
    then show ?thesis using Cons.prems(1) x wb [of 0] wb [of 4] wb [of 8] l_def by simp
  qed
qed simp

lemma kmem_rep_wr:
  assumes "kmem_rep kend s ps" and "page_aligned p" and "p \<notin> set ps" and "d = 0 \<or> d = 4 \<or> d = 8"
  shows "kmem_rep kend (s\<lparr>mem := wr32 (mem s) (p + d) v\<rparr>) ps"
proof -
  have "free_chain (wr32 (mem s) (p + d) v) f ps = free_chain (mem s) f ps" for f
  proof (rule free_chain_cong)
    fix a x
    assume a: "a \<in> set ps" "in_range a 4 x"
    then have "page_aligned a" "a \<noteq> p" using assms(1,3) by (auto simp: kmem_rep_def kfree_ok_def)
    then have "\<not> in_range (p + d) 4 x" using a(2) in_range_page field_range(2) [OF _ assms(4)] pages_disjoint assms(2) by metis
    then show "wr32 (mem s) (p + d) v x = mem s x" by (rule wr32_outside)
  qed
  then show ?thesis using assms(1) by (simp add: kmem_rep_def)
qed

lemma newcounter_ok:
  assumes k: "kmem_rep kend s (p # ps)" and xs: "\<forall>b \<in> set (map fst xs). page_aligned b \<and> b \<noteq> p" and h: "hist_rep (mem s) a xs"
  shows "\<exists>s'. newcounter num s = (p, s') \<and> kmem_rep kend s' ps \<and> kmem.more s' = kmem.more s \<and> hist_rep (mem s') a xs
    \<and> p \<noteq> 0 \<and> page_aligned p \<and> rd32 (mem s') p = num \<and> rd32 (mem s') (p + 4) = 1 \<and> rd32 (mem s') (p + 8) = 0"
proof -
  obtain s1 where 1: "kalloc s = (p, s1)" "kmem_rep kend s1 ps" "mem s1 = mem s" "kmem.more s1 = kmem.more s"
    using kmem_rep_kalloc [OF k] by blast
  have p: "page_aligned p" "p \<noteq> 0" "p \<notin> set ps" using k kfree_ok_nonzero by (auto simp: kmem_rep_def kfree_ok_def)
  define s' where "s' = s1\<lparr>mem := wr32 (wr32 (wr32 (mem s1) p num) (p + 4) 1) (p + 8) 0\<rparr>"
  have "kmem_rep kend (s1\<lparr>mem := wr32 (mem s1) (p + 0) num\<rparr>) ps" by (rule kmem_rep_wr [OF 1(2) p(1,3)]) simp
  from kmem_rep_wr [OF this p(1,3), of 4 1] have "kmem_rep kend (s1\<lparr>mem := wr32 (wr32 (mem s1) p num) (p + 4) 1\<rparr>) ps" by simp
  from kmem_rep_wr [OF this p(1,3), of 8 0] have kk: "kmem_rep kend s' ps" by (simp add: s'_def)
  have hh: "hist_rep (wr32 m (p + d) v) a xs = hist_rep m a xs" if "d = 0 \<or> d = 4 \<or> d = 8" for m d v
    by (rule hist_rep_wr [OF xs p(1) that])
  have "hist_rep (mem s') a xs" using h hh [of 0 "mem s1" num] by (simp add: s'_def hh 1(3))
  moreover have "rd32 (mem s') p = num" "rd32 (mem s') (p + 4) = 1" "rd32 (mem s') (p + 8) = 0"
    using field_wr(1) [of 8 0] field_wr(1) [of 4 0] field_wr(1) [of 8 4] by (simp_all add: s'_def)
  ultimately show ?thesis using 1 p kk by (auto simp: newcounter_def s'_def)
qed

text \<open>The count of a call.\<close>

definition hist_count :: "(u32 \<times> s32 \<times> s32) list \<Rightarrow> s32 \<Rightarrow> s32" where
  "hist_count xs num = (case map_of (map snd xs) num of None \<Rightarrow> 0 | Some c \<Rightarrow> c)"

lemma hist_count_split:
  assumes "distinct (map (fst \<circ> snd) (us @ (b, num, c) # vs))"
  shows "hist_count (us @ (b, num, c) # vs) k = (if k = num then c else hist_count (us @ vs) k)"
proof -
  have "num \<notin> fst ` set (map snd us)" using assms by force
  then have "map_of (map snd us) num = None" by (simp add: map_of_eq_None_iff)
  then show ?thesis by (auto simp: hist_count_def map_add_def split: option.splits)
qed

lemma update_ok:
  assumes h: "hist_ok kend cur xs ps s" and ps: "ps \<noteq> []"
  shows "\<exists>s' xs' ps'. updatesyscallhistory cur num s = Ret s' \<and> hist_ok kend cur xs' ps' s' \<and> xs' \<noteq> []
    \<and> hist_count xs' = (hist_count xs)(num := hist_count xs num + 1)"
proof -
  have H: "cur < length (ptable s)" "hist_rep (mem s) (syscallhistory (ptable s ! cur)) xs" "kmem_rep kend s ps"
    "distinct (map fst xs @ ps)" "\<forall>b \<in> set (map fst xs). page_aligned b" "distinct (map (fst \<circ> snd) xs)"
    using h by (simp_all add: hist_ok_def)
  let ?a = "syscallhistory (ptable s ! cur)"
  have dx: "distinct (map fst xs)" using H(4) by simp
  obtain p qs where pq: "ps = p # qs" using ps by (cases ps) auto
  have pn: "\<forall>b \<in> set (map fst xs). page_aligned b \<and> b \<noteq> p" using H(4,5) pq by auto
  obtain s1 where N: "newcounter num s = (p, s1)" "kmem_rep kend s1 qs" "kmem.more s1 = kmem.more s" "hist_rep (mem s1) ?a xs"
    "p \<noteq> 0" "page_aligned p" "rd32 (mem s1) p = num" "rd32 (mem s1) (p + 4) = 1" "rd32 (mem s1) (p + 8) = 0"
    using newcounter_ok [OF H(3) [unfolded pq] pn H(2)] by blast
  have pt: "ptable s1 = ptable s" using N(3) by (cases s; cases s1) simp
  show ?thesis
  proof (cases xs)
    case Nil
    define s' where "s' = upd_proc cur (\<lambda>x. x\<lparr>syscallhistory := p\<rparr>) s1"
    have "updatesyscallhistory cur num s = Ret s'" using H(2) Nil N(1) by (simp add: updatesyscallhistory_def s'_def)
    moreover have "hist_ok kend cur [(p, num, 1)] qs s'"
      using H(1,4) N pt pq Nil by (simp add: hist_ok_def s'_def upd_proc_def kmem_rep_def)
    moreover have "hist_count [(p, num, 1)] = (hist_count xs)(num := hist_count xs num + 1)" by (auto simp: hist_count_def Nil)
    ultimately show ?thesis by blast
  next
    case (Cons y ys)
    then have a0: "?a \<noteq> 0" using H(2) by (cases y) simp
    from hist_find_ok [OF H(2) _ H(6), of num] Cons
    consider (found) b c us vs where "xs = us @ (b, num, c) # vs" "hist_find (mem s) ?a num = Some b"
      | (last) "num \<notin> set (map (fst \<circ> snd) xs)" "hist_find (mem s) ?a num = Some (fst (last xs))" by blast
    then show ?thesis
    proof cases
      case found
      have B': "rd32 (mem s) b = num" "rd32 (mem s) (b + 4) = c" "hist_rep (wr32 (mem s) (b + 4) (c + 1)) ?a (us @ (b, num, c + 1) # vs)"
        using hist_bump [OF H(2) [unfolded found(1)] dx [unfolded found(1)] H(5) [unfolded found(1)], of "c + 1"] by blast+
      define s' where "s' = s\<lparr>mem := wr32 (mem s) (b + 4) (c + 1)\<rparr>"
      have "updatesyscallhistory cur num s = Ret s'" using a0 found(2) B' by (simp add: updatesyscallhistory_def s'_def)
      moreover have "kmem_rep kend s' ps" unfolding s'_def by (rule kmem_rep_wr [OF H(3)]) (use H(4,5) found(1) in auto)
      then have "hist_ok kend cur (us @ (b, num, c + 1) # vs) ps s'" using H B'(3) found(1) by (auto simp: hist_ok_def s'_def)
      moreover have "hist_count (us @ (b, num, c + 1) # vs) = (hist_count xs)(num := hist_count xs num + 1)"
        using hist_count_split [of us b num _ vs] H(6) found(1) by (auto simp: fun_eq_iff)
      ultimately show ?thesis by blast
    next
      case last
      define l where "l = fst (List.last xs)"
      have lin: "l \<in> set (map fst xs)" unfolding l_def using Cons by (metis last_in_set list.distinct(1) list.set_map image_eqI)
      have "rd32 (mem s) l \<noteq> num"
      proof -
        obtain us n c where e: "xs = us @ [(l, n, c)]" unfolding l_def using Cons by (metis append_butlast_last_id list.distinct(1) prod.collapse)
        then have "n \<noteq> num" using last(1) by auto
        then show ?thesis using hist_bump [OF H(2) [unfolded e] dx [unfolded e] H(5) [unfolded e]] by blast
      qed
      then have run: "updatesyscallhistory cur num s = Ret (s1\<lparr>mem := wr32 (mem s1) (l + 8) p\<rparr>)"
        using a0 last(2) N(1) by (simp add: updatesyscallhistory_def l_def)
      define s' where "s' = s1\<lparr>mem := wr32 (mem s1) (l + 8) p\<rparr>"
      have d: "xs \<noteq> []" "distinct (p # map fst xs)" "\<forall>b \<in> set (p # map fst xs). page_aligned b" using Cons H(4,5) N(6) pq by auto
      have "hist_rep (mem s') ?a (xs @ [(p, num, 1)])" using hist_append [OF N(4) d N(5,7-9)] by (simp add: s'_def l_def)
      moreover have "kmem_rep kend s' qs" unfolding s'_def by (rule kmem_rep_wr [OF N(2)]) (use H(4,5) lin pq in auto)
      ultimately have "hist_ok kend cur (xs @ [(p, num, 1)]) qs s'"
        using H(1,4-6) N(6) last(1) pq by (auto simp: hist_ok_def s'_def pt)
      moreover have "hist_count (xs @ [(p, num, 1)]) = (hist_count xs)(num := hist_count xs num + 1)"
      proof -
        have "map_of (map snd xs) num = None" using last(1) by (force simp: map_of_eq_None_iff)
        then show ?thesis by (auto simp: hist_count_def fun_eq_iff map_add_def split: option.splits)
      qed
      ultimately show ?thesis using run s'_def by blast
    qed
  qed
qed

lemma getsyscallcounter_ok:
  assumes h: "hist_ok kend cur xs ps s" and ne: "xs \<noteq> []"
  shows "getsyscallcounter cur num s = Ret (hist_count xs num)"
proof -
  have H: "hist_rep (mem s) (syscallhistory (ptable s ! cur)) xs" "distinct (map fst xs)"
    "\<forall>b \<in> set (map fst xs). page_aligned b" "distinct (map (fst \<circ> snd) xs)"
    using h by (simp_all add: hist_ok_def)
  let ?a = "syscallhistory (ptable s ! cur)"
  have a0: "?a \<noteq> 0" using H(1) ne by (cases xs) auto
  from hist_find_ok [OF H(1) ne H(4), of num]
  consider (found) b c us vs where "xs = us @ (b, num, c) # vs" "hist_find (mem s) ?a num = Some b"
    | (last) "num \<notin> set (map (fst \<circ> snd) xs)" "hist_find (mem s) ?a num = Some (fst (last xs))" by blast
  then show ?thesis
  proof cases
    case found
    have "rd32 (mem s) b = num" "rd32 (mem s) (b + 4) = c"
      using hist_bump [OF H(1) [unfolded found(1)] H(2) [unfolded found(1)] H(3) [unfolded found(1)]] by blast+
    then show ?thesis
      using a0 found hist_count_split [of us b num c vs num] H(4) by (simp add: getsyscallcounter_def)
  next
    case last
    obtain us l n c where e: "xs = us @ [(l, n, c)]" using ne by (metis append_butlast_last_id prod.collapse)
    then have "n \<noteq> num" using last(1) by auto
    then have "rd32 (mem s) l \<noteq> num" using hist_bump [OF H(1) [unfolded e] H(2) [unfolded e] H(3) [unfolded e]] by blast
    moreover have "map_of (map snd xs) num = None" using last(1) by (force simp: map_of_eq_None_iff)
    then have "hist_count xs num = 0" by (simp add: hist_count_def)
    ultimately show ?thesis using a0 last(2) e by (simp add: getsyscallcounter_def)
  qed
qed

text \<open>
  A process that makes system calls: between them anything may happen that leaves the pages of its list alone, and the allocator
  keeps its invariant. The list collects the numbers of the calls counted so far, the latest first.
\<close>

inductive count_run :: "u32 \<Rightarrow> nat \<Rightarrow> s32 list \<Rightarrow> 'a kst_scheme \<Rightarrow> bool" for kend cur where
  fresh: "cur < length (ptable s) \<Longrightarrow> syscallhistory (ptable s ! cur) = 0 \<Longrightarrow> kmem_rep kend s ps \<Longrightarrow> count_run kend cur [] s"
| call: "count_run kend cur ns s \<Longrightarrow> freelist s \<noteq> 0 \<Longrightarrow> updatesyscallhistory cur num s = Ret s' \<Longrightarrow> count_run kend cur (num # ns) s'"
| others: "count_run kend cur ns s \<Longrightarrow> cur < length (ptable s') \<Longrightarrow>
    syscallhistory (ptable s' ! cur) = syscallhistory (ptable s ! cur) \<Longrightarrow> kmem_rep kend s' ps' \<Longrightarrow>
    (\<And>xs b x. hist_rep (mem s) (syscallhistory (ptable s ! cur)) xs \<Longrightarrow> b \<in> set (map fst xs) \<Longrightarrow>
       b \<notin> set ps' \<and> (in_range b 12 x \<longrightarrow> mem s' x = mem s x)) \<Longrightarrow>
    count_run kend cur ns s'"

lemma hist_rep_cong:
  assumes "\<And>b x. b \<in> set (map fst xs) \<Longrightarrow> in_range b 12 x \<Longrightarrow> m' x = m x"
  shows "hist_rep m' a xs = hist_rep m a xs"
  using assms
proof (induction m a xs rule: hist_rep.induct)
  case (2 m a b n c xs)
  have "rd32 m' (b + e) = rd32 m (b + e)" if "e = 0 \<or> e = 4 \<or> e = 8" for e
    using 2(2) field_range(1) [OF _ that] by (intro rd32_cong) auto
  note e = this [of 0] this [of 4] this [of 8]
  have "hist_rep m' (rd32 m (b + 8)) xs = hist_rep m (rd32 m (b + 8)) xs" using 2(1) 2(2) by auto
  then show ?case using e by simp
qed simp

lemma count_run_inv:
  "count_run kend cur ns s \<Longrightarrow> \<exists>xs ps. hist_ok kend cur xs ps s \<and> (ns \<noteq> [] \<longrightarrow> xs \<noteq> []) \<and> hist_count xs = (\<lambda>n. of_nat (count_list ns n))"
proof (induction rule: count_run.induct)
  case (fresh s ps)
  then have "hist_ok kend cur [] ps s" by (auto simp: hist_ok_def kmem_rep_def)
  then show ?case by (intro exI [of _ "[]"] exI [of _ ps]) (auto simp: hist_count_def)
next
  case (call ns s num s')
  then obtain xs ps where I: "hist_ok kend cur xs ps s" "hist_count xs = (\<lambda>n. of_nat (count_list ns n))" by blast
  have "ps \<noteq> []" using I(1) call(2) by (cases ps) (auto simp: hist_ok_def kmem_rep_def)
  then obtain xs' ps' where "hist_ok kend cur xs' ps' s'" "xs' \<noteq> []" "hist_count xs' = (hist_count xs)(num := hist_count xs num + 1)"
    using update_ok [OF I(1), of num] call(3) by auto
  then show ?case using I(2) by (intro exI [of _ xs'] exI [of _ ps']) (auto simp: fun_eq_iff)
next
  case (others ns s s' ps')
  then obtain xs ps where I: "hist_ok kend cur xs ps s" "ns \<noteq> [] \<longrightarrow> xs \<noteq> []" "hist_count xs = (\<lambda>n. of_nat (count_list ns n))" by blast
  have r: "hist_rep (mem s) (syscallhistory (ptable s ! cur)) xs" using I(1) by (simp add: hist_ok_def)
  have "hist_rep (mem s') (syscallhistory (ptable s ! cur)) xs" using hist_rep_cong [of xs "mem s'" "mem s"] others(5) [OF r] r by blast
  then have "hist_ok kend cur xs ps' s'"
    using I(1) others(2-4) others(5) [OF r] by (auto simp: hist_ok_def kmem_rep_def)
  then show ?case using I(2,3) by blast
qed

text \<open>
  C34. The linked list of pages refines a map from call numbers to counts: whatever happens between the calls, as long as a page is free when
  a call is counted, counting a call always ends, and \<open>getsyscallcounter\<close> returns for every number how
  often it was called, modulo \<open>2^32\<close>.
\<close>

theorem syscall_counters:
  assumes "count_run kend cur ns s" and "ns \<noteq> []"
  shows "getsyscallcounter cur num s = Ret (of_nat (count_list ns num))
    \<and> (freelist s \<noteq> 0 \<longrightarrow> (\<exists>s'. updatesyscallhistory cur num s = Ret s'))"
proof -
  obtain xs ps where I: "hist_ok kend cur xs ps s" "xs \<noteq> []" "hist_count xs = (\<lambda>n. of_nat (count_list ns n))"
    using count_run_inv [OF assms(1)] assms(2) by blast
  have "ps \<noteq> []" if "freelist s \<noteq> 0" using I(1) that by (cases ps) (auto simp: hist_ok_def kmem_rep_def)
  then show ?thesis using getsyscallcounter_ok [OF I(1,2)] I(3) update_ok [OF I(1)] by fastforce
qed

text \<open>A machine with two free pages.\<close>

definition two_pages :: kst where
  "two_pages = kst0\<lparr>mem := wr32 (\<lambda>_. 0) 0x80100000 0x80200000, freelist := 0x80100000\<rparr>"

lemma two_pages_ok:
  "kmem_rep 0x80000000 two_pages [0x80100000, 0x80200000]" "0 < length (ptable two_pages)" "syscallhistory (ptable two_pages ! 0) = 0"
  "freelist two_pages \<noteq> 0"
proof -
  have z: "rd32 (wr32 (\<lambda>_. 0) 0x80100000 0x80200000) 0x80200000 = 0"
  proof -
    have "rd32 (wr32 (\<lambda>_. 0) 0x80100000 0x80200000) 0x80200000 = rd32 (\<lambda>_. 0) 0x80200000"
      by (rule rd32_wr32_other) (auto simp: in_range_def dest!: less4_cases)
    then show ?thesis by (simp add: rd32_def)
  qed
  show "kmem_rep 0x80000000 two_pages [0x80100000, 0x80200000]"
    using z by (simp add: kmem_rep_def two_pages_def kfree_ok_def page_aligned_def PGSIZE_def V2P_def KERNBASE_def PHYSTOP_def)
  show "0 < length (ptable two_pages)" "syscallhistory (ptable two_pages ! 0) = 0" "freelist two_pages \<noteq> 0"
    by (simp_all add: two_pages_def kst0_def proc0_def NPROC_def)
qed

theorem syscall_counters_witness:
  "\<exists>s. updatesyscallhistory 0 5 two_pages = Ret s \<and> getsyscallcounter 0 5 s = Ret 1 \<and> getsyscallcounter 0 7 s = Ret 0"
proof -
  have r: "count_run 0x80000000 0 [] two_pages" by (rule fresh [OF two_pages_ok(2,3,1)])
  obtain xs ps where "hist_ok 0x80000000 0 xs ps two_pages" using count_run_inv [OF r] by blast
  moreover from this have "ps \<noteq> []" using two_pages_ok(4) by (cases ps) (auto simp: hist_ok_def kmem_rep_def)
  ultimately obtain s where s: "updatesyscallhistory 0 5 two_pages = Ret s" using update_ok by blast
  have "count_run 0x80000000 0 [5] s" by (rule call [OF r two_pages_ok(4) s])
  from syscall_counters [OF this, of 5] syscall_counters [OF this, of 7] show ?thesis using s by simp
qed

section \<open>Arguments\<close>

lemma fetchstr_loop_ok:
  "fetchstr_loop cur a n s = Ret (Some str) \<Longrightarrow> length str < n \<and> 0 \<notin> set str \<and> uloads cur a (Suc (length str)) s = Ret (str @ [0])"
proof (induction cur a n s arbitrary: str rule: fetchstr_loop.induct)
  case (2 cur a n s)
  obtain c where c: "uload cur a s = Ret c" using 2(2) by (cases "uload cur a s") auto
  show ?case
  proof (cases "c = 0")
    case False
    obtain r where r: "fetchstr_loop cur (a + 1) n s = Ret r" using 2(2) c False by (cases "fetchstr_loop cur (a + 1) n s") auto
    then obtain t where t: "r = Some t" "str = c # t" using 2(2) c False by auto
    show ?thesis using 2(1) [OF c False r [unfolded t(1)]] t(2) c False by simp
  qed (use 2(2) c in simp)
qed simp

lemma nonneg_unat: "0 \<le> sint (k :: s32) \<Longrightarrow> unat k < 0x80000000"
  using unat_nonneg [of k] sint_lt [of k] by simp

lemma below_2G: "unat (sz :: u32) \<le> 0x80000000 \<Longrightarrow> a < sz \<Longrightarrow> unat d < 0x80000000 \<Longrightarrow> unat (a + d) = unat a + unat d"
  by (simp add: unat_word_ariths(1) word_less_nat_alt)

text \<open>
  C35. What the kernel accepts from a process lies in the process's memory: for a process whose size is at most \<open>KERNBASE\<close>, an
  integer that \<open>fetchint\<close> reads, a block that \<open>argptr\<close> accepts and a string that \<open>fetchstr\<close> accepts, with its
  terminating zero, end at or below the size, with no wrap-around of the 32-bit sums; and the string is the memory up to its first zero byte.
\<close>

theorem syscall_arguments_in_memory:
  assumes sz: "unat (psz (ptable s ! cur)) \<le> 0x80000000"
  shows "(fetchint cur a s = Ret (Some v) \<longrightarrow> unat a + 4 \<le> unat (psz (ptable s ! cur)) \<and> uload32 cur a s = Ret v)
    \<and> (argptr cur n k s = Ret (Some p) \<longrightarrow> 0 \<le> sint k \<and> unat p + unat k \<le> unat (psz (ptable s ! cur)))
    \<and> (fetchstr cur a s = Ret (Some str) \<longrightarrow> unat a + length str < unat (psz (ptable s ! cur)) \<and> 0 \<notin> set str
         \<and> uloads cur a (Suc (length str)) s = Ret (str @ [0]))"
proof (intro conjI impI)
  let ?z = "psz (ptable s ! cur)"
  assume f: "fetchint cur a s = Ret (Some v)"
  then have "a < ?z" "a + 4 \<le> ?z" by (auto simp: fetchint_def Let_def split: if_splits)
  then show "unat a + 4 \<le> unat ?z" using below_2G [OF sz, of a 4] by (simp add: word_le_nat_alt)
  show "uload32 cur a s = Ret v" using f by (cases "uload32 cur a s") (auto simp: fetchint_def Let_def split: if_splits)
next
  let ?z = "psz (ptable s ! cur)"
  assume "argptr cur n k s = Ret (Some p)"
  then obtain i where "0 \<le> sint k" "p < ?z" "p + k \<le> ?z"
    by (cases "argint cur n s") (auto simp: argptr_def Let_def not_le not_less split: option.splits if_splits)
  moreover from this(1) have "unat k < 0x80000000" by (rule nonneg_unat)
  ultimately show "0 \<le> sint k" "unat p + unat k \<le> unat ?z" using below_2G [OF sz, of p k] by (simp_all add: word_le_nat_alt)
next
  let ?z = "psz (ptable s ! cur)"
  assume "fetchstr cur a s = Ret (Some str)"
  then have l: "a < ?z" "fetchstr_loop cur a (unat (?z - a)) s = Ret (Some str)" by (auto simp: fetchstr_def Let_def not_le split: if_splits)
  then have "unat (?z - a) = unat ?z - unat a" by (simp add: unat_sub word_less_nat_alt word_le_nat_alt)
  then show "unat a + length str < unat ?z" "0 \<notin> set str" "uloads cur a (Suc (length str)) s = Ret (str @ [0])"
    using fetchstr_loop_ok [OF l(2)] by (linarith, blast, blast)
qed

text \<open>One page of user memory, with the argument 16 on the stack and the string \<open>A\<close> at 16.\<close>

definition user_page :: kst where
  "user_page = kst0\<lparr>mem := (\<lambda>_. 0)(0x80100000 := 1, 0x80100002 := 0x20, 0x80200000 := 1, 0x80200002 := 0x30, 0x80300004 := 16, 0x80300010 := 65),
     ptable := [proc0\<lparr>psz := 4096, pgdir := 0x80100000\<rparr>]\<rparr>"

lemma user_page_runs: "argptr 0 0 8 user_page = Ret (Some 16)" "fetchstr 0 16 user_page = Ret (Some [65])"
  by (code_simp)+

theorem syscall_arguments_in_memory_witness:
  "fetchint 0 4 user_page = Ret (Some 16) \<and> argptr 0 0 8 user_page = Ret (Some 16) \<and> unat (16 :: u32) + unat (8 :: u32) \<le> unat (psz (ptable user_page ! 0))
    \<and> fetchstr 0 16 user_page = Ret (Some [65]) \<and> uloads 0 16 2 user_page = Ret [65, 0]"
proof -
  have z: "unat (psz (ptable user_page ! 0)) \<le> 0x80000000" by (simp add: user_page_def)
  have "fetchint 0 4 user_page = Ret (Some 16)" by code_simp
  then show ?thesis
    using syscall_arguments_in_memory [OF z, of 16 16 0 8 16 "[65]"] user_page_runs by (simp add: numeral_2_eq_2)
qed

end
