(* ===== verification/Ulib.thy ===== *)
theory Ulib
  imports Strings Bytes
begin

unbundle bit_operations_syntax

text \<open>
  The user library: \<open>ulib.c\<close> and \<open>printf.c\<close>. The routines on strings read and write byte-addressed memory, as
  the kernel's do; a loop that only ends at a terminating byte is a partial function. What \<open>printf\<close> writes
  to its file descriptor is the list of the bytes, in order; a string argument is found by the
  parameter \<open>str\<close>, and taking more arguments than there are is \<open>Fault\<close>, as is a digit written beyond the
  16 bytes of \<open>printint\<close>'s buffer. System calls that the library makes are parameters.

  The lemmas show that \<open>printint\<close> never leaves its buffer and prints the number's numeral,
  and that \<open>atoi\<close> reads it back.
\<close>

section \<open>ulib.c\<close>

partial_function (option) ustrcpy :: "mem \<Rightarrow> u32 \<Rightarrow> u32 \<Rightarrow> mem option" where
  "ustrcpy m s t = (let m' = m(s := m t) in if m t \<noteq> 0 then ustrcpy m' (s + 1) (t + 1) else Some m')"

partial_function (option) ustrcmp :: "mem \<Rightarrow> u32 \<Rightarrow> u32 \<Rightarrow> s32 option" where
  "ustrcmp m p q = (if m p \<noteq> 0 \<and> m p = m q then ustrcmp m (p + 1) (q + 1) else Some (ucast (m p) - ucast (m q)))"

partial_function (option) ustrlen_loop :: "mem \<Rightarrow> u32 \<Rightarrow> s32 \<Rightarrow> u32 option" where
  "ustrlen_loop m s n = (if m (s + n) \<noteq> 0 then ustrlen_loop m s (n + 1) else Some n)"

definition ustrlen :: "mem \<Rightarrow> u32 \<Rightarrow> u32 option" where
  "ustrlen m s = ustrlen_loop m s 0"

definition umemset :: "mem \<Rightarrow> u32 \<Rightarrow> s32 \<Rightarrow> u32 \<Rightarrow> mem" where
  "umemset m dst c n = stosb m dst (ucast c) n"

partial_function (option) ustrchr :: "mem \<Rightarrow> u32 \<Rightarrow> u8 \<Rightarrow> u32 option" where
  "ustrchr m s c = (if m s = 0 then Some 0 else if m s = c then Some s else ustrchr m (s + 1) c)"

text \<open>\<open>gets\<close> reads one byte at a time; \<open>inp\<close> are the bytes that \<open>read(0, &c, 1)\<close> will deliver.\<close>

fun gets_loop :: "nat \<Rightarrow> u8 list \<Rightarrow> u8 list \<times> u8 list" where
  "gets_loop 0 inp = ([], inp)"
| "gets_loop (Suc k) [] = ([], [])"
| "gets_loop (Suc k) (c # inp) =
     (if c = 10 \<or> c = 13 then ([c], inp) else let (cs, inp) = gets_loop k inp in (c # cs, inp))"

definition gets :: "s32 \<Rightarrow> u8 list \<Rightarrow> u8 list \<times> u8 list" where
  "gets mx inp = (let (cs, inp) = gets_loop (nat (sint mx - 1)) inp in (cs @ [0], inp))"

definition ustat :: "('n \<Rightarrow> 's \<Rightarrow> s32 \<times> 's) \<Rightarrow> (s32 \<Rightarrow> 's \<Rightarrow> (s32 \<times> 'st) \<times> 's) \<Rightarrow> (s32 \<Rightarrow> 's \<Rightarrow> 's) \<Rightarrow> 'n \<Rightarrow> 's \<Rightarrow> (s32 \<times> 'st option) \<times> 's" where
  "ustat open_rd fstat close n s =
     (let (fd, s) = open_rd n s
      in if sint fd < 0 then ((- 1, None), s)
         else let ((r, st), s) = fstat fd s in ((r, Some st), close fd s))"

partial_function (option) atoi_loop :: "mem \<Rightarrow> u32 \<Rightarrow> s32 \<Rightarrow> s32 option" where
  "atoi_loop m s n = (if 48 \<le> m s \<and> m s \<le> 57 then atoi_loop m (s + 1) (n * 10 + ucast (m s) - 48) else Some n)"

definition atoi :: "mem \<Rightarrow> u32 \<Rightarrow> s32 option" where
  "atoi m s = atoi_loop m s 0"

definition umemmove :: "mem \<Rightarrow> u32 \<Rightarrow> u32 \<Rightarrow> s32 \<Rightarrow> mem" where
  "umemmove m dst src n = copy_forward m (nat (sint n)) dst src"

section \<open>printf.c\<close>

definition hexdigits :: "u8 list" where
  "hexdigits = [48, 49, 50, 51, 52, 53, 54, 55, 56, 57, 65, 66, 67, 68, 69, 70]"

text \<open>The \<open>do\<close> loop that fills \<open>buf\<close>, which has room for \<open>k\<close> more bytes.\<close>

fun printint_loop :: "u8 list \<Rightarrow> nat \<Rightarrow> u32 \<Rightarrow> u32 \<Rightarrow> u8 list outcome" where
  "printint_loop ds 0 x base = Fault"
| "printint_loop ds (Suc k) x base =
     (if base = 0 \<or> unat (x mod base) \<ge> length ds then Fault
      else if x div base \<noteq> 0 then obind (printint_loop ds k (x div base) base) (\<lambda>r. Ret (ds ! unat (x mod base) # r))
      else Ret [ds ! unat (x mod base)])"

definition printint :: "u8 list \<Rightarrow> s32 \<Rightarrow> u32 \<Rightarrow> bool \<Rightarrow> u8 list outcome" where
  "printint ds xx base signed_arg =
     (let neg = (signed_arg \<and> sint xx < 0);
          x = (if neg then - xx else xx)
      in obind (printint_loop ds 16 x base) (\<lambda>buf.
         if neg then (if length buf \<ge> 16 then Fault else Ret (rev (buf @ [45]))) else Ret (rev buf)))"

fun printf_loop :: "(u32 \<Rightarrow> u8 list) \<Rightarrow> bool \<Rightarrow> u8 list \<Rightarrow> u32 list \<Rightarrow> u8 list outcome" where
  "printf_loop str st [] ap = Ret []"
| "printf_loop str False (c # fmt) ap =
     (if c = 37 then printf_loop str True fmt ap
      else obind (printf_loop str False fmt ap) (\<lambda>r. Ret (c # r)))"
| "printf_loop str True (c # fmt) ap =
     (if c = 100 then
        (case ap of [] \<Rightarrow> Fault
         | a # ap \<Rightarrow> obind (printint hexdigits a 10 True) (\<lambda>o1. obind (printf_loop str False fmt ap) (\<lambda>r. Ret (o1 @ r))))
      else if c = 120 \<or> c = 112 then
        (case ap of [] \<Rightarrow> Fault
         | a # ap \<Rightarrow> obind (printint hexdigits a 16 False) (\<lambda>o1. obind (printf_loop str False fmt ap) (\<lambda>r. Ret (o1 @ r))))
      else if c = 115 then
        (case ap of [] \<Rightarrow> Fault
         | a # ap \<Rightarrow> obind (printf_loop str False fmt ap)
             (\<lambda>r. Ret ((if a = 0 then [40, 110, 117, 108, 108, 41] else str a) @ r)))
      else if c = 99 then
        (case ap of [] \<Rightarrow> Fault
         | a # ap \<Rightarrow> obind (printf_loop str False fmt ap) (\<lambda>r. Ret (ucast a # r)))
      else if c = 37 then obind (printf_loop str False fmt ap) (\<lambda>r. Ret (c # r))
      else obind (printf_loop str False fmt ap) (\<lambda>r. Ret (37 # c # r)))"

definition printf :: "(u32 \<Rightarrow> u8 list) \<Rightarrow> u8 list \<Rightarrow> u32 list \<Rightarrow> u8 list outcome" where
  "printf str fmt ap = printf_loop str False fmt ap"

section \<open>Numerals\<close>

text \<open>The digits of a number, the last one first, and the number they stand for.\<close>

function digs :: "nat \<Rightarrow> nat \<Rightarrow> nat list" where
  "digs b n = (if b < 2 \<or> n < b then [n] else n mod b # digs b (n div b))"
  by auto
termination by (relation "measure snd") auto

declare digs.simps [simp del]

lemma digs_less: "2 \<le> b \<Longrightarrow> v \<in> set (digs b n) \<Longrightarrow> v < b"
  by (induction b n rule: digs.induct) (subst (asm) (2) digs.simps, auto split: if_splits)

lemma digs_value: "2 \<le> b \<Longrightarrow> foldr (\<lambda>v a. a * b + v) (digs b n) 0 = n"
  by (induction b n rule: digs.induct) (subst digs.simps, auto)

lemma length_digs: "2 \<le> b \<Longrightarrow> n < b ^ Suc k \<Longrightarrow> length (digs b n) \<le> Suc k"
proof (induction k arbitrary: n)
  case 0
  then show ?case by (simp add: digs.simps)
next
  case (Suc k)
  have "n div b < b ^ Suc k" using Suc.prems by (simp add: less_mult_imp_div_less mult.commute)
  then show ?case using Suc.IH [of "n div b"] Suc.prems(1) by (subst digs.simps) simp
qed

lemma printint_loop_digs:
  assumes b: "2 \<le> unat base" "unat base \<le> length ds"
  shows "length (digs (unat base) (unat x)) \<le> k \<Longrightarrow>
    printint_loop ds k x base = Ret (map ((!) ds) (digs (unat base) (unat x)))"
proof (induction k arbitrary: x)
  case 0
  then show ?case by (subst (asm) digs.simps) (simp split: if_splits)
next
  case (Suc k)
  have b0: "base \<noteq> 0" using b(1) by auto
  have "unat x mod unat base < unat base" using b(1) by simp
  then have m: "unat (x mod base) < length ds" using b(2) by (simp add: unat_mod)
  show ?case
  proof (cases "x div base = 0")
    case True
    then have "unat x div unat base = 0" by (metis unat_div unat_0)
    then have lt: "unat x < unat base" using b(1) by (simp add: div_eq_0_iff)
    then have "digs (unat base) (unat x) = [unat x]" by (simp add: digs.simps)
    then show ?thesis using True b0 m lt by (simp add: unat_mod)
  next
    case False
    then have "unat x div unat base \<noteq> 0" by (metis unat_div unat_eq_zero)
    then have ge: "\<not> unat x < unat base" by auto
    then have d: "digs (unat base) (unat x) = unat x mod unat base # digs (unat base) (unat x div unat base)"
      using b(1) by (subst digs.simps) simp
    then have "printint_loop ds k (x div base) base = Ret (map ((!) ds) (digs (unat base) (unat (x div base))))"
      using Suc by (simp add: unat_div)
    then show ?thesis using False b0 m d by (simp add: unat_mod unat_div)
  qed
qed

lemma printint_loop_10_16:
  assumes "base = 10 \<or> base = 16"
  shows "printint_loop hexdigits 16 x base = Ret (map ((!) hexdigits) (digs (unat base) (unat x)))"
    and "length (digs (unat base) (unat x)) \<le> 10"
proof -
  have "unat x < 2 ^ 32" using unsigned_less [of x] by simp
  then have "unat x < 10 ^ Suc 9" "unat x < 16 ^ Suc 9" by simp_all
  then show l: "length (digs (unat base) (unat x)) \<le> 10"
    using assms length_digs [of 10 "unat x" 9] length_digs [of 16 "unat x" 9] by auto
  show "printint_loop hexdigits 16 x base = Ret (map ((!) hexdigits) (digs (unat base) (unat x)))"
    by (rule printint_loop_digs) (use assms l in \<open>auto simp: hexdigits_def\<close>)
qed

lemma printint_eq:
  assumes "base = 10 \<or> base = 16"
  shows "printint hexdigits xx base sg =
    Ret ((if sg \<and> sint xx < 0 then [45] else []) @
      rev (map ((!) hexdigits) (digs (unat base) (unat (if sg \<and> sint xx < 0 then - xx else xx)))))"
  using printint_loop_10_16 [OF assms, of "- xx"] printint_loop_10_16 [OF assms, of xx]
  by (simp add: printint_def Let_def)

lemma hexdigit_dec: "v < 10 \<Longrightarrow> hexdigits ! v = of_nat (48 + v)"
proof -
  assume "v < 10"
  then have "v \<in> {0, 1, 2, 3, 4, 5, 6, 7, 8, 9}" by auto
  then show ?thesis by (auto simp: hexdigits_def)
qed

section \<open>Reading back\<close>

lemma atoi_step: "atoi_loop m s n = (if 48 \<le> m s \<and> m s \<le> 57 then atoi_loop m (s + 1) (n * 10 + ucast (m s) - 48) else Some n)"
  by (rule atoi_loop.simps)

lemma digit_byte:
  assumes "v < 10"
  shows "48 \<le> (of_nat (48 + v) :: u8)" "(of_nat (48 + v) :: u8) \<le> 57" "(ucast (of_nat (48 + v) :: u8) :: u32) = of_nat (48 + v)"
proof -
  from assms have "v \<in> {0, 1, 2, 3, 4, 5, 6, 7, 8, 9}" by auto
  then show "48 \<le> (of_nat (48 + v) :: u8)" "(of_nat (48 + v) :: u8) \<le> 57" "(ucast (of_nat (48 + v) :: u8) :: u32) = of_nat (48 + v)"
    by auto
qed

lemma atoi_digits:
  assumes "cstring_at m s (map (\<lambda>v. of_nat (48 + v)) vs)" and "\<forall>v \<in> set vs. v < 10"
  shows "atoi_loop m s n = Some (foldl (\<lambda>a v. a * 10 + of_nat v) n vs)"
  using assms
proof (induction vs arbitrary: s n)
  case Nil
  then show ?case by (subst atoi_step) simp
next
  case (Cons v vs)
  have v: "v < 10" and m: "m s = of_nat (48 + v)" using Cons.prems by simp_all
  have e: "n * 10 + ucast (m s) - 48 = n * 10 + of_nat v" unfolding m digit_byte(3) [OF v] by simp
  have "48 \<le> m s \<and> m s \<le> 57" unfolding m using digit_byte(1,2) [OF v] by blast
  then have "atoi_loop m s n = atoi_loop m (s + 1) (n * 10 + of_nat v)" by (subst atoi_step) (simp only: e simp_thms if_True)
  then show ?case using Cons.IH [of "s + 1"] Cons.prems by simp
qed

lemma foldl_of_nat: "foldl (\<lambda>a v. a * 10 + of_nat v) (of_nat n) vs = (of_nat (foldl (\<lambda>a v. a * 10 + v) n vs) :: u32)"
proof (induction vs arbitrary: n)
  case (Cons v vs)
  from Cons.IH [of "n * 10 + v"] show ?case by simp
qed simp

lemma atoi_numeral:
  assumes "cstring_at m s (rev (map ((!) hexdigits) (digs 10 (unat x))))"
  shows "atoi m s = Some x"
proof -
  let ?vs = "rev (digs 10 (unat x))"
  have lt: "\<forall>v \<in> set ?vs. v < 10" using digs_less [of 10] by auto
  then have "map ((!) hexdigits) ?vs = map (\<lambda>v. of_nat (48 + v)) ?vs" by (simp add: hexdigit_dec)
  then have "cstring_at m s (map (\<lambda>v. of_nat (48 + v)) ?vs)" using assms by (simp only: rev_map)
  from atoi_digits [OF this lt, of 0]
  have "atoi m s = Some (foldl (\<lambda>a v. a * 10 + of_nat v) (of_nat 0) ?vs)" by (simp add: atoi_def)
  also have "foldl (\<lambda>a v. a * 10 + of_nat v) (of_nat 0) ?vs = (of_nat (foldl (\<lambda>a v. a * 10 + v) 0 ?vs) :: u32)"
    by (rule foldl_of_nat)
  also have "foldl (\<lambda>a v. a * 10 + v) 0 ?vs = unat x"
    using digs_value [of 10 "unat x"] by (simp add: foldl_conv_foldr)
  also have "of_nat (unat x) = x" by simp
  finally show ?thesis .
qed

text \<open>
  C19. \<open>printf\<close>'s \<open>%d\<close> and \<open>atoi\<close> are inverse: for every \<open>int\<close>, \<open>printint\<close> in base 10 prints a minus sign exactly when the
  number is negative, followed by a numeral of at most ten digits which \<open>atoi\<close>, run on memory that holds it,
  reads as the absolute value, computed modulo \<open>2^32\<close>, so also for the least \<open>int\<close>.
\<close>

theorem atoi_printint:
  "\<exists>ds. printint hexdigits xx 10 True = Ret ((if sint xx < 0 then [45] else []) @ ds) \<and> length ds \<le> 10
     \<and> (\<forall>m s. cstring_at m s ds \<longrightarrow> atoi m s = Some (if sint xx < 0 then - xx else xx))"
  using printint_eq [of 10 xx True] printint_loop_10_16(2) [of 10 "if sint xx < 0 then - xx else xx"] atoi_numeral
  by auto

theorem atoi_printint_witness:
  "printint hexdigits 42 10 True = Ret [52, 50] \<and> atoi ((\<lambda>_. 0)(100 := 52, 101 := 50)) 100 = Some 42"
proof -
  have p: "printint hexdigits 42 10 True = Ret [52, 50]"
    using printint_eq [of 10 42 True] by (simp add: digs.simps hexdigits_def)
  have "cstring_at ((\<lambda>_. 0)(100 := 52, 101 := 50)) 100 [52, 50]" by simp
  with atoi_printint [of 42] p show ?thesis by auto
qed

end
