(* ===== verification/Console.thy ===== *)
theory Console
  imports Inode Pipe Ulib
begin

unbundle bit_operations_syntax

text \<open>
  \<open>console.c\<close>: the screen (\<open>cgaputc\<close> with the cursor kept in the ports of the video controller, \<open>consputc\<close> with the
  serial line), formatted output (\<open>cprintf\<close>), and the line discipline (\<open>consoleintr\<close>, \<open>consoleread\<close>) on the ring \<open>input\<close>.
  \<open>getc\<close> is the list of the characters it returns before it returns a negative number; \<open>consoleread\<close> returns \<open>PSleep\<close>
  where it goes to sleep, and \<open>consoleread_go\<close> on what is left is its continuation.

  The lemmas show that the cursor never leaves the screen, and that the ring with its three indices, which wrap around
  at \<open>2^32\<close>, implements a line editor: a queue of finished input and a line being edited.
\<close>

section \<open>The screen\<close>

definition BACKSPACE :: u32 where "BACKSPACE = 256"

record screen =
  crt :: "u16 list"
  crtpos :: u16
  uart :: "u8 list"

text \<open>\<open>memmove\<close> and \<open>memset\<close> on the \<open>25 * 80\<close> words of the display; a store beside them is an undefined access.\<close>

definition scroll :: "u16 list \<Rightarrow> nat \<Rightarrow> u16 list" where
  "scroll d pos = take pos (take (23 * 80) (drop 80 d) @ drop (23 * 80) d) @ replicate (24 * 80 - pos) 0
     @ drop (pos + (24 * 80 - pos)) (take (23 * 80) (drop 80 d) @ drop (23 * 80) d)"

definition cgaputc :: "u32 \<Rightarrow> screen \<Rightarrow> screen outcome" where
  "cgaputc c s =
     (let pos = unat (crtpos s);
          (d, pos, bad) =
            (if c = 10 then (crt s, pos + (80 - pos mod 80), False)
             else if c = BACKSPACE then (crt s, if pos > 0 then pos - 1 else pos, False)
             else ((crt s)[pos := ucast (c AND 255) OR 0x0700], pos + 1, pos \<ge> length (crt s))) in
      if bad then Fault
      else if pos > 25 * 80 then Panic ''pos under/overflow''
      else
        let (d, pos) = (if pos div 80 \<ge> 24 then (scroll d (pos - 80), pos - 80) else (d, pos)) in
        if pos \<ge> length d then Fault
        else Ret (s\<lparr>crt := d[pos := 32 OR 0x0700], crtpos := of_nat pos\<rparr>))"

definition consputc :: "u32 \<Rightarrow> screen \<Rightarrow> screen outcome" where
  "consputc c s =
     cgaputc c (s\<lparr>uart := uart s @ (if c = BACKSPACE then [8, 32, 8] else [ucast c])\<rparr>)"

definition consputs :: "u32 list \<Rightarrow> screen \<Rightarrow> screen outcome" where
  "consputs cs s = ofold consputc cs s"

text \<open>
  \<open>cprintf\<close>: the characters passed to \<open>consputc\<close>. The digit buffer of its \<open>printint\<close> and the loop on it are those of the user
  library's; \<open>%c\<close> is not a directive here, and \<open>str\<close> gives the string at an address.
\<close>

definition digits :: "u8 list" where
  "digits = [48, 49, 50, 51, 52, 53, 54, 55, 56, 57, 97, 98, 99, 100, 101, 102]"

fun cprintf_loop :: "(u32 \<Rightarrow> u8 list) \<Rightarrow> u8 list \<Rightarrow> u32 list \<Rightarrow> u8 list outcome" where
  "cprintf_loop str [] ap = Ret []"
| "cprintf_loop str [c] ap = (if c = 37 then Ret [] else Ret [c])"
| "cprintf_loop str (c # k # fmt) ap =
     (if c \<noteq> 37 then obind (cprintf_loop str (k # fmt) ap) (\<lambda>r. Ret (c # r))
      else if k = 100 then
        (case ap of [] \<Rightarrow> Fault
         | a # ap \<Rightarrow> obind (printint digits a 10 True) (\<lambda>o1. obind (cprintf_loop str fmt ap) (\<lambda>r. Ret (o1 @ r))))
      else if k = 120 \<or> k = 112 then
        (case ap of [] \<Rightarrow> Fault
         | a # ap \<Rightarrow> obind (printint digits a 16 False) (\<lambda>o1. obind (cprintf_loop str fmt ap) (\<lambda>r. Ret (o1 @ r))))
      else if k = 115 then
        (case ap of [] \<Rightarrow> Fault
         | a # ap \<Rightarrow> obind (cprintf_loop str fmt ap) (\<lambda>r. Ret ((if a = 0 then [40, 110, 117, 108, 108, 41] else str a) @ r)))
      else if k = 37 then obind (cprintf_loop str fmt ap) (\<lambda>r. Ret (37 # r))
      else obind (cprintf_loop str fmt ap) (\<lambda>r. Ret (37 # k # r)))"

definition cprintf :: "(u32 \<Rightarrow> u8 list) \<Rightarrow> u8 list \<Rightarrow> u32 list \<Rightarrow> screen \<Rightarrow> screen outcome" where
  "cprintf str fmt ap s = obind (cprintf_loop str fmt ap) (\<lambda>cs. consputs (map ucast cs) s)"

text \<open>A cursor within the first 24 lines, or at the start of the last, stays there.\<close>

definition screen_ok :: "screen \<Rightarrow> bool" where
  "screen_ok s \<longleftrightarrow> length (crt s) = 25 * 80 \<and> unat (crtpos s) \<le> 24 * 80"

lemma length_scroll: "length d = 25 * 80 \<Longrightarrow> pos \<le> 24 * 80 \<Longrightarrow> length (scroll d pos) = 25 * 80"
  by (simp add: scroll_def)

lemma cgaputc_ok:
  assumes "screen_ok s"
  shows "\<exists>s'. cgaputc c s = Ret s' \<and> screen_ok s' \<and> uart s' = uart s"
proof -
  define p where "p = unat (crtpos s)"
  have p: "p \<le> 1920" "length (crt s) = 2000" using assms by (simp_all add: screen_ok_def p_def)
  define d where "d = (if c = 10 \<or> c = BACKSPACE then crt s else (crt s)[p := ucast (c AND 255) OR 0x0700])"
  define q where "q = (if c = 10 then p + (80 - p mod 80) else if c = BACKSPACE then (if p > 0 then p - 1 else p) else p + 1)"
  have "p div 80 \<le> 24" using div_le_mono [OF p(1), of 80] by simp
  moreover have "p mod 80 < 80" "p = 80 * (p div 80) + p mod 80" by simp_all
  ultimately have "p + (80 - p mod 80) \<le> 2000" by linarith
  then have q: "q \<le> 2000" using p(1) by (auto simp: q_def)
  define r where "r = (if q div 80 \<ge> 24 then q - 80 else q)"
  define e where "e = (if q div 80 \<ge> 24 then scroll d (q - 80) else d)"
  have r: "r \<le> 1920" using q by (auto simp: r_def)
  have le: "length d = 2000" "length e = 2000" using length_scroll [of d "q - 80"] p q by (simp_all add: d_def e_def)
  have t: "(if c = 10 then (crt s, p + (80 - p mod 80), False) else if c = BACKSPACE then (crt s, if p > 0 then p - 1 else p, False)
      else ((crt s)[p := ucast (c AND 255) OR 0x0700], p + 1, p \<ge> length (crt s))) = (d, q, False)"
    unfolding d_def q_def using p by (simp add: BACKSPACE_def)
  have u: "(if q div 80 \<ge> 24 then (scroll d (q - 80), q - 80) else (d, q)) = (e, r)" unfolding e_def r_def by simp
  have run: "cgaputc c s = Ret (s\<lparr>crt := e[r := 32 OR 0x0700], crtpos := of_nat r\<rparr>)"
    unfolding cgaputc_def p_def [symmetric] Let_def t prod.case u using q r le by (simp only: if_False) simp
  have "unat (of_nat r :: u16) = r" using r by (simp add: unsigned_of_nat take_bit_nat_eq_self)
  then show ?thesis using r le(2) run by (simp add: screen_ok_def)
qed

lemma consputs_ok: "screen_ok s \<Longrightarrow> \<exists>s'. consputs cs s = Ret s' \<and> screen_ok s'"
proof (induction cs arbitrary: s)
  case (Cons c cs)
  have "screen_ok (s\<lparr>uart := uart s @ (if c = BACKSPACE then [8, 32, 8] else [ucast c])\<rparr>)" using Cons.prems by (simp add: screen_ok_def)
  then obtain s1 where "consputc c s = Ret s1" "screen_ok s1" using cgaputc_ok unfolding consputc_def by blast
  then show ?case using Cons.IH [of s1] by (simp add: consputs_def)
qed (simp add: consputs_def)

section \<open>The line discipline\<close>

definition INPUT_BUF :: nat where "INPUT_BUF = 128"

record inputbuf =
  in_buf :: "u8 list"
  in_r :: u32
  in_w :: u32
  in_e :: u32

text \<open>The loop of control-U, with the number of characters it rubs out.\<close>

function kill_line :: "inputbuf \<Rightarrow> inputbuf \<times> nat" where
  "kill_line i =
     (if in_e i \<noteq> in_w i \<and> in_buf i ! (unat (in_e i - 1) mod INPUT_BUF) \<noteq> 10
      then let (j, n) = kill_line (i\<lparr>in_e := in_e i - 1\<rparr>) in (j, Suc n)
      else (i, 0))"
  by pat_completeness auto
termination
proof (relation "measure (\<lambda>i. unat (in_e i - in_w i))", simp)
  fix i :: inputbuf
  assume "in_e i \<noteq> in_w i \<and> in_buf i ! (unat (in_e i - 1) mod INPUT_BUF) \<noteq> 10"
  then have "in_e i - in_w i \<noteq> 0" by simp
  then have "unat (in_e i - in_w i - 1) < unat (in_e i - in_w i)" by (simp add: unat_minus_one unat_gt_0)
  then show "(i\<lparr>in_e := in_e i - 1\<rparr>, i) \<in> measure (\<lambda>i. unat (in_e i - in_w i))" by (simp add: algebra_simps)
qed

declare kill_line.simps [simp del]

text \<open>One character: the new buffer, what is echoed, and whether the readers are woken.\<close>

definition cons_char :: "u8 \<Rightarrow> inputbuf \<Rightarrow> inputbuf \<times> u32 list \<times> bool" where
  "cons_char c i =
     (if c = 16 then (i, [], False)
      else if c = 21 then let (i, n) = kill_line i in (i, replicate n BACKSPACE, False)
      else if c = 8 \<or> c = 127 then
        (if in_e i \<noteq> in_w i then (i\<lparr>in_e := in_e i - 1\<rparr>, [BACKSPACE], False) else (i, [], False))
      else if c \<noteq> 0 \<and> in_e i - in_r i < of_nat INPUT_BUF then
        let c = (if c = 13 then 10 else c);
            i = i\<lparr>in_buf := (in_buf i)[unat (in_e i) mod INPUT_BUF := c], in_e := in_e i + 1\<rparr> in
        if c = 10 \<or> c = 4 \<or> in_e i = in_r i + of_nat INPUT_BUF then (i\<lparr>in_w := in_e i\<rparr>, [ucast c], True)
        else (i, [ucast c], False)
      else (i, [], False))"

text \<open>The last component tells whether the process listing is to be printed.\<close>

fun consoleintr :: "u8 list \<Rightarrow> inputbuf \<Rightarrow> screen \<Rightarrow> 'a kst_scheme \<Rightarrow> (inputbuf \<times> screen \<times> 'a kst_scheme \<times> bool) outcome" where
  "consoleintr [] i scr s = Ret (i, scr, s, False)"
| "consoleintr (c # cs) i scr s =
     (let (i, echo, wake) = cons_char c i in
      obind (consputs echo scr) (\<lambda>scr.
      obind (consoleintr cs i scr (if wake then wakeup ChanInput s else s)) (\<lambda>(i, scr, s, dump).
      Ret (i, scr, s, dump \<or> c = 16))))"

text \<open>
  The loop of \<open>consoleread\<close> with \<open>n\<close> bytes still wanted of \<open>target\<close>: the bytes copied, the bytes still wanted,
  the buffer, and whether it stops because there is no input.
\<close>

fun consoleread_loop :: "nat \<Rightarrow> nat \<Rightarrow> inputbuf \<Rightarrow> u8 list \<times> nat \<times> inputbuf \<times> bool" where
  "consoleread_loop target 0 i = ([], 0, i, False)"
| "consoleread_loop target (Suc n) i =
     (if in_r i = in_w i then ([], Suc n, i, True)
      else
        let c = in_buf i ! (unat (in_r i) mod INPUT_BUF); j = i\<lparr>in_r := in_r i + 1\<rparr> in
        if c = 4 then ([], Suc n, if Suc n < target then i else j, False)
        else if c = 10 then ([c], n, j, False)
        else let (cs, k, j, wait) = consoleread_loop target n j in (c # cs, k, j, wait))"

definition consoleread_go :: "nat \<Rightarrow> nat \<Rightarrow> nat \<Rightarrow> nat \<Rightarrow> inputbuf \<Rightarrow> 'a fsst_scheme
    \<Rightarrow> (s32 pipe_result \<times> u8 list \<times> nat \<times> inputbuf \<times> 'a fsst_scheme) outcome" where
  "consoleread_go cur ip target n i s =
     (let (cs, k, i, wait) = consoleread_loop target n i in
      if wait then
        (if killed (ptable s ! cur) then obind (ilock cur (Some ip) s) (\<lambda>s. Ret (PRet (- 1), cs, k, i, s))
         else Ret (PSleep, cs, k, i, upd_proc cur (\<lambda>q. q\<lparr>pstate := SLEEPING, pchan := Some ChanInput\<rparr>) s))
      else obind (ilock cur (Some ip) s) (\<lambda>s. Ret (PRet (of_nat (target - k)), cs, k, i, s)))"

definition consoleread :: "nat \<Rightarrow> nat \<Rightarrow> s32 \<Rightarrow> inputbuf \<Rightarrow> 'a fsst_scheme
    \<Rightarrow> (s32 pipe_result \<times> u8 list \<times> nat \<times> inputbuf \<times> 'a fsst_scheme) outcome" where
  "consoleread cur ip n i s =
     obind (iunlock cur (Some ip) s) (consoleread_go cur ip (nat (sint n)) (nat (sint n)) i)"

definition consolewrite :: "nat \<Rightarrow> nat \<Rightarrow> u8 list \<Rightarrow> screen \<Rightarrow> 'a fsst_scheme \<Rightarrow> (s32 \<times> screen \<times> 'a fsst_scheme) outcome" where
  "consolewrite cur ip bytes scr s =
     obind (iunlock cur (Some ip) s) (\<lambda>s.
     obind (consputs (map (\<lambda>c. ucast c AND 255) bytes) scr) (\<lambda>scr.
     obind (ilock cur (Some ip) s) (\<lambda>s. Ret (of_nat (length bytes), scr, s))))"

section \<open>The line editor\<close>

text \<open>
  What the console promises: a queue of finished input, and a line that can still be edited. A newline, the end-of-file
  character (4) or a full buffer finishes the line.
\<close>

fun edit_char :: "u8 \<Rightarrow> u8 list \<times> u8 list \<Rightarrow> u8 list \<times> u8 list" where
  "edit_char c (ready, line) =
     (if c = 16 \<or> c = 0 then (ready, line)
      else if c = 21 then (ready, [])
      else if c = 8 \<or> c = 127 then (ready, butlast line)
      else if length ready + length line \<ge> INPUT_BUF then (ready, line)
      else
        let c = (if c = 13 then 10 else c); line = line @ [c] in
        if c = 10 \<or> c = 4 \<or> length ready + length line = INPUT_BUF then (ready @ line, []) else (ready, line))"

text \<open>
  Reading takes bytes up to and including a newline. An end-of-file character ends the read; it is used up only by a
  read that has nothing else to return.
\<close>

fun take_line :: "bool \<Rightarrow> nat \<Rightarrow> u8 list \<Rightarrow> u8 list \<times> nat \<times> u8 list \<times> bool" where
  "take_line got 0 q = ([], 0, q, False)"
| "take_line got (Suc n) [] = ([], Suc n, [], True)"
| "take_line got (Suc n) (c # q) =
     (if c = 4 then ([], Suc n, if got then c # q else q, False)
      else if c = 10 then ([c], n, q, False)
      else let (cs, k, q, wait) = take_line True n q in (c # cs, k, q, wait))"

interpretation con: ringbuf INPUT_BUF
  by unfold_locales (simp_all add: INPUT_BUF_def)

definition cready :: "inputbuf \<Rightarrow> u8 list" where
  "cready i = con.win (in_buf i) (in_r i) (unat (in_w i - in_r i))"

definition cline :: "inputbuf \<Rightarrow> u8 list" where
  "cline i = con.win (in_buf i) (in_w i) (unat (in_e i - in_w i))"

definition in_ok :: "inputbuf \<Rightarrow> bool" where
  "in_ok i \<longleftrightarrow> length (in_buf i) = INPUT_BUF \<and> length (cready i) + length (cline i) \<le> INPUT_BUF \<and> 10 \<notin> set (cline i)"

lemma length_abs: "length (cready i) = unat (in_w i - in_r i)" "length (cline i) = unat (in_e i - in_w i)"
  by (simp_all add: cready_def cline_def)

lemma index_abs: "in_w i = in_r i + of_nat (length (cready i))" "in_e i = in_w i + of_nat (length (cline i))"
  by (simp_all add: length_abs)

lemma unat_er: "in_ok i \<Longrightarrow> unat (in_e i - in_r i) = length (cready i) + length (cline i)"
proof -
  assume ok: "in_ok i"
  have "in_e i - in_r i = of_nat (length (cready i) + length (cline i))" by (simp add: length_abs)
  moreover have "length (cready i) + length (cline i) < 2 ^ 32" using ok by (simp add: in_ok_def INPUT_BUF_def)
  ultimately show ?thesis by (simp only: unat_of_nat32)
qed

lemma rub_out:
  assumes ok: "in_ok i" and ne: "in_e i \<noteq> in_w i"
  shows "in_ok (i\<lparr>in_e := in_e i - 1\<rparr>)" "cready (i\<lparr>in_e := in_e i - 1\<rparr>) = cready i" "cline (i\<lparr>in_e := in_e i - 1\<rparr>) = butlast (cline i)"
    "in_buf i ! (unat (in_e i - 1) mod INPUT_BUF) \<noteq> 10" "cline i \<noteq> []"
proof -
  have d: "in_e i - in_w i \<noteq> 0" using ne by simp
  then have u: "unat (in_e i - 1 - in_w i) = unat (in_e i - in_w i) - 1" using unat_minus_one [OF d] by (simp add: algebra_simps)
  show r: "cready (i\<lparr>in_e := in_e i - 1\<rparr>) = cready i" by (simp add: cready_def)
  show l: "cline (i\<lparr>in_e := in_e i - 1\<rparr>) = butlast (cline i)" unfolding cline_def using con.win_butlast by (simp add: u)
  show ne': "cline i \<noteq> []" using d by (simp add: cline_def con.win_def unat_gt_0)
  show "in_ok (i\<lparr>in_e := in_e i - 1\<rparr>)" using ok by (auto simp: in_ok_def r l dest: in_set_butlastD)
  obtain m where m: "length (cline i) = Suc m" using ne' by (cases "cline i") auto
  have "in_e i - 1 = in_w i + of_nat m" using index_abs(2) [of i] unfolding m by simp
  then have "cline i ! m = in_buf i ! (unat (in_e i - 1) mod INPUT_BUF)"
    using con.win_nth [of m "Suc m" "in_e i - 1" "in_w i" "in_buf i"] m by (simp add: cline_def)
  moreover have "cline i ! m \<in> set (cline i)" using m by simp
  ultimately show "in_buf i ! (unat (in_e i - 1) mod INPUT_BUF) \<noteq> 10" using ok by (auto simp: in_ok_def)
qed

lemma kill_line_ok:
  assumes "in_ok i"
  shows "in_ok (fst (kill_line i)) \<and> cready (fst (kill_line i)) = cready i \<and> cline (fst (kill_line i)) = []
    \<and> snd (kill_line i) = length (cline i)"
  using assms
proof (induction i rule: kill_line.induct)
  case (1 i)
  show ?case
  proof (cases "in_e i = in_w i")
    case True
    then show ?thesis using 1(2) by (simp add: kill_line.simps cline_def)
  next
    case False
    note R = rub_out [OF 1(2) False]
    have "kill_line i = (fst (kill_line (i\<lparr>in_e := in_e i - 1\<rparr>)), Suc (snd (kill_line (i\<lparr>in_e := in_e i - 1\<rparr>))))"
      by (subst kill_line.simps) (simp add: False R(4) split: prod.split)
    then show ?thesis using 1(1) [OF _ R(1)] False R by simp
  qed
qed

lemma type_char:
  assumes ok: "in_ok i" and room: "length (cready i) + length (cline i) < INPUT_BUF"
    and j: "j = i\<lparr>in_buf := (in_buf i)[unat (in_e i) mod INPUT_BUF := c], in_e := in_e i + 1\<rparr>"
  shows "cready j = cready i" "cline j = cline i @ [c]" "unat (in_e j - in_r j) = Suc (length (cready i) + length (cline i))"
    "cready (j\<lparr>in_w := in_e j\<rparr>) = cready i @ cline i @ [c]" "cline (j\<lparr>in_w := in_e j\<rparr>) = []"
proof -
  let ?m = "length (cready i)" and ?n = "length (cline i)"
  have len: "length (in_buf i) = INPUT_BUF" using ok by (simp add: in_ok_def)
  have e: "in_e i = in_r i + of_nat (?m + ?n)" by (simp add: length_abs)
  have lt: "?m + ?n < 2 ^ 32" "Suc (?m + ?n) < 2 ^ 32" "Suc ?n < 2 ^ 32" using room by (simp_all add: INPUT_BUF_def)
  have u: "unat (in_e j - in_r j) = Suc (?m + ?n)"
  proof -
    have "in_e j - in_r j = of_nat (Suc (?m + ?n))" by (simp add: j length_abs)
    then show ?thesis using lt(2) by (simp only: unat_of_nat32)
  qed
  have un: "unat (in_e j - in_w j) = Suc ?n"
  proof -
    have "in_e j - in_w j = of_nat (Suc ?n)" by (simp add: j length_abs)
    then show ?thesis using lt(3) by (simp only: unat_of_nat32)
  qed
  have w: "in_w j = in_r j + of_nat ?m" "in_r j = in_r i" "in_w j - in_r j = in_w i - in_r i" by (simp_all add: j length_abs)
  have all: "con.win (in_buf j) (in_r i) (Suc (?m + ?n)) = con.win (in_buf i) (in_r i) (?m + ?n) @ [c]"
    using con.win_put [OF len room e, of c] by (simp add: j)
  have old: "con.win (in_buf i) (in_r i) (?m + ?n) = cready i @ cline i"
    using con.win_split [of ?m "?m + ?n" "in_buf i" "in_r i"] by (simp add: cready_def cline_def)
  have new: "con.win (in_buf j) (in_r i) (Suc (?m + ?n)) = cready j @ cline j"
    using con.win_split [of ?m "Suc (?m + ?n)" "in_buf j" "in_r i"] w un by (simp add: cready_def cline_def Suc_diff_le)
  have "cready j @ cline j = cready i @ (cline i @ [c])" using all old new by simp
  then show "cready j = cready i" "cline j = cline i @ [c]" using w(3) by (simp_all add: append_eq_append_conv length_abs)
  show "unat (in_e j - in_r j) = Suc (length (cready i) + length (cline i))" by (rule u)
  show "cready (j\<lparr>in_w := in_e j\<rparr>) = cready i @ cline i @ [c]" using all old u w(2) by (simp add: cready_def)
  show "cline (j\<lparr>in_w := in_e j\<rparr>) = []" by (simp add: cline_def)
qed

lemma cons_char_ok:
  assumes ok: "in_ok i" and c: "cons_char c i = (i', echo, wake)"
  shows "in_ok i'" "(cready i', cline i') = edit_char c (cready i, cline i)" "wake \<longleftrightarrow> length (cready i') > length (cready i)"
proof -
  consider "c = 16 \<or> c = 0" | "c = 21" | "c = 8 \<or> c = 127" | "c \<notin> {16, 0, 21, 8, 127}" by blast
  then have "in_ok i' \<and> (cready i', cline i') = edit_char c (cready i, cline i) \<and> (wake \<longleftrightarrow> length (cready i') > length (cready i))"
  proof cases
    case 1
    then show ?thesis using ok c by (auto simp: cons_char_def)
  next
    case 2
    then show ?thesis using kill_line_ok [OF ok] c by (auto simp: cons_char_def split: prod.splits)
  next
    case 3
    then show ?thesis
      using rub_out [OF ok] ok c by (cases "in_e i = in_w i") (auto simp: cons_char_def cline_def)
  next
    case 4
    have lt: "in_e i - in_r i < of_nat INPUT_BUF \<longleftrightarrow> length (cready i) + length (cline i) < INPUT_BUF"
      using unat_er [OF ok] by (simp add: word_less_nat_alt INPUT_BUF_def)
    show ?thesis
    proof (cases "length (cready i) + length (cline i) < INPUT_BUF")
      case False
      then show ?thesis using 4 c ok by (auto simp: cons_char_def lt)
    next
      case True
      define k where "k = (if c = 13 then 10 else c)"
      define j where "j = i\<lparr>in_buf := (in_buf i)[unat (in_e i) mod INPUT_BUF := k], in_e := in_e i + 1\<rparr>"
      note T = type_char [OF ok True j_def]
      have full: "in_e j = in_r j + of_nat INPUT_BUF \<longleftrightarrow> length (cready i) + length (cline i @ [k]) = INPUT_BUF"
      proof -
        have "in_e j = in_r j + of_nat INPUT_BUF \<longleftrightarrow> in_e j - in_r j = of_nat INPUT_BUF" by (auto simp: algebra_simps)
        also have "\<dots> \<longleftrightarrow> unat (in_e j - in_r j) = INPUT_BUF" by (simp add: word_unat_eq_iff INPUT_BUF_def)
        finally show ?thesis using T(3) by simp
      qed
      have "cons_char c i = (if k = 10 \<or> k = 4 \<or> in_e j = in_r j + of_nat INPUT_BUF then (j\<lparr>in_w := in_e j\<rparr>, [ucast k], True) else (j, [ucast k], False))"
        using 4 True lt by (simp add: cons_char_def k_def [symmetric] j_def Let_def)
      then have run: "(i', echo, wake) = (if k = 10 \<or> k = 4 \<or> in_e j = in_r j + of_nat INPUT_BUF
          then (j\<lparr>in_w := in_e j\<rparr>, [ucast k], True) else (j, [ucast k], False))" using c by simp
      have len: "length (in_buf j) = INPUT_BUF" using ok by (simp add: in_ok_def j_def)
      have sp: "edit_char c (cready i, cline i) = (if k = 10 \<or> k = 4 \<or> length (cready i) + length (cline i @ [k]) = INPUT_BUF
          then (cready i @ cline i @ [k], []) else (cready i, cline i @ [k]))"
        using 4 True by (simp add: k_def Let_def)
      show ?thesis
        unfolding sp using run T len ok True unfolding full in_ok_def by (auto split: if_splits)
    qed
  qed
  then show "in_ok i'" "(cready i', cline i') = edit_char c (cready i, cline i)" "wake \<longleftrightarrow> length (cready i') > length (cready i)" by blast+
qed

lemma consoleread_loop_ok:
  assumes "in_ok i" and "n \<le> target" and "consoleread_loop target n i = (cs, k, i', wait)"
  shows "in_ok i' \<and> cline i' = cline i \<and> take_line (n < target) n (cready i) = (cs, k, cready i', wait)"
  using assms
proof (induction target n i arbitrary: cs k i' wait rule: consoleread_loop.induct)
  case (1 target i)
  then show ?case by auto
next
  case (2 target n i)
  show ?case
  proof (cases "in_r i = in_w i")
    case True
    then show ?thesis using 2(2,4) by (auto simp: cready_def)
  next
    case False
    define c where "c = in_buf i ! (unat (in_r i) mod INPUT_BUF)"
    define j where "j = i\<lparr>in_r := in_r i + 1\<rparr>"
    have d: "in_w i - in_r i \<noteq> 0" using False by simp
    then have u: "unat (in_w i - (in_r i + 1)) = unat (in_w i - in_r i) - 1" using unat_minus_one [OF d] by (simp add: algebra_simps)
    have q: "cready i = c # cready j"
      using con.win_pop [of "unat (in_w i - in_r i)" "in_buf i" "in_r i"] d by (simp add: cready_def c_def j_def u unat_gt_0)
    have l: "cline j = cline i" by (simp add: cline_def j_def)
    have okj: "in_ok j" using 2(2) q l by (simp add: in_ok_def j_def)
    have run: "consoleread_loop target (Suc n) i = (if c = 4 then ([], Suc n, if Suc n < target then i else j, False)
        else if c = 10 then ([c], n, j, False)
        else let (cs, k, j, wait) = consoleread_loop target n j in (c # cs, k, j, wait))"
      using False by (simp add: c_def j_def Let_def)
    show ?thesis
    proof (cases "c = 4 \<or> c = 10")
      case True
      then show ?thesis using 2(2-4) run q l okj by (auto split: if_splits)
    next
      case no: False
      obtain cs1 k1 i1 w1 where r: "consoleread_loop target n j = (cs1, k1, i1, w1)" by (metis prod_cases4)
      have IH: "in_ok i1 \<and> cline i1 = cline j \<and> take_line (n < target) n (cready j) = (cs1, k1, cready i1, w1)"
        by (rule 2(1) [OF False c_def j_def, folded c_def]) (use no okj r 2(3) in simp_all)
      then show ?thesis using 2(3,4) run no r q l by auto
    qed
  qed
qed

lemma edit_char_grows: "edit_char c (r, l) = (r', l') \<Longrightarrow> r' = r \<or> length r < length r'"
  by (auto simp: Let_def split: if_splits)

lemma consoleintr_ok:
  assumes "in_ok i" and "\<forall>p. asleep_on ChanInput s p \<longrightarrow> cready i = []" and "consoleintr cs i scr s = Ret (i', scr', s', d)"
  shows "in_ok i' \<and> (cready i', cline i') = fold edit_char cs (cready i, cline i) \<and> (\<forall>p. asleep_on ChanInput s' p \<longrightarrow> cready i' = [])"
  using assms
proof (induction cs i scr s arbitrary: d rule: consoleintr.induct)
  case (1 i scr s)
  then show ?case by auto
next
  case (2 c cs i scr s)
  obtain j echo wake where j: "cons_char c i = (j, echo, wake)" by (cases "cons_char c i") auto
  note C = cons_char_ok [OF 2(2) j]
  obtain scr1 where e: "consputs echo scr = Ret scr1" using 2(4) j by (cases "consputs echo scr") auto
  let ?s = "if wake then wakeup ChanInput s else s"
  obtain d1 where r: "consoleintr cs j scr1 ?s = Ret (i', scr', s', d1)"
    using 2(4) j e by (cases "consoleintr cs j scr1 ?s") auto
  have "cready j = cready i \<or> length (cready i) < length (cready j)" using edit_char_grows [OF C(2) [symmetric]] .
  then have "\<forall>p. asleep_on ChanInput ?s p \<longrightarrow> cready j = []" using 2(3) C(3) by (auto simp: asleep_wakeup)
  from 2(1) [OF j [symmetric] refl refl e C(1) this r] show ?case using C(2) by simp
qed

text \<open>
  The console in use: characters arrive, processes read and wait in any order, and anything else may happen in between that
  does not put a process to sleep on the channel of the console. The pair is the state of the line editor.
\<close>

inductive con_run :: "u8 list \<times> u8 list \<Rightarrow> inputbuf \<Rightarrow> 'a kst_scheme \<Rightarrow> bool" where
  start: "length d = INPUT_BUF \<Longrightarrow> (\<And>p. \<not> asleep_on ChanInput s p) \<Longrightarrow> con_run ([], []) \<lparr>in_buf = d, in_r = x, in_w = x, in_e = x\<rparr> s"
| typed: "con_run q i s \<Longrightarrow> consoleintr cs i scr s = Ret (i', scr', s', d) \<Longrightarrow> con_run (fold edit_char cs q) i' s'"
| reads: "con_run q i s \<Longrightarrow> n \<le> target \<Longrightarrow> consoleread_loop target n i = (cs, k, i', False) \<Longrightarrow>
    take_line (n < target) n (fst q) = (cs', k', r', w') \<Longrightarrow> con_run (r', snd q) i' s"
| waits: "con_run q i s \<Longrightarrow> n \<le> target \<Longrightarrow> consoleread_loop target n i = (cs, k, i', True) \<Longrightarrow>
    take_line (n < target) n (fst q) = (cs', k', r', w') \<Longrightarrow>
    con_run (r', snd q) i' (upd_proc cur (\<lambda>q. q\<lparr>pstate := SLEEPING, pchan := Some ChanInput\<rparr>) s)"
| others: "con_run q i s \<Longrightarrow> (\<And>p. asleep_on ChanInput s' p \<Longrightarrow> asleep_on ChanInput s p) \<Longrightarrow> con_run q i s'"

lemma take_line_wait: "take_line got n q = (cs, k, r, True) \<Longrightarrow> r = []"
  by (induction got n q arbitrary: cs k r rule: take_line.induct) (auto split: if_splits prod.splits)

lemma take_line_suffix: "take_line got n q = (cs, k, r, w) \<Longrightarrow> q = [] \<Longrightarrow> r = []"
  by (cases n) auto

lemma con_run_inv: "con_run q i s \<Longrightarrow> in_ok i \<and> (cready i, cline i) = q \<and> (\<forall>p. asleep_on ChanInput s p \<longrightarrow> cready i = [])"
proof (induction rule: con_run.induct)
  case (start d s x)
  then show ?case by (simp add: in_ok_def cready_def cline_def)
next
  case (typed q i s cs scr i' scr' s' d)
  then show ?case using consoleintr_ok [of i s cs scr i' scr' s' d] by auto
next
  case (reads q i s n target cs k i' cs' k' r' w')
  have "in_ok i' \<and> cline i' = cline i \<and> take_line (n < target) n (cready i) = (cs, k, cready i', False)"
    using consoleread_loop_ok [OF _ reads(2,3)] reads(5) by blast
  then show ?case using reads(4,5) take_line_suffix [of "n < target" n "cready i" cs k "cready i'" False] by auto
next
  case (waits q i s n target cs k i' cs' k' r' w' cur)
  have "in_ok i' \<and> cline i' = cline i \<and> take_line (n < target) n (cready i) = (cs, k, cready i', True)"
    using consoleread_loop_ok [OF _ waits(2,3)] waits(5) by blast
  then show ?case using waits(4,5) take_line_wait by auto
qed blast

section \<open>Properties\<close>

text \<open>
  C32. The console is a line editor: in every interleaving of typing, reading and waiting, with any number of wrap-arounds of the
  indices, the ring holds the finished input followed by the line being edited, at most \<open>INPUT_BUF\<close> bytes; backspace and
  control-U act on the unfinished line only; a read returns what \<open>take_line\<close> takes off the finished input, and waits
  exactly if that runs out; and no process sleeps while there is finished input.
\<close>

theorem console_line_discipline:
  assumes "con_run q i s" and "n \<le> target"
  shows "(cready i, cline i) = q \<and> length (fst q) + length (snd q) \<le> INPUT_BUF \<and> 10 \<notin> set (snd q)
    \<and> (\<exists>i'. consoleread_loop target n i =
         (case take_line (n < target) n (fst q) of (cs, k, r, wait) \<Rightarrow> (cs, k, i', wait)) \<and> cready i' = fst (snd (snd (take_line (n < target) n (fst q)))))
    \<and> (asleep_on ChanInput s p \<longrightarrow> fst q = [])"
proof -
  have I: "in_ok i" "(cready i, cline i) = q" "\<forall>p. asleep_on ChanInput s p \<longrightarrow> cready i = []" using con_run_inv [OF assms(1)] by blast+
  obtain cs k i' w where r: "consoleread_loop target n i = (cs, k, i', w)" by (metis prod_cases4)
  have "take_line (n < target) n (cready i) = (cs, k, cready i', w)" using consoleread_loop_ok [OF I(1) assms(2) r] by blast
  then show ?thesis using I r by (auto simp: in_ok_def)
qed

lemma consoleintr_returns: "screen_ok scr \<Longrightarrow> \<exists>i' scr' s' d. consoleintr cs i scr s = Ret (i', scr', s', d) \<and> screen_ok scr'"
proof (induction cs arbitrary: i scr s)
  case (Cons c cs)
  obtain j echo wake where j: "cons_char c i = (j, echo, wake)" by (cases "cons_char c i") auto
  obtain scr1 where e: "consputs echo scr = Ret scr1" "screen_ok scr1" using consputs_ok [OF Cons.prems] by blast
  obtain i' scr' s' d where "consoleintr cs j scr1 (if wake then wakeup ChanInput s else s) = Ret (i', scr', s', d)" "screen_ok scr'"
    using Cons.IH [OF e(2)] by blast
  then show ?case using j e by simp
next
  case Nil
  then have "consoleintr [] i scr s = Ret (i, scr, s, False) \<and> screen_ok scr" by simp
  then show ?case by blast
qed

text \<open>The text \<open>ab\<close>, a backspace, \<open>c\<close> and a return: a read of three bytes gets \<open>ac\<close> and the newline.\<close>

theorem console_line_discipline_witness:
  "\<exists>(i :: inputbuf) (s :: bst) i'. con_run ([97, 99, 10], []) i s \<and> consoleread_loop 3 3 i = ([97, 99, 10], 0, i', False) \<and> cready i' = []"
proof -
  define i0 where "i0 = \<lparr>in_buf = replicate INPUT_BUF 0, in_r = (- 2) :: u32, in_w = - 2, in_e = - 2\<rparr>"
  define scr0 :: screen where "scr0 = \<lparr>crt = replicate (25 * 80) 0, crtpos = 0, uart = []\<rparr>"
  have 0: "con_run ([], []) i0 bst0" unfolding i0_def by (rule con_run.start) (auto simp: bst0_def asleep_on_def proc0_def)
  have "screen_ok scr0" by (simp add: scr0_def screen_ok_def)
  then obtain i scr s d where 1: "consoleintr [97, 98, 8, 99, 13] i0 scr0 bst0 = Ret (i, scr, s, d)"
    using consoleintr_returns by blast
  have e: "fold edit_char [97, 98, 8, 99, 13] ([], []) = ([97, 99, 10], [])" by (simp add: INPUT_BUF_def Let_def)
  have r: "con_run ([97, 99, 10], []) i s" using con_run.typed [OF 0 1] unfolding e .
  have "take_line False 3 [97, 99, 10] = ([97, 99, 10], 0, [], False)" by (simp add: numeral_3_eq_3)
  then show ?thesis using console_line_discipline [OF r, of 3 3 0] r by auto
qed

text \<open>
  C33. The cursor never leaves the screen: from a cursor within the first 24 lines, or at the start of the last one, every sequence of characters
  can be output without a panic and without a store beside the display, and the cursor is within those bounds again.
\<close>

theorem console_cursor_on_screen:
  assumes "screen_ok scr"
  shows "\<exists>scr'. consputs cs scr = Ret scr' \<and> length (crt scr') = 25 * 80 \<and> unat (crtpos scr') \<le> 24 * 80"
  using consputs_ok [OF assms] unfolding screen_ok_def by blast

theorem console_cursor_on_screen_witness:
  "\<exists>scr'. consputs [65, 10, BACKSPACE] \<lparr>crt = replicate 2000 0, crtpos = 1919, uart = []\<rparr> = Ret scr' \<and> unat (crtpos scr') \<le> 24 * 80"
  using console_cursor_on_screen [of "\<lparr>crt = replicate 2000 0, crtpos = 1919, uart = []\<rparr>" "[65, 10, BACKSPACE]"]
  by (auto simp: screen_ok_def)

end
