(* ===== verification/FileData.thy ===== *)
theory FileData
  imports Blocks
begin

unbundle bit_operations_syntax

text \<open>
  The contents of files. \<open>fmap\<close> is the block map of an inode and \<open>fbyte\<close> the byte at an offset, both read off the
  blocks as the cache has them. \<open>file_ok\<close> is the invariant of a file: its blocks are data blocks marked in the free
  map, no two of its offsets share a block, and there are no holes below its size. The lemmas show that
  \<open>bmap\<close> allocates without changing any byte of any file, and that \<open>writei\<close> changes exactly the bytes it is
  given; and they count the blocks that a write adds to the transaction.
\<close>

section \<open>The block map of a file\<close>

definition fmap :: "'a bst_scheme \<Rightarrow> inode \<Rightarrow> nat \<Rightarrow> u32" where
  "fmap s i n =
     (if n < NDIRECT then i_addrs i ! n
      else if i_addrs i ! NDIRECT = 0 then 0
      else get32 (blk_view s (i_addrs i ! NDIRECT)) (4 * (n - NDIRECT)))"

definition fblocks :: "'a bst_scheme \<Rightarrow> inode \<Rightarrow> u32 set" where
  "fblocks s i = (insert (i_addrs i ! NDIRECT) (fmap s i ` {..<MAXFILE})) - {0}"

definition file_ok :: "'a fsst_scheme \<Rightarrow> inode \<Rightarrow> bool" where
  "file_ok s i \<longleftrightarrow> i_dev i = 1 \<and> length (i_addrs i) = NDIRECT + 1 \<and> (\<forall>a \<in> fblocks s i. data_blk s a \<and> marked s a)
     \<and> (\<forall>m < MAXFILE. \<forall>n < MAXFILE. fmap s i m \<noteq> 0 \<longrightarrow> fmap s i m = fmap s i n \<longrightarrow> m = n)
     \<and> (\<forall>m < MAXFILE. fmap s i m \<noteq> 0 \<longrightarrow> fmap s i m \<noteq> i_addrs i ! NDIRECT)
     \<and> unat (i_size i) \<le> MAXFILE * BSIZE \<and> (\<forall>n. n * BSIZE < unat (i_size i) \<longrightarrow> fmap s i n \<noteq> 0)"

definition fbyte :: "'a bst_scheme \<Rightarrow> inode \<Rightarrow> nat \<Rightarrow> u8" where
  "fbyte s i p = (let a = fmap s i (p div BSIZE) in if a = 0 then 0 else blk_view s a ! (p mod BSIZE))"

text \<open>
  What an allocation for the inode \<open>ip\<close> leaves alone: blocks in use other than the map and the file's indirect block, all other
  inodes, and the other fields of this one.
\<close>

definition grown :: "nat \<Rightarrow> 'a fsst_scheme \<Rightarrow> 'a fsst_scheme \<Rightarrow> bool" where
  "grown ip s s' \<longleftrightarrow> fs_geom s' \<and> sb s' = sb s \<and> same_log s s'
     \<and> (\<exists>as. icache s' = (icache s)[ip := (icache s ! ip)\<lparr>i_addrs := as\<rparr>])
     \<and> (\<forall>b. marked s b \<longrightarrow> marked s' b)
     \<and> (\<forall>b. marked s b \<and> b \<noteq> bm s \<and> b \<noteq> i_addrs (icache s ! ip) ! NDIRECT \<longrightarrow> blk_view s' b = blk_view s b)"

definition fresh_for :: "'a fsst_scheme \<Rightarrow> 'a fsst_scheme \<Rightarrow> u32 \<Rightarrow> bool" where
  "fresh_for s s' a \<longleftrightarrow> \<not> marked s a \<and> data_blk s a \<and> marked s' a"

lemma file_grow:
  assumes ok: "file_ok s i" and gr: "\<forall>b. marked s b \<longrightarrow> marked s' b" and db: "data_blk s' = data_blk s"
    and vw: "\<forall>b. marked s b \<and> b \<noteq> bm s \<and> b \<noteq> i_addrs i ! NDIRECT \<longrightarrow> blk_view s' b = blk_view s b"
    and i': "i_dev i' = i_dev i" "i_size i' = i_size i" "length (i_addrs i') = length (i_addrs i)"
    and F: "\<And>m. m < MAXFILE \<Longrightarrow> fmap s' i' m = fmap s i m \<or> (m = n \<and> fmap s i m = 0 \<and> fmap s' i' m = a
      \<and> fresh_for s s' a \<and> blk_view s' a = replicate BSIZE 0 \<and> i_addrs i' ! NDIRECT \<noteq> a)"
    and ind: "i_addrs i' ! NDIRECT = i_addrs i ! NDIRECT \<or> fresh_for s s' (i_addrs i' ! NDIRECT) \<and> i_addrs i ! NDIRECT = 0"
  shows "file_ok s' i' \<and> fblocks s' i' \<subseteq> fblocks s i \<union> {b. \<not> marked s b} \<and> (\<forall>p < MAXFILE * BSIZE. fbyte s' i' p = fbyte s i p)"
proof (intro conjI)
  have own: "\<And>m. m < MAXFILE \<Longrightarrow> fmap s i m \<noteq> 0 \<Longrightarrow> data_blk s (fmap s i m) \<and> marked s (fmap s i m)"
    "i_addrs i ! NDIRECT \<noteq> 0 \<Longrightarrow> data_blk s (i_addrs i ! NDIRECT) \<and> marked s (i_addrs i ! NDIRECT)"
    using ok by (auto simp: file_ok_def fblocks_def)
  have F0: "fmap s' i' m = fmap s i m \<or> (m = n \<and> fmap s i m = 0 \<and> fmap s' i' m = a)" if "m < MAXFILE" for m using F [OF that] by blast
  have new: "data_blk s (fmap s' i' m) \<and> marked s' (fmap s' i' m) \<and> (marked s (fmap s' i' m) \<longrightarrow> fmap s' i' m = fmap s i m)"
    if "m < MAXFILE" "fmap s' i' m \<noteq> 0" for m
    using F [OF that(1)] own(1) [OF that(1)] gr that(2) by (auto simp: fresh_for_def)
  have nind: "data_blk s (i_addrs i' ! NDIRECT) \<and> marked s' (i_addrs i' ! NDIRECT)" if "i_addrs i' ! NDIRECT \<noteq> 0"
    using ind own(2) gr that by (auto simp: fresh_for_def)
  show sub: "fblocks s' i' \<subseteq> fblocks s i \<union> {b. \<not> marked s b}"
  proof
    fix b assume b: "b \<in> fblocks s' i'"
    then consider "b = i_addrs i' ! NDIRECT" "b \<noteq> 0" | m where "m < MAXFILE" "b = fmap s' i' m" "b \<noteq> 0" by (auto simp: fblocks_def)
    then show "b \<in> fblocks s i \<union> {b. \<not> marked s b}"
    proof cases
      case 1
      then show ?thesis using ind by (auto simp: fblocks_def fresh_for_def)
    next
      case (2 m)
      then show ?thesis using F [of m] by (auto simp: fblocks_def fresh_for_def)
    qed
  qed
  have holes: "fmap s' i' m \<noteq> 0" if "m * BSIZE < unat (i_size i')" for m
  proof -
    have "m < MAXFILE" using that ok i'(2) by (auto simp: file_ok_def fs_consts)
    moreover have "fmap s i m \<noteq> 0" using that ok i'(2) by (simp add: file_ok_def)
    ultimately show ?thesis using F0 [of m] by auto
  qed
  have inj: "m = k" if "m < MAXFILE" "k < MAXFILE" "fmap s' i' m \<noteq> 0" "fmap s' i' m = fmap s' i' k" for m k
  proof -
    have "fmap s' i' m = fmap s i m \<and> fmap s' i' k = fmap s i k \<or> m = n \<and> k = n"
      using F [OF that(1)] F [OF that(2)] that(3,4) own(1) [OF that(1)] own(1) [OF that(2)] by (auto simp: fresh_for_def)
    then show ?thesis using ok that unfolding file_ok_def by metis
  qed
  have ne: "fmap s' i' m \<noteq> i_addrs i' ! NDIRECT" if "m < MAXFILE" "fmap s' i' m \<noteq> 0" for m
    using F [OF that(1)] own(1) [OF that(1)] ind ok that unfolding file_ok_def fresh_for_def by metis
  have "data_blk s' b \<and> marked s' b" if "b \<in> fblocks s' i'" for b
    using that new nind unfolding fblocks_def db by auto
  then show "file_ok s' i'" using ok i' holes inj ne unfolding file_ok_def by auto
  show "\<forall>p < MAXFILE * BSIZE. fbyte s' i' p = fbyte s i p"
  proof (intro allI impI)
    fix p assume "p < MAXFILE * BSIZE"
    then have m: "p div BSIZE < MAXFILE" by (simp add: less_mult_imp_div_less)
    have p: "p mod BSIZE < BSIZE" by (simp add: BSIZE_def)
    from F [OF m] show "fbyte s' i' p = fbyte s i p"
    proof
      assume e: "fmap s' i' (p div BSIZE) = fmap s i (p div BSIZE)"
      show ?thesis
      proof (cases "fmap s i (p div BSIZE) = 0")
        case False
        then have "blk_view s' (fmap s i (p div BSIZE)) = blk_view s (fmap s i (p div BSIZE))"
          using vw own(1) [OF m False] ok m by (auto simp: file_ok_def data_blk_def)
        then show ?thesis by (simp add: fbyte_def e Let_def)
      qed (simp add: fbyte_def e)
    next
      assume "p div BSIZE = n \<and> fmap s i (p div BSIZE) = 0 \<and> fmap s' i' (p div BSIZE) = a
        \<and> fresh_for s s' a \<and> blk_view s' a = replicate BSIZE 0 \<and> i_addrs i' ! NDIRECT \<noteq> a"
      then show ?thesis using p by (auto simp: fbyte_def Let_def)
    qed
  qed
qed

section \<open>Allocation\<close>

definition nfree :: "'a fsst_scheme \<Rightarrow> nat" where
  "nfree s = card {b. in_fs s b \<and> \<not> marked s b}"

text \<open>The blocks still to be logged, and to be found free, besides the data blocks.\<close>

definition log_need :: "'a fsst_scheme \<Rightarrow> inode \<Rightarrow> nat" where
  "log_need s i = (if bm s \<in> dirty_blks s then 0 else 1)
     + (if i_addrs i ! NDIRECT \<noteq> 0 \<and> i_addrs i ! NDIRECT \<in> dirty_blks s then 0 else 1)"

definition blk_need :: "inode \<Rightarrow> nat" where
  "blk_need i = (if i_addrs i ! NDIRECT = 0 then 1 else 0)"

text \<open>The state in which \<open>cur\<close> may change the file \<open>ip\<close>, with \<open>r\<close> data blocks still to come.\<close>

definition writing :: "nat \<Rightarrow> nat \<Rightarrow> nat \<Rightarrow> 'a fsst_scheme \<Rightarrow> bool" where
  "writing cur ip r s \<longleftrightarrow> tx cur {} (log_need s (icache s ! ip) + r) s \<and> fs_geom s \<and> ip < length (icache s)
     \<and> file_ok s (icache s ! ip) \<and> blk_need (icache s ! ip) + r \<le> nfree s"

lemma nfree_alloc:
  assumes "in_fs s' = in_fs s" and "\<forall>c. marked s' c \<longleftrightarrow> marked s c \<or> c = a" and "in_fs s a" and "\<not> marked s a"
  shows "nfree s = Suc (nfree s')"
proof -
  have "{b. in_fs s b \<and> \<not> marked s b} = insert a {b. in_fs s' b \<and> \<not> marked s' b}" using assms by auto
  moreover have "a \<notin> {b. in_fs s' b \<and> \<not> marked s' b}" using assms(2) by simp
  ultimately show ?thesis by (simp add: nfree_def)
qed

lemma nfree_pos: "0 < nfree s \<Longrightarrow> \<exists>b. in_fs s b \<and> \<not> marked s b"
  by (auto simp: nfree_def card_gt_0_iff)

lemma upd_inode_simps [simp]:
  "blk_view (upd_inode ip f s) = blk_view s" "dirty_blks (upd_inode ip f s) = dirty_blks s" "sb (upd_inode ip f s) = sb s"
  "icache (upd_inode ip f s) = (icache s)[ip := f (icache s ! ip)]" "held_blks (upd_inode ip f s) = held_blks s"
  "binv (upd_inode ip f s) = binv s" "ptable (upd_inode ip f s) = ptable s" "disk (upd_inode ip f s) = disk s"
  "log_start (upd_inode ip f s) = log_start s" "log_size (upd_inode ip f s) = log_size s" "log_dev (upd_inode ip f s) = log_dev s"
  "log_outstanding (upd_inode ip f s) = log_outstanding s" "log_committing (upd_inode ip f s) = log_committing s"
  "disk_log (upd_inode ip f s) = disk_log s" "lh_n (upd_inode ip f s) = lh_n s" "lh_block (upd_inode ip f s) = lh_block s"
  by (simp_all add: upd_inode_def blk_view_def [abs_def] dirty_blks_def held_blks_def binv_def cong: option.case_cong)

lemma upd_inode_preds [simp]:
  "rd cur H (upd_inode ip f s) = rd cur H s" "tx cur H k (upd_inode ip f s) = tx cur H k s"
  "home_blk (upd_inode ip f s) = home_blk s" "in_fs (upd_inode ip f s) = in_fs s" "inode_blk (upd_inode ip f s) = inode_blk s"
  "data_blk (upd_inode ip f s) = data_blk s" "marked (upd_inode ip f s) = marked s" "fs_geom (upd_inode ip f s) = fs_geom s"
  "same_log s (upd_inode ip f s)" "nfree (upd_inode ip f s) = nfree s"
proof -
  show 1: "rd cur H (upd_inode ip f s) = rd cur H s" by (simp add: rd_def)
  have "log_area (upd_inode ip f s) = log_area s" by (rule log_area_cong [THEN conjunct1]) simp
  then have "log_ok bs (upd_inode ip f s) = log_ok bs s" for bs by (simp add: log_ok_def log_geom_def trans_def)
  then show "tx cur H k (upd_inode ip f s) = tx cur H k s" by (simp add: tx_def 1)
  show 2: "home_blk (upd_inode ip f s) = home_blk s" by (rule home_blk_cong) simp
  show 3: "in_fs (upd_inode ip f s) = in_fs s" "inode_blk (upd_inode ip f s) = inode_blk s" "marked (upd_inode ip f s) = marked s"
    by (simp_all add: in_fs_def [abs_def] inode_blk_def [abs_def] marked_def [abs_def])
  show 4: "data_blk (upd_inode ip f s) = data_blk s" by (simp add: data_blk_def [abs_def] 2 3)
  show "fs_geom (upd_inode ip f s) = fs_geom s" "same_log s (upd_inode ip f s)" "nfree (upd_inode ip f s) = nfree s"
    by (simp_all add: fs_geom_def same_log_def nfree_def 2 3 4)
qed

text \<open>\<open>bmap\<close>: the inode's own slot \<open>k\<close>, filled if it is empty.\<close>

definition slot_addr :: "nat \<Rightarrow> nat \<Rightarrow> nat \<Rightarrow> 'a fsst_scheme \<Rightarrow> (u32 \<times> 'a fsst_scheme) outcome" where
  "slot_addr cur ip k s =
     (let i = icache s ! ip in
      if i_addrs i ! k = 0 then
        obind (balloc cur (i_dev i) s) (\<lambda>(addr, s). Ret (addr, upd_inode ip (\<lambda>i. i\<lparr>i_addrs := (i_addrs i)[k := addr]\<rparr>) s))
      else Ret (i_addrs i ! k, s))"

lemma bmap_slot:
  "bmap cur ip bn s =
     (if bn < of_nat NDIRECT then slot_addr cur ip (unat bn) s
      else
        let i = icache s ! ip; bn = bn - of_nat NDIRECT in
        if bn < of_nat NINDIRECT then
          let k = unat bn in
          obind (slot_addr cur ip NDIRECT s) (\<lambda>(addr, s).
          obind (bread cur (i_dev i) addr s) (\<lambda>(bp, s).
          let addr = get32 (b_data (bufs s ! bp)) (4 * k) in
          obind (if addr = 0 then
                   obind (balloc cur (i_dev i) s) (\<lambda>(addr, s).
                   let s = upd_buf bp (\<lambda>x. x\<lparr>b_data := put32 (b_data x) (4 * k) addr\<rparr>) s in
                   obind (log_write bp s) (\<lambda>s. Ret (addr, s)))
                 else Ret (addr, s)) (\<lambda>(addr, s).
          obind (brelse cur bp s) (\<lambda>s. Ret (addr, s)))))
        else Panic ''bmap: out of range'')"
  by (simp add: bmap_def slot_addr_def Let_def)

definition mapped :: "nat \<Rightarrow> nat \<Rightarrow> nat \<Rightarrow> nat \<Rightarrow> u32 \<Rightarrow> 'a fsst_scheme \<Rightarrow> 'a fsst_scheme \<Rightarrow> bool" where
  "mapped cur ip r n a s s' \<longleftrightarrow> a \<noteq> 0 \<and> fmap s' (icache s' ! ip) n = a \<and> grown ip s s' \<and> file_ok s' (icache s' ! ip)
     \<and> fblocks s' (icache s' ! ip) \<subseteq> fblocks s (icache s ! ip) \<union> {b. \<not> marked s b}
     \<and> (\<forall>p < MAXFILE * BSIZE. fbyte s' (icache s' ! ip) p = fbyte s (icache s ! ip) p)
     \<and> tx cur {} (log_need s' (icache s' ! ip) + r + (if a \<in> dirty_blks s' then 0 else 1)) s'
     \<and> blk_need (icache s' ! ip) + r \<le> nfree s'
     \<and> (\<forall>m < MAXFILE. m \<noteq> n \<longrightarrow> fmap s' (icache s' ! ip) m = fmap s (icache s ! ip) m)"

lemma writingD:
  assumes "writing cur ip r s"
  shows "tx cur {} (log_need s (icache s ! ip) + r) s" "fs_geom s" "ip < length (icache s)" "file_ok s (icache s ! ip)"
    "blk_need (icache s ! ip) + r \<le> nfree s" "i_dev (icache s ! ip) = 1" "length (i_addrs (icache s ! ip)) = NDIRECT + 1"
  using assms by (simp_all add: writing_def file_ok_def)

lemma mapped_same:
  assumes w: "writing cur ip (Suc r) s" and a: "fmap s (icache s ! ip) n = a" "a \<noteq> 0"
  shows "mapped cur ip r n a s s"
proof -
  note W = writingD [OF w]
  have "grown ip s s"
    unfolding grown_def using W(2) by (auto intro!: exI [of _ "i_addrs (icache s ! ip)"])
  moreover have "tx cur {} (log_need s (icache s ! ip) + r + (if a \<in> dirty_blks s then 0 else 1)) s"
    by (rule tx_weaken [OF W(1)]) simp
  ultimately show ?thesis using a W by (simp add: mapped_def)
qed

text \<open>\<open>balloc\<close> on behalf of the file \<open>ip\<close>, while the blocks \<open>H\<close> of the file are held.\<close>

lemma file_balloc:
  assumes t: "tx cur H k s" and H: "card H \<le> 1" "H \<subseteq> fblocks s (icache s ! ip)" and g: "fs_geom s" and ok: "file_ok s (icache s ! ip)"
    and free: "0 < nfree s" and k: "balloc_cost s \<le> k"
  shows "\<exists>a s'. balloc cur 1 s = Ret (a, s') \<and> fresh_for s s' a \<and> a \<notin> fblocks s (icache s ! ip) \<and> tx cur H (k - balloc_cost s) s'
    \<and> blk_view s' = (blk_view s)(bm s := set_mark a (blk_view s (bm s)), a := replicate BSIZE 0)
    \<and> dirty_blks s' = insert a (insert (bm s) (dirty_blks s)) \<and> keeps cur s s' \<and> fs_geom s'
    \<and> (\<forall>b. marked s b \<longrightarrow> marked s' b) \<and> nfree s = Suc (nfree s')"
proof -
  have own: "data_blk s b \<and> marked s b" if "b \<in> fblocks s (icache s ! ip)" for b using ok that by (simp add: file_ok_def)
  then have H': "bm s \<notin> H" "\<forall>b \<in> H. marked s b" using H(2) by (auto simp: data_blk_def)
  obtain b where b: "in_fs s b" "\<not> marked s b" using nfree_pos [OF free] by blast
  obtain a s' where A: "balloc cur 1 s = Ret (a, s')" "\<not> marked s a" "data_blk s a" "tx cur H (k - balloc_cost s) s'"
    "blk_view s' = (blk_view s)(bm s := set_mark a (blk_view s (bm s)), a := replicate BSIZE 0)"
    "dirty_blks s' = insert a (insert (bm s) (dirty_blks s))" "keeps cur s s'" "fs_geom s'"
    "\<forall>c. marked s' c \<longleftrightarrow> marked s c \<or> c = a"
    using balloc_ok [OF t H(1) H' g b k] by blast
  have "nfree s = Suc (nfree s')"
    by (rule nfree_alloc [OF keeps_fields(5) [OF A(7)] A(9) _ A(2)]) (use A(3) in \<open>simp add: data_blk_def\<close>)
  moreover have "a \<notin> fblocks s (icache s ! ip)" using own A(2) by blast
  ultimately show ?thesis using A by (intro exI [of _ a] exI [of _ s']) (simp add: fresh_for_def)
qed

lemma slot_direct_ok:
  assumes w: "writing cur ip (Suc r) s" and k: "k < NDIRECT"
  shows "\<exists>a s'. slot_addr cur ip k s = Ret (a, s') \<and> mapped cur ip r k a s s'"
proof (cases "i_addrs (icache s ! ip) ! k = 0")
  case False
  then show ?thesis
    using mapped_same [OF w, of k "i_addrs (icache s ! ip) ! k"] k by (auto simp: slot_addr_def fmap_def Let_def)
next
  case True
  note W = writingD [OF w]
  let ?i = "icache s ! ip"
  have c: "balloc_cost s \<le> log_need s ?i + Suc r" by (simp add: balloc_cost_def log_need_def)
  obtain a s1 where A: "balloc cur 1 s = Ret (a, s1)" "fresh_for s s1 a" "a \<notin> fblocks s ?i"
    "tx cur {} (log_need s ?i + Suc r - balloc_cost s) s1"
    "blk_view s1 = (blk_view s)(bm s := set_mark a (blk_view s (bm s)), a := replicate BSIZE 0)"
    "dirty_blks s1 = insert a (insert (bm s) (dirty_blks s))" "keeps cur s s1" "fs_geom s1"
    "\<forall>b. marked s b \<longrightarrow> marked s1 b" "nfree s = Suc (nfree s1)"
    using file_balloc [OF W(1) _ _ W(2,4) _ c] W(5) by auto
  note F = keeps_fields [OF A(7)]
  define i' where "i' = ?i\<lparr>i_addrs := (i_addrs ?i)[k := a]\<rparr>"
  define s' where "s' = upd_inode ip (\<lambda>i. i\<lparr>i_addrs := (i_addrs i)[k := a]\<rparr>) s1"
  have ic: "icache s' = (icache s)[ip := i']" "icache s' ! ip = i'" using W(3) by (simp_all add: s'_def F i'_def)
  have kd: "k < length (i_addrs ?i)" "k \<noteq> NDIRECT" using k W(7) by simp_all
  have fa: "a \<noteq> 0" "\<not> marked s a" "a \<noteq> bm s" "data_blk s a" using A(2) by (auto simp: fresh_for_def data_blk_def)
  have ind: "i_addrs i' ! NDIRECT = i_addrs ?i ! NDIRECT" using kd by (simp add: i'_def)
  have indm: "marked s (i_addrs ?i ! NDIRECT) \<and> i_addrs ?i ! NDIRECT \<noteq> bm s" if "i_addrs ?i ! NDIRECT \<noteq> 0"
    using W(4) that by (auto simp: file_ok_def fblocks_def data_blk_def)
  have ai: "i_addrs i' ! NDIRECT \<noteq> a" using ind indm fa by auto
  have vi: "blk_view s' (i_addrs ?i ! NDIRECT) = blk_view s (i_addrs ?i ! NDIRECT)" if "i_addrs ?i ! NDIRECT \<noteq> 0"
    using indm [OF that] ai by (simp add: s'_def A(5) ind)
  have F1: "fmap s' i' m = (if m = k then a else fmap s ?i m)" for m
    using kd k ind vi by (auto simp: fmap_def i'_def)
  have G: "file_ok s' i' \<and> fblocks s' i' \<subseteq> fblocks s ?i \<union> {b. \<not> marked s b} \<and> (\<forall>p < MAXFILE * BSIZE. fbyte s' i' p = fbyte s ?i p)"
  proof (rule file_grow [OF W(4)])
    show "fmap s' i' m = fmap s ?i m \<or> (m = k \<and> fmap s ?i m = 0 \<and> fmap s' i' m = a
        \<and> fresh_for s s' a \<and> blk_view s' a = replicate BSIZE 0 \<and> i_addrs i' ! NDIRECT \<noteq> a)" for m
      unfolding F1 using True k A(2,5) ai by (auto simp: fmap_def s'_def fresh_for_def)
    show "\<forall>b. marked s b \<and> b \<noteq> bm s \<and> b \<noteq> i_addrs ?i ! NDIRECT \<longrightarrow> blk_view s' b = blk_view s b"
      using fa by (auto simp: s'_def A(5))
    show "data_blk s' = data_blk s" "\<forall>b. marked s b \<longrightarrow> marked s' b"
      using A(9) by (simp_all add: s'_def F)
  qed (use ind kd in \<open>simp_all add: i'_def\<close>)
  have "same_log s s1" using A(7) by (simp add: keeps_def)
  then have "same_log s s'" by (simp add: s'_def same_log_def)
  then have gr: "grown ip s s'"
    unfolding grown_def using A(5,8,9) fa by (auto simp: s'_def F i'_def)
  have "log_need s' i' + r \<le> log_need s ?i + Suc r - balloc_cost s"
    unfolding log_need_def balloc_cost_def ind by (auto simp: s'_def A(6) F)
  then have "tx cur {} (log_need s' i' + r) s'" using tx_weaken [OF A(4)] by (simp add: s'_def)
  moreover have "a \<in> dirty_blks s'" by (simp add: s'_def A(6))
  moreover have "blk_need i' + r \<le> nfree s'" using W(5) A(10) ind by (simp add: s'_def blk_need_def)
  moreover have "slot_addr cur ip k s = Ret (a, s')" by (simp add: slot_addr_def True W(6) A(1) s'_def)
  ultimately show ?thesis
    using G gr fa(1) F1 by (intro exI [of _ a] exI [of _ s']) (simp add: mapped_def ic(2))
qed

lemma get32_zeros: "j + 4 \<le> BSIZE \<Longrightarrow> get32 (replicate BSIZE 0) j = 0"
  by (simp add: get32_def BSIZE_def)

lemma slot_ind_ok:
  assumes w: "writing cur ip (Suc r) s"
  shows "\<exists>a s'. slot_addr cur ip NDIRECT s = Ret (a, s') \<and> a \<noteq> 0 \<and> i_addrs (icache s' ! ip) ! NDIRECT = a \<and> grown ip s s'
    \<and> (\<forall>m < MAXFILE. fmap s' (icache s' ! ip) m = fmap s (icache s ! ip) m) \<and> writing cur ip (Suc r) s'
    \<and> fblocks s' (icache s' ! ip) \<subseteq> fblocks s (icache s ! ip) \<union> {b. \<not> marked s b}
    \<and> (\<forall>p < MAXFILE * BSIZE. fbyte s' (icache s' ! ip) p = fbyte s (icache s ! ip) p)"
proof (cases "i_addrs (icache s ! ip) ! NDIRECT = 0")
  case False
  have "grown ip s s"
    unfolding grown_def using writingD(2) [OF w] by (auto intro!: exI [of _ "i_addrs (icache s ! ip)"])
  then show ?thesis using False w by (auto simp: slot_addr_def Let_def)
next
  case True
  note W = writingD [OF w]
  let ?i = "icache s ! ip"
  have c: "balloc_cost s \<le> log_need s ?i + Suc r" by (simp add: balloc_cost_def log_need_def)
  obtain a s1 where A: "balloc cur 1 s = Ret (a, s1)" "fresh_for s s1 a" "a \<notin> fblocks s ?i"
    "tx cur {} (log_need s ?i + Suc r - balloc_cost s) s1"
    "blk_view s1 = (blk_view s)(bm s := set_mark a (blk_view s (bm s)), a := replicate BSIZE 0)"
    "dirty_blks s1 = insert a (insert (bm s) (dirty_blks s))" "keeps cur s s1" "fs_geom s1"
    "\<forall>b. marked s b \<longrightarrow> marked s1 b" "nfree s = Suc (nfree s1)"
    using file_balloc [OF W(1) _ _ W(2,4) _ c] W(5) by auto
  note F = keeps_fields [OF A(7)]
  define i' where "i' = ?i\<lparr>i_addrs := (i_addrs ?i)[NDIRECT := a]\<rparr>"
  define s' where "s' = upd_inode ip (\<lambda>i. i\<lparr>i_addrs := (i_addrs i)[NDIRECT := a]\<rparr>) s1"
  have ic: "icache s' = (icache s)[ip := i']" "icache s' ! ip = i'" using W(3) by (simp_all add: s'_def F i'_def)
  have fa: "a \<noteq> 0" "\<not> marked s a" "a \<noteq> bm s" "data_blk s a" using A(2) by (auto simp: fresh_for_def data_blk_def)
  have ind: "i_addrs i' ! NDIRECT = a" using W(7) by (simp add: i'_def)
  have F1: "fmap s' i' m = fmap s ?i m" if "m < MAXFILE" for m
    using that fa W(7) True get32_zeros [of "4 * (m - NDIRECT)"]
    by (auto simp: fmap_def ind s'_def A(5) i'_def MAXFILE_def NINDIRECT_def BSIZE_def)
  have vw: "\<forall>b. marked s b \<and> b \<noteq> bm s \<and> b \<noteq> i_addrs ?i ! NDIRECT \<longrightarrow> blk_view s' b = blk_view s b"
    using fa by (auto simp: s'_def A(5))
  have G: "file_ok s' i' \<and> fblocks s' i' \<subseteq> fblocks s ?i \<union> {b. \<not> marked s b} \<and> (\<forall>p < MAXFILE * BSIZE. fbyte s' i' p = fbyte s ?i p)"
  proof (rule file_grow [OF W(4)])
    show "i_addrs i' ! NDIRECT = i_addrs ?i ! NDIRECT \<or> fresh_for s s' (i_addrs i' ! NDIRECT) \<and> i_addrs ?i ! NDIRECT = 0"
      using A(2) True by (simp add: ind s'_def fresh_for_def)
    show "data_blk s' = data_blk s" "\<forall>b. marked s b \<longrightarrow> marked s' b" using A(9) by (simp_all add: s'_def F)
  qed (use F1 vw W(7) in \<open>simp_all add: i'_def\<close>)
  have "same_log s s1" using A(7) by (simp add: keeps_def)
  then have "same_log s s'" by (simp add: s'_def same_log_def)
  then have gr: "grown ip s s'"
    unfolding grown_def using A(8,9) vw by (auto simp: s'_def F i'_def)
  have "log_need s' i' + Suc r \<le> log_need s ?i + Suc r - balloc_cost s"
    unfolding log_need_def balloc_cost_def ind using True fa(1) by (auto simp: s'_def A(6) F)
  then have t: "tx cur {} (log_need s' i' + Suc r) s'" using tx_weaken [OF A(4)] by (simp add: s'_def)
  have "blk_need i' + Suc r \<le> nfree s'" using W(5) A(10) ind fa(1) True by (simp add: s'_def blk_need_def)
  then have wr: "writing cur ip (Suc r) s'"
    unfolding writing_def ic(2) using t G W(3) A(8) by (simp add: s'_def F)
  have "slot_addr cur ip NDIRECT s = Ret (a, s')" by (simp add: slot_addr_def True W(6) A(1) s'_def)
  then show ?thesis
    using G gr fa(1) F1 ind wr by (intro exI [of _ a] exI [of _ s']) (simp add: ic(2))
qed

lemma fields_cong:
  fixes s s' :: "'a fsst_scheme"
  assumes "sb s' = sb s" and "log_start s' = log_start s"
  shows "home_blk s' = home_blk s" "in_fs s' = in_fs s" "inode_blk s' = inode_blk s" "data_blk s' = data_blk s"
proof -
  show 1: "home_blk s' = home_blk s" by (rule home_blk_cong [OF assms(2)])
  show "in_fs s' = in_fs s" "inode_blk s' = inode_blk s" "data_blk s' = data_blk s"
    by (simp_all add: in_fs_def [abs_def] inode_blk_def [abs_def] data_blk_def [abs_def] 1 assms(1))
qed

lemma view_cong:
  fixes s s' :: "'a fsst_scheme"
  assumes "sb s' = sb s" and "log_start s' = log_start s" and "blk_view s' = blk_view s"
  shows "marked s' = marked s" "fs_geom s' = fs_geom s" "fmap s' = fmap s" "fblocks s' = fblocks s" "fbyte s' = fbyte s"
    "file_ok s' = file_ok s" "nfree s' = nfree s"
proof -
  note F = fields_cong [OF assms(1,2)]
  show 1: "marked s' = marked s" "fmap s' = fmap s" unfolding marked_def [abs_def] fmap_def [abs_def] assms by (rule refl)+
  show 2: "fblocks s' = fblocks s" "fbyte s' = fbyte s" "fs_geom s' = fs_geom s" "nfree s' = nfree s"
    unfolding fblocks_def [abs_def] fbyte_def [abs_def] fs_geom_def nfree_def F 1 assms by (rule refl)+
  show "file_ok s' = file_ok s" by (simp add: file_ok_def [abs_def] F 1 2)
qed

lemma more_fields:
  fixes s s' :: "'a fsst_scheme"
  assumes "bst.more s' = bst.more s"
  shows "sb s' = sb s" "icache s' = icache s"
  using assms by (cases s; cases s'; simp)+

text \<open>\<open>bmap\<close>: the entry \<open>k\<close> of the indirect block \<open>addr\<close>, filled if it is empty.\<close>

definition entry_addr :: "nat \<Rightarrow> u32 \<Rightarrow> u32 \<Rightarrow> nat \<Rightarrow> 'a fsst_scheme \<Rightarrow> (u32 \<times> 'a fsst_scheme) outcome" where
  "entry_addr cur dev addr k s =
     obind (bread cur dev addr s) (\<lambda>(bp, s).
     let addr = get32 (b_data (bufs s ! bp)) (4 * k) in
     obind (if addr = 0 then
              obind (balloc cur dev s) (\<lambda>(addr, s).
              let s = upd_buf bp (\<lambda>x. x\<lparr>b_data := put32 (b_data x) (4 * k) addr\<rparr>) s in
              obind (log_write bp s) (\<lambda>s. Ret (addr, s)))
            else Ret (addr, s)) (\<lambda>(addr, s).
     obind (brelse cur bp s) (\<lambda>s. Ret (addr, s))))"

lemma bmap_eq:
  "bmap cur ip bn s =
     (if bn < of_nat NDIRECT then slot_addr cur ip (unat bn) s
      else if bn - of_nat NDIRECT < of_nat NINDIRECT then
        obind (slot_addr cur ip NDIRECT s) (\<lambda>(addr, s'). entry_addr cur (i_dev (icache s ! ip)) addr (unat (bn - of_nat NDIRECT)) s')
      else Panic ''bmap: out of range'')"
  by (simp add: bmap_slot entry_addr_def Let_def cong: if_cong)

lemma entry_present:
  assumes w: "writing cur ip (Suc r) s" and ind: "i_addrs (icache s ! ip) ! NDIRECT = b" "b \<noteq> 0" and k: "k < NINDIRECT"
    and e: "get32 (blk_view s b) (4 * k) \<noteq> 0"
  shows "\<exists>a s'. entry_addr cur 1 b k s = Ret (a, s') \<and> mapped cur ip r (NDIRECT + k) a s s' \<and> icache s' = icache s"
proof -
  note W = writingD [OF w]
  have b: "data_blk s b" using W(4) ind by (auto simp: file_ok_def fblocks_def)
  then have u: "unat b < FSSIZE" by (simp add: data_blk_def home_blk_def)
  obtain i s1 where 1: "bread cur 1 b s = Ret (i, s1)" "rd cur {b} s1" "has_buf cur s1 i b"
    "b_data (bufs s1 ! i) = blk_view s b" "blk_view s1 = blk_view s" "dirty_blks s1 = dirty_blks s"
    "bst.more s1 = bst.more s" "disk s1 = disk s" "disk_log s1 = disk_log s" "length (ptable s1) = length (ptable s)"
    using rd_bread [OF tx_rd [OF W(1)] _ _ u] by auto
  obtain s2 where 2: "brelse cur i s1 = Ret s2" "rd cur ({b} - {b}) s2" "blk_view s2 = blk_view s1" "dirty_blks s2 = dirty_blks s1"
    "bst.more s2 = bst.more s1" "disk s2 = disk s1" "disk_log s2 = disk_log s1" "length (ptable s2) = length (ptable s1)"
    using rd_brelse [OF 1(2,3)] by blast
  have m2: "bst.more s2 = bst.more s" using 2(5) 1(7) by simp
  note M = more_fields [OF m2] and L = log_fields [OF m2]
  have t2: "tx cur {} (log_need s (icache s ! ip) + Suc r) s2"
    by (rule tx_more [OF W(1) _ m2]) (use 2(2,4,6) 1(6,8) in simp_all)
  have v2: "blk_view s2 = blk_view s" using 2(3) 1(5) by simp
  note V = view_cong [OF M(1) L(1) v2]
  have n2: "log_need s2 = log_need s" by (simp add: log_need_def [abs_def] M 2(4) 1(6))
  have w2: "writing cur ip (Suc r) s2" using W t2 by (simp add: writing_def M V n2)
  have f2: "fmap s2 (icache s2 ! ip) (NDIRECT + k) = get32 (blk_view s b) (4 * k)" by (simp add: fmap_def ind v2 M)
  have same: "same_log s s2" using L 2(6-8) 1(8-10) by (simp add: same_log_def)
  have "mapped cur ip r (NDIRECT + k) (get32 (blk_view s b) (4 * k)) s2 s2" by (rule mapped_same [OF w2 f2 e])
  then have "mapped cur ip r (NDIRECT + k) (get32 (blk_view s b) (4 * k)) s s2"
    using same by (simp add: mapped_def grown_def V M v2)
  then show ?thesis using 1(1,4) 2(1) e by (simp add: entry_addr_def M)
qed

lemma entry_absent:
  assumes w: "writing cur ip (Suc r) s" and ind: "i_addrs (icache s ! ip) ! NDIRECT = b" "b \<noteq> 0" and k: "k < NINDIRECT"
    and e: "get32 (blk_view s b) (4 * k) = 0"
  shows "\<exists>a s'. entry_addr cur 1 b k s = Ret (a, s') \<and> mapped cur ip r (NDIRECT + k) a s s'"
proof -
  note W = writingD [OF w]
  let ?i = "icache s ! ip" and ?K = "log_need s (icache s ! ip) + Suc r"
  have b: "data_blk s b" "marked s b" "b \<in> fblocks s ?i" using W(4) ind by (auto simp: file_ok_def fblocks_def)
  then have u: "unat b < FSSIZE" "home_blk s b" "b \<noteq> bm s" by (simp_all add: data_blk_def home_blk_def)
  have len: "length (blk_view s b) = BSIZE" using W(2) u(1) by (simp add: fs_geom_def)
  obtain i s1 where 1: "bread cur 1 b s = Ret (i, s1)" "rd cur {b} s1" "has_buf cur s1 i b"
    "b_data (bufs s1 ! i) = blk_view s b" "blk_view s1 = blk_view s" "dirty_blks s1 = dirty_blks s"
    "bst.more s1 = bst.more s" "disk s1 = disk s" "disk_log s1 = disk_log s" "length (ptable s1) = length (ptable s)"
    using rd_bread [OF tx_rd [OF W(1)] _ _ u(1)] by auto
  note M1 = more_fields [OF 1(7)] and L1 = log_fields [OF 1(7)]
  note V1 = view_cong [OF M1(1) L1(1) 1(5)] and C1 = fields_cong [OF M1(1) L1(1)]
  have t1: "tx cur {b} ?K s1" by (rule tx_more [OF W(1) 1(2,7,8,6)])
  have c1: "balloc_cost s1 = balloc_cost s" by (simp add: balloc_cost_def M1 1(6))
  have c: "balloc_cost s1 \<le> ?K" unfolding c1 by (simp add: balloc_cost_def log_need_def)
  obtain a s2 where A: "balloc cur 1 s1 = Ret (a, s2)" "fresh_for s1 s2 a" "tx cur {b} (?K - balloc_cost s1) s2"
    "blk_view s2 = (blk_view s1)(bm s1 := set_mark a (blk_view s1 (bm s1)), a := replicate BSIZE 0)"
    "dirty_blks s2 = insert a (insert (bm s1) (dirty_blks s1))" "keeps cur s1 s2" "fs_geom s2"
    "\<forall>b. marked s1 b \<longrightarrow> marked s2 b" "nfree s1 = Suc (nfree s2)"
    using file_balloc [OF t1, of ip] b(3) W(2,4,5) c by (auto simp: M1 V1)
  note F2 = keeps_fields [OF A(6)]
  have fa: "a \<noteq> 0" "\<not> marked s a" "a \<noteq> bm s" "data_blk s a" "marked s2 a" "a \<noteq> b"
    using A(2) b(2) by (auto simp: fresh_for_def data_blk_def V1 C1 M1)
  have vb: "blk_view s2 b = blk_view s b" using fa(6) u(3) by (simp add: A(4) 1(5) M1)
  have hb: "has_buf cur s2 i b" using A(6) 1(3) by (simp add: keeps_def)
  have h2: "home_blk s2 b" using u(2) by (simp add: F2 C1)
  have kk: "b \<in> dirty_blks s2 \<or> 0 < ?K - balloc_cost s1"
    unfolding c1 balloc_cost_def log_need_def ind(1) using ind(2) by (auto simp: A(5) 1(6) M1)
  obtain s3 where 3: "log_write i (upd_buf i (\<lambda>x. x\<lparr>b_data := put32 (blk_view s b) (4 * k) a\<rparr>) s2) = Ret s3"
    "tx cur {b} (?K - balloc_cost s1 - (if b \<in> dirty_blks s2 then 0 else 1)) s3"
    "blk_view s3 = (blk_view s2)(b := put32 (blk_view s b) (4 * k) a)" "dirty_blks s3 = insert b (dirty_blks s2)" "keeps cur s2 s3"
    using tx_log_write [OF A(3) hb h2 kk] by blast
  have up: "upd_buf i (\<lambda>x. x\<lparr>b_data := put32 (b_data x) (4 * k) a\<rparr>) s2 = upd_buf i (\<lambda>x. x\<lparr>b_data := put32 (blk_view s b) (4 * k) a\<rparr>) s2"
    using has_buf_data [OF tx_rd [OF A(3)] hb] vb by (simp add: upd_buf_def)
  have hb3: "has_buf cur s3 i b" using 3(5) hb by (simp add: keeps_def)
  obtain s' where 4: "brelse cur i s3 = Ret s'" "rd cur ({b} - {b}) s'" "blk_view s' = blk_view s3" "dirty_blks s' = dirty_blks s3"
    "bst.more s' = bst.more s3" "disk s' = disk s3" "disk_log s' = disk_log s3" "length (ptable s') = length (ptable s3)"
    using rd_brelse [OF tx_rd [OF 3(2)] hb3] by blast
  have run: "entry_addr cur 1 b k s = Ret (a, s')" using e by (simp add: entry_addr_def 1(1,4) A(1) up 3(1) 4(1))
  note F3 = keeps_fields [OF 3(5)] and M4 = more_fields [OF 4(5)] and L4 = log_fields [OF 4(5)]
  have ic: "icache s' = icache s" "sb s' = sb s" "log_start s' = log_start s" by (simp_all add: M4 L4 F3 F2 M1 L1)
  note C' = fields_cong [OF ic(2,3)]
  have view: "blk_view s' = (blk_view s)(bm s := set_mark a (blk_view s (bm s)), a := replicate BSIZE 0, b := put32 (blk_view s b) (4 * k) a)"
    by (simp add: 4(3) 3(3) A(4) 1(5) M1)
  have dirty: "dirty_blks s' = insert b (insert a (insert (bm s) (dirty_blks s)))" by (simp add: 4(4) 3(4) A(5) 1(6) M1)
  note G3 = geom_upd [OF A(7) 3(5,3)]
  have bn: "b \<noteq> bm s2" using u(3) by (simp add: F2 M1)
  have g3: "fs_geom s3" "marked s3 = marked s2" using G3(2) [OF _ bn] G3(1) [OF _ bn] len by (simp_all add: fun_eq_iff)
  note V4 = view_cong [OF M4(1) L4(1) 4(3)]
  have mk: "marked s' = marked s2" "fs_geom s'" using g3 by (simp_all add: V4)
  have gr: "\<forall>c. marked s c \<longrightarrow> marked s' c" using A(8) by (simp add: mk V1)
  have vw: "\<forall>c. marked s c \<and> c \<noteq> bm s \<and> c \<noteq> i_addrs ?i ! NDIRECT \<longrightarrow> blk_view s' c = blk_view s c"
    using fa(2) by (auto simp: view ind(1))
  have kB: "4 * k + 4 \<le> BSIZE" using k by (simp add: NINDIRECT_def BSIZE_def)
  have f0: "fmap s ?i (NDIRECT + k) = 0" using e ind by (simp add: fmap_def)
  have f1: "fmap s' ?i (NDIRECT + k) = a" using ind len kB by (simp add: fmap_def view)
  have f2: "fmap s' ?i m = fmap s ?i m" if "m \<noteq> NDIRECT + k" for m
  proof (cases "m < NDIRECT")
    case False
    then have "4 * (m - NDIRECT) + 4 \<le> 4 * k \<or> 4 * k + 4 \<le> 4 * (m - NDIRECT)" using that by linarith
    then show ?thesis using False ind by (simp add: fmap_def view get_put_other(1))
  qed (simp add: fmap_def)
  have G: "file_ok s' ?i \<and> fblocks s' ?i \<subseteq> fblocks s ?i \<union> {b. \<not> marked s b} \<and> (\<forall>p < MAXFILE * BSIZE. fbyte s' ?i p = fbyte s ?i p)"
  proof (rule file_grow [OF W(4) gr C'(4) vw])
    have fr: "fresh_for s s' a" using fa by (simp add: fresh_for_def mk)
    have z: "blk_view s' a = replicate BSIZE 0" using fa(6) by (simp add: view)
    show "fmap s' ?i m = fmap s ?i m \<or> (m = NDIRECT + k \<and> fmap s ?i m = 0 \<and> fmap s' ?i m = a
        \<and> fresh_for s s' a \<and> blk_view s' a = replicate BSIZE 0 \<and> i_addrs ?i ! NDIRECT \<noteq> a)" for m
      by (cases "m = NDIRECT + k") (use f0 f1 f2 [of m] fr z fa(6) ind(1) in simp_all)
  qed simp_all
  have "same_log s s'"
    using L1 L4 1(8-10) 4(6-8) A(6) 3(5) by (simp add: same_log_def keeps_def)
  then have gn: "grown ip s s'"
    unfolding grown_def ic using mk(2) gr vw by (auto intro!: exI [of _ "i_addrs ?i"])
  have need: "log_need s' ?i + r \<le> ?K - balloc_cost s1 - (if b \<in> dirty_blks s2 then 0 else 1)"
    unfolding c1 balloc_cost_def log_need_def ind(1) using ind(2) by (auto simp: dirty A(5) 1(6) ic M1)
  have t4: "tx cur {} (?K - balloc_cost s1 - (if b \<in> dirty_blks s2 then 0 else 1)) s'"
    by (rule tx_more [OF 3(2) _ 4(5,6,4)]) (use 4(2) in simp)
  have "tx cur {} (log_need s' ?i + r) s'" by (rule tx_weaken [OF t4 need])
  moreover have "nfree s' = nfree s2" by (simp add: nfree_def mk(1) C'(2) F2 C1)
  then have "blk_need ?i + r \<le> nfree s'" using W(5) A(9) by (simp add: V1)
  ultimately show ?thesis
    using run G gn f1 f2 fa(1) by (intro exI [of _ a] exI [of _ s']) (simp add: mapped_def ic dirty)
qed

text \<open>\<open>bmap\<close> finds or allocates the block of every offset a file can have.\<close>

lemma grown_trans:
  assumes g: "grown ip s s1" "grown ip s1 s2" and ip: "ip < length (icache s)"
    and ind: "i_addrs (icache s1 ! ip) ! NDIRECT = i_addrs (icache s ! ip) ! NDIRECT \<or> \<not> marked s (i_addrs (icache s1 ! ip) ! NDIRECT)"
  shows "grown ip s s2"
proof -
  obtain as bs where ic: "icache s1 = (icache s)[ip := (icache s ! ip)\<lparr>i_addrs := as\<rparr>]"
      "icache s2 = (icache s1)[ip := (icache s1 ! ip)\<lparr>i_addrs := bs\<rparr>]" using g unfolding grown_def by blast
  have "icache s2 = (icache s)[ip := (icache s ! ip)\<lparr>i_addrs := bs\<rparr>]" using ic ip by simp
  moreover have "blk_view s2 b = blk_view s b" if "marked s b" "b \<noteq> bm s" "b \<noteq> i_addrs (icache s ! ip) ! NDIRECT" for b
    using that g ind unfolding grown_def by metis
  moreover have "same_log s s2" using g same_log_trans unfolding grown_def by blast
  ultimately show ?thesis using g unfolding grown_def by auto
qed

lemma bmap_ok:
  assumes w: "writing cur ip (Suc r) s" and n: "n < MAXFILE"
  shows "\<exists>a s'. bmap cur ip (of_nat n) s = Ret (a, s') \<and> mapped cur ip r n a s s'
    \<and> (fmap s (icache s ! ip) n \<noteq> 0 \<longrightarrow> icache s' = icache s)"
proof -
  have u: "unat (of_nat n :: u32) = n" using n by (intro unat_of_nat32) (simp add: fs_consts)
  show ?thesis
  proof (cases "n < NDIRECT")
    case True
    have lt: "of_nat n < (of_nat NDIRECT :: u32)" using True u by (simp add: word_less_nat_alt NDIRECT_def)
    obtain a s' where "slot_addr cur ip n s = Ret (a, s')" "mapped cur ip r n a s s'" using slot_direct_ok [OF w True] by blast
    moreover from this have "icache s' = icache s" if "fmap s (icache s ! ip) n \<noteq> 0"
      using that True by (simp add: fmap_def slot_addr_def Let_def)
    ultimately show ?thesis using lt u by (simp add: bmap_eq)
  next
    case False
    define k where "k = n - NDIRECT"
    have k: "n = NDIRECT + k" "k < NINDIRECT" using False n by (simp_all add: k_def MAXFILE_def)
    have uk: "unat (of_nat k :: u32) = k" using k(2) by (intro unat_of_nat32) (simp add: fs_consts)
    have d: "of_nat n - of_nat NDIRECT = (of_nat k :: u32)" by (simp add: k(1))
    have c: "\<not> of_nat n < (of_nat NDIRECT :: u32)" "(of_nat k :: u32) < of_nat NINDIRECT"
      using False u uk k(2) by (simp_all add: word_less_nat_alt NDIRECT_def NINDIRECT_def BSIZE_def)
    obtain b s1 where 1: "slot_addr cur ip NDIRECT s = Ret (b, s1)" "b \<noteq> 0" "i_addrs (icache s1 ! ip) ! NDIRECT = b" "grown ip s s1"
      "\<forall>m < MAXFILE. fmap s1 (icache s1 ! ip) m = fmap s (icache s ! ip) m" "writing cur ip (Suc r) s1"
      "fblocks s1 (icache s1 ! ip) \<subseteq> fblocks s (icache s ! ip) \<union> {b. \<not> marked s b}"
      "\<forall>p < MAXFILE * BSIZE. fbyte s1 (icache s1 ! ip) p = fbyte s (icache s ! ip) p"
      using slot_ind_ok [OF w] by blast
    note W1 = writingD [OF 1(6)]
    have f1: "fmap s1 (icache s1 ! ip) n = get32 (blk_view s1 b) (4 * k)" using 1(2,3) by (simp add: fmap_def k(1))
    obtain a s' where 2: "entry_addr cur 1 b k s1 = Ret (a, s')" "mapped cur ip r n a s1 s'"
      "get32 (blk_view s1 b) (4 * k) \<noteq> 0 \<longrightarrow> icache s' = icache s1"
      using entry_present [OF 1(6,3,2) k(2)] entry_absent [OF 1(6,3,2) k(2)] k(1) by metis
    have "b \<in> fblocks s1 (icache s1 ! ip)" using 1(2,3) by (simp add: fblocks_def)
    moreover have "b \<noteq> fmap s (icache s ! ip) m" if "m < MAXFILE" for m
      using W1(4) 1(2,3,5) that unfolding file_ok_def by metis
    ultimately have ind: "i_addrs (icache s1 ! ip) ! NDIRECT = i_addrs (icache s ! ip) ! NDIRECT \<or> \<not> marked s (i_addrs (icache s1 ! ip) ! NDIRECT)"
      using 1(3,7) unfolding fblocks_def by auto
    have g: "grown ip s s'" by (rule grown_trans [OF 1(4) _ writingD(3) [OF w] ind]) (use 2(2) in \<open>simp add: mapped_def\<close>)
    have m1: "\<forall>b. marked s b \<longrightarrow> marked s1 b" using 1(4) by (simp add: grown_def)
    have sub: "fblocks s' (icache s' ! ip) \<subseteq> fblocks s (icache s ! ip) \<union> {b. \<not> marked s b}"
      using 2(2) 1(7) m1 unfolding mapped_def by blast
    have m: "mapped cur ip r n a s s'" using 2(2) g sub 1(5,8) by (simp add: mapped_def)
    have "icache s' = icache s" if "fmap s (icache s ! ip) n \<noteq> 0"
    proof -
      have "i_addrs (icache s ! ip) ! NDIRECT \<noteq> 0" using that False by (auto simp: fmap_def)
      then have "s1 = s" using 1(1) by (simp add: slot_addr_def Let_def)
      then show ?thesis using that 2(3) f1 by simp
    qed
    then show ?thesis using c 1(1) 2(1) m uk writingD(6) [OF w] unfolding bmap_eq d by (intro exI [of _ a] exI [of _ s']) simp
  qed
qed

section \<open>Writing\<close>

text \<open>The bytes \<open>bs\<close> have been written at the offset \<open>p0\<close> of the file \<open>ip\<close>.\<close>

definition wrote_at :: "nat \<Rightarrow> nat \<Rightarrow> u8 list \<Rightarrow> 'a fsst_scheme \<Rightarrow> 'a fsst_scheme \<Rightarrow> bool" where
  "wrote_at ip p0 bs s s' \<longleftrightarrow> fs_geom s' \<and> sb s' = sb s \<and> same_log s s'
     \<and> (\<exists>as. icache s' = (icache s)[ip := (icache s ! ip)\<lparr>i_addrs := as\<rparr>])
     \<and> (\<forall>b. marked s b \<longrightarrow> marked s' b)
     \<and> (\<forall>b. marked s b \<and> b \<noteq> 0 \<and> b \<noteq> bm s \<and> b \<notin> fblocks s (icache s ! ip) \<longrightarrow> blk_view s' b = blk_view s b)
     \<and> file_ok s' (icache s' ! ip)
     \<and> fblocks s' (icache s' ! ip) \<subseteq> fblocks s (icache s ! ip) \<union> {b. \<not> marked s b}
     \<and> (\<forall>p < MAXFILE * BSIZE. fbyte s' (icache s' ! ip) p =
          (if p0 \<le> p \<and> p < p0 + length bs then bs ! (p - p0) else fbyte s (icache s ! ip) p))
     \<and> (p0 + length bs \<le> unat (i_size (icache s ! ip)) \<longrightarrow> icache s' = icache s)
     \<and> (\<forall>n < MAXFILE. fmap s (icache s ! ip) n \<noteq> 0 \<or> (bs \<noteq> [] \<and> p0 div BSIZE \<le> n \<and> n * BSIZE < p0 + length bs)
          \<longrightarrow> fmap s' (icache s' ! ip) n \<noteq> 0)"

lemma write_at_nth:
  assumes "k + length bs \<le> length d"
  shows "length (write_at k bs d) = length d"
    and "j < length d \<Longrightarrow> write_at k bs d ! j = (if k \<le> j \<and> j < k + length bs then bs ! (j - k) else d ! j)"
proof -
  show 1: "length (write_at k bs d) = length d" using assms by (simp add: write_at_def)
  assume "j < length d"
  then show "write_at k bs d ! j = (if k \<le> j \<and> j < k + length bs then bs ! (j - k) else d ! j)"
    using assms by (auto simp: write_at_def nth_append min_def)
qed

lemma put_block:
  assumes g: "fs_geom s" and ok: "file_ok s i" and n: "n < MAXFILE" "fmap s i n = a" "a \<noteq> 0" and k: "keeps cur s s'"
    and v: "blk_view s' = (blk_view s)(a := write_at k0 bs (blk_view s a))" and B: "k0 + length bs \<le> BSIZE"
  shows "fs_geom s'" "marked s' = marked s" "fmap s' i = fmap s i" "fblocks s' i = fblocks s i" "file_ok s' i" "nfree s' = nfree s"
    and "p < MAXFILE * BSIZE \<Longrightarrow> fbyte s' i p =
      (if n * BSIZE + k0 \<le> p \<and> p < n * BSIZE + k0 + length bs then bs ! (p - (n * BSIZE + k0)) else fbyte s i p)"
proof -
  have a: "data_blk s a" "a \<noteq> i_addrs i ! NDIRECT" using ok n by (auto simp: file_ok_def fblocks_def)
  then have la: "length (blk_view s a) = BSIZE" "a \<noteq> bm s" using g by (simp_all add: fs_geom_def data_blk_def home_blk_def)
  have lw: "length (write_at k0 bs (blk_view s a)) = BSIZE" using write_at_nth(1) B la(1) by simp
  show gm: "fs_geom s'" "marked s' = marked s" using geom_upd [OF g k v lw la(2)] by (simp_all add: fun_eq_iff)
  show fm: "fmap s' i = fmap s i" using a(2) by (simp add: fmap_def fun_eq_iff v)
  show fb: "fblocks s' i = fblocks s i" by (simp add: fblocks_def fm)
  show "file_ok s' i" using ok by (simp add: file_ok_def fm fb gm keeps_fields [OF k])
  show "nfree s' = nfree s" by (simp add: nfree_def gm keeps_fields [OF k])
  assume p: "p < MAXFILE * BSIZE"
  then have m: "p div BSIZE < MAXFILE" by (simp add: less_mult_imp_div_less)
  have pm: "p mod BSIZE < BSIZE" "p = (p div BSIZE) * BSIZE + p mod BSIZE" by (simp_all add: BSIZE_def)
  show "fbyte s' i p = (if n * BSIZE + k0 \<le> p \<and> p < n * BSIZE + k0 + length bs then bs ! (p - (n * BSIZE + k0)) else fbyte s i p)"
  proof (cases "p div BSIZE = n")
    case True
    then have "p = n * BSIZE + p mod BSIZE" using pm(2) by simp
    then obtain q where q: "p = n * BSIZE + q" "p mod BSIZE = q" by blast
    have "fbyte s' i p = write_at k0 bs (blk_view s a) ! q" "fbyte s i p = blk_view s a ! q"
      using True n by (simp_all add: fbyte_def fm Let_def v q(2))
    then show ?thesis using write_at_nth(2) [of k0 bs "blk_view s a" q] B la(1) pm(1) q by simp
  next
    case False
    then have "fmap s i (p div BSIZE) \<noteq> a" using ok n m unfolding file_ok_def by metis
    then have "fbyte s' i p = fbyte s i p" by (simp add: fbyte_def fm Let_def v)
    moreover have "\<not> (n * BSIZE + k0 \<le> p \<and> p < n * BSIZE + k0 + length bs)"
    proof
      assume h: "n * BSIZE + k0 \<le> p \<and> p < n * BSIZE + k0 + length bs"
      then have "n * BSIZE \<le> p" "p < Suc n * BSIZE" using B by simp_all
      then have "p div BSIZE = n" by (intro div_nat_eqI) (simp_all add: mult.commute)
      then show False using False by simp
    qed
    ultimately show ?thesis by (simp only: if_False)
  qed
qed

text \<open>One turn of the loop of \<open>writei\<close>.\<close>

lemma write_step:
  assumes w: "writing cur ip (Suc r) s" and p0: "p0 < MAXFILE * BSIZE" and B: "p0 mod BSIZE + length bs \<le> BSIZE" and ne: "bs \<noteq> []"
  shows "\<exists>a s1 s'. bmap cur ip (of_nat (p0 div BSIZE)) s = Ret (a, s1)
    \<and> log_update cur (i_dev (icache s1 ! ip)) a (write_at (p0 mod BSIZE) bs) s1 = Ret s' \<and> wrote_at ip p0 bs s s' \<and> writing cur ip r s'"
proof -
  note W = writingD [OF w]
  define n where "n = p0 div BSIZE"
  have n: "n < MAXFILE" using p0 by (simp add: n_def less_mult_imp_div_less)
  have p0n: "n * BSIZE + p0 mod BSIZE = p0" by (simp add: n_def)
  obtain a s1 where 1: "bmap cur ip (of_nat n) s = Ret (a, s1)" "mapped cur ip r n a s s1"
    "fmap s (icache s ! ip) n \<noteq> 0 \<longrightarrow> icache s1 = icache s" using bmap_ok [OF w n] by blast
  let ?i = "icache s ! ip" and ?j = "icache s1 ! ip"
  have M: "a \<noteq> 0" "fmap s1 ?j n = a" "grown ip s s1" "file_ok s1 ?j" "fblocks s1 ?j \<subseteq> fblocks s ?i \<union> {b. \<not> marked s b}"
    "\<forall>p < MAXFILE * BSIZE. fbyte s1 ?j p = fbyte s ?i p"
    "tx cur {} (log_need s1 ?j + r + (if a \<in> dirty_blks s1 then 0 else 1)) s1" "blk_need ?j + r \<le> nfree s1"
    "\<forall>m < MAXFILE. m \<noteq> n \<longrightarrow> fmap s1 ?j m = fmap s ?i m" using 1(2) unfolding mapped_def by blast+
  have G: "fs_geom s1" "sb s1 = sb s" "same_log s s1" "\<forall>b. marked s b \<longrightarrow> marked s1 b"
    "\<forall>b. marked s b \<and> b \<noteq> bm s \<and> b \<noteq> i_addrs ?i ! NDIRECT \<longrightarrow> blk_view s1 b = blk_view s b"
    using M(3) unfolding grown_def by blast+
  obtain as where ic: "icache s1 = (icache s)[ip := ?i\<lparr>i_addrs := as\<rparr>]" using M(3) unfolding grown_def by blast
  have af: "a \<in> fblocks s1 ?j" using M(1,2) n by (auto simp: fblocks_def)
  then have a: "home_blk s1 a" "i_dev ?j = 1" using M(4) by (simp_all add: file_ok_def data_blk_def)
  have kk: "a \<in> dirty_blks s1 \<or> 0 < log_need s1 ?j + r + (if a \<in> dirty_blks s1 then 0 else 1)" by simp
  obtain s' where 2: "log_update cur 1 a (write_at (p0 mod BSIZE) bs) s1 = Ret s'" "tx cur {} (log_need s1 ?j + r) s'"
    "blk_view s' = (blk_view s1)(a := write_at (p0 mod BSIZE) bs (blk_view s1 a))" "dirty_blks s' = insert a (dirty_blks s1)" "keeps cur s1 s'"
    using tx_update [OF M(7) _ _ a(1) kk, of "write_at (p0 mod BSIZE) bs"] by auto
  note K = keeps_fields [OF 2(5)] and U = put_block [OF G(1) M(4) n M(2,1) 2(5,3) B, unfolded p0n]
  have "log_need s' ?j \<le> log_need s1 ?j" by (simp add: log_need_def 2(4) K)
  then have "tx cur {} (log_need s' ?j + r) s'" using tx_weaken [OF 2(2)] by simp
  then have wr: "writing cur ip r s'" using U W(3) M(8) by (simp add: writing_def K ic)
  have sl: "same_log s s'" using G(3) 2(5) same_log_trans unfolding keeps_def by blast
  have vw: "blk_view s' b = blk_view s b" if "marked s b" "b \<noteq> 0" "b \<noteq> bm s" "b \<notin> fblocks s ?i" for b
  proof -
    have "b \<noteq> a" "b \<noteq> i_addrs ?i ! NDIRECT" using that af M(5) by (auto simp: fblocks_def)
    then show ?thesis using G(5) that 2(3) by simp
  qed
  have sub: "fblocks s' ?j \<subseteq> fblocks s ?i \<union> {b. \<not> marked s b}" using M(5) U(4) by simp
  have byt: "\<forall>p < MAXFILE * BSIZE. fbyte s' ?j p = (if p0 \<le> p \<and> p < p0 + length bs then bs ! (p - p0) else fbyte s ?i p)"
    using U(7) M(6) by simp
  have in_size: "icache s1 = icache s" if "bs \<noteq> []" "p0 + length bs \<le> unat (i_size ?i)"
  proof -
    have "n * BSIZE < unat (i_size ?i)" using that p0n by (cases bs) auto
    then show ?thesis using W(4) 1(3) by (simp add: file_ok_def)
  qed
  have holes: "fmap s' ?j m \<noteq> 0" if "m < MAXFILE" "fmap s ?i m \<noteq> 0 \<or> (bs \<noteq> [] \<and> n \<le> m \<and> m * BSIZE < p0 + length bs)" for m
  proof (cases "m = n")
    case False
    have "\<not> (n \<le> m \<and> m * BSIZE < p0 + length bs)"
    proof
      assume h: "n \<le> m \<and> m * BSIZE < p0 + length bs"
      then have "Suc n * BSIZE \<le> m * BSIZE" using False by (intro mult_le_mono1) simp
      then show False using h p0n B by simp
    qed
    then show ?thesis using that False M(9) U(3) by auto
  qed (simp add: U(3) M(1,2))
  have mk: "\<forall>b. marked s b \<longrightarrow> marked s' b" using G(4) U(2) by simp
  have "wrote_at ip p0 bs s s'"
    unfolding wrote_at_def K n_def [symmetric] using U(1,5) G(2) sl mk ic sub byt in_size [OF ne] holes vw by (intro conjI; blast)
  then show ?thesis using 1(1) 2(1) a(2) wr ne by (auto simp: n_def)
qed

lemma wrote_at_Nil: "fs_geom s \<Longrightarrow> file_ok s (icache s ! ip) \<Longrightarrow> wrote_at ip p [] s s"
  unfolding wrote_at_def by (auto intro!: exI [of _ "i_addrs (icache s ! ip)"])

lemma wrote_at_append:
  assumes 1: "wrote_at ip p bs s s1" and 2: "wrote_at ip (p + length bs) cs s1 s2" and ip: "ip < length (icache s)" and ok: "file_ok s (icache s ! ip)"
  shows "wrote_at ip p (bs @ cs) s s2"
proof -
  let ?i = "icache s ! ip" and ?i1 = "icache s1 ! ip" and ?i2 = "icache s2 ! ip"
  have A: "fs_geom s1" "sb s1 = sb s" "same_log s s1" "\<forall>b. marked s b \<longrightarrow> marked s1 b"
    "\<forall>b. marked s b \<and> b \<noteq> 0 \<and> b \<noteq> bm s \<and> b \<notin> fblocks s ?i \<longrightarrow> blk_view s1 b = blk_view s b"
    "fblocks s1 ?i1 \<subseteq> fblocks s ?i \<union> {b. \<not> marked s b}"
    "\<forall>q < MAXFILE * BSIZE. fbyte s1 ?i1 q = (if p \<le> q \<and> q < p + length bs then bs ! (q - p) else fbyte s ?i q)"
    "p + length bs \<le> unat (i_size ?i) \<longrightarrow> icache s1 = icache s"
    "\<forall>n < MAXFILE. fmap s ?i n \<noteq> 0 \<or> (bs \<noteq> [] \<and> p div BSIZE \<le> n \<and> n * BSIZE < p + length bs) \<longrightarrow> fmap s1 ?i1 n \<noteq> 0"
    using 1 unfolding wrote_at_def by - (elim conjE, assumption)+
  have B: "fs_geom s2" "sb s2 = sb s1" "same_log s1 s2" "\<forall>b. marked s1 b \<longrightarrow> marked s2 b"
    "\<forall>b. marked s1 b \<and> b \<noteq> 0 \<and> b \<noteq> bm s1 \<and> b \<notin> fblocks s1 ?i1 \<longrightarrow> blk_view s2 b = blk_view s1 b"
    "file_ok s2 ?i2" "fblocks s2 ?i2 \<subseteq> fblocks s1 ?i1 \<union> {b. \<not> marked s1 b}"
    "\<forall>q < MAXFILE * BSIZE. fbyte s2 ?i2 q = (if p + length bs \<le> q \<and> q < p + length bs + length cs then cs ! (q - (p + length bs)) else fbyte s1 ?i1 q)"
    "p + length bs + length cs \<le> unat (i_size ?i1) \<longrightarrow> icache s2 = icache s1"
    "\<forall>n < MAXFILE. fmap s1 ?i1 n \<noteq> 0 \<or> (cs \<noteq> [] \<and> (p + length bs) div BSIZE \<le> n \<and> n * BSIZE < p + length bs + length cs) \<longrightarrow> fmap s2 ?i2 n \<noteq> 0"
    using 2 unfolding wrote_at_def by - (elim conjE, assumption)+
  obtain as bs' where ic: "icache s1 = (icache s)[ip := ?i\<lparr>i_addrs := as\<rparr>]" "icache s2 = (icache s1)[ip := ?i1\<lparr>i_addrs := bs'\<rparr>]"
    using 1 2 unfolding wrote_at_def by (elim conjE exE) (rule that)
  have ic2: "icache s2 = (icache s)[ip := ?i\<lparr>i_addrs := bs'\<rparr>]" "i_size ?i1 = i_size ?i" using ic ip by simp_all
  have vw: "blk_view s2 b = blk_view s b" if "marked s b" "b \<noteq> 0" "b \<noteq> bm s" "b \<notin> fblocks s ?i" for b
  proof -
    have "b \<notin> fblocks s1 ?i1" using that A(6) by blast
    then show ?thesis using that A(2,4,5) B(5) by simp
  qed
  have byt: "fbyte s2 ?i2 q = (if p \<le> q \<and> q < p + length (bs @ cs) then (bs @ cs) ! (q - p) else fbyte s ?i q)" if "q < MAXFILE * BSIZE" for q
  proof -
    have e: "fbyte s2 ?i2 q = (if p + length bs \<le> q \<and> q < p + length bs + length cs then cs ! (q - (p + length bs)) else fbyte s1 ?i1 q)"
      "fbyte s1 ?i1 q = (if p \<le> q \<and> q < p + length bs then bs ! (q - p) else fbyte s ?i q)" using that A(7) B(8) by blast+
    show ?thesis unfolding e by (auto simp: nth_append)
  qed
  have sz: "icache s2 = icache s" if "p + length (bs @ cs) \<le> unat (i_size ?i)" using that A(8) B(9) ic2(2) by simp
  have hole: "fmap s2 ?i2 n \<noteq> 0" if n: "n < MAXFILE" and h: "fmap s ?i n \<noteq> 0 \<or> (bs @ cs \<noteq> [] \<and> p div BSIZE \<le> n \<and> n * BSIZE < p + length (bs @ cs))" for n
  proof (cases "fmap s ?i n \<noteq> 0 \<or> bs \<noteq> [] \<and> p div BSIZE \<le> n \<and> n * BSIZE < p + length bs")
    case True
    then show ?thesis using n A(9) B(10) by blast
  next
    case False
    then have c: "bs = [] \<or> p + length bs \<le> n * BSIZE" "p div BSIZE \<le> n" "bs @ cs \<noteq> []" "n * BSIZE < p + length bs + length cs" using h by auto
    have d: "(p + length bs) div BSIZE \<le> n"
    proof (cases "bs = []")
      case False
      then have "(p + length bs) div BSIZE \<le> n * BSIZE div BSIZE" using c(1) by (intro div_le_mono) simp
      then show ?thesis by (simp add: BSIZE_def)
    qed (use c in simp)
    have "cs \<noteq> []" using c by auto
    then show ?thesis using n d c(4) B(10) by blast
  qed
  have m2: "\<forall>b. marked s b \<longrightarrow> marked s2 b" and sub: "fblocks s2 ?i2 \<subseteq> fblocks s ?i \<union> {b. \<not> marked s b}" using A(4,6) B(4,7) by blast+
  have sb2: "sb s2 = sb s" using A(2) B(2) by simp
  have sl: "same_log s s2" using A(3) B(3) same_log_trans by blast
  show ?thesis
    unfolding wrote_at_def using B(1,6) sb2 sl ic2(1) m2 vw sub byt sz hole by (intro conjI; blast)
qed

text \<open>The blocks that a write of \<open>n\<close> bytes at \<open>p\<close> touches, which is the number of turns of the loop.\<close>

definition nblocks :: "nat \<Rightarrow> nat \<Rightarrow> nat" where
  "nblocks p n = (if n = 0 then 0 else (p + n - 1) div BSIZE - p div BSIZE + 1)"

lemma unat_chunk: "unat (chunk off n) = min (unat n) (BSIZE - unat off mod BSIZE)"
proof -
  have "unat (off mod 512) = unat off mod 512" by (simp add: unat_mod_distrib)
  moreover have "off mod 512 < 512" by (simp add: word_mod_less_divisor)
  ultimately have "unat (512 - off mod 512) = 512 - unat off mod 512" by (simp add: unat_sub word_le_nat_alt)
  then show ?thesis by (auto simp: chunk_def BSIZE_def min_def word_le_nat_alt)
qed

lemma nblocks_step:
  assumes "0 < n" and "m = min n (BSIZE - p mod BSIZE)"
  shows "nblocks p n = Suc (nblocks (p + m) (n - m))"
proof (cases "n \<le> BSIZE - p mod BSIZE")
  case True
  have "p = p div BSIZE * BSIZE + p mod BSIZE" by simp
  then have "p + n - 1 < p div BSIZE * BSIZE + BSIZE" "p div BSIZE * BSIZE \<le> p + n - 1" using True assms(1) by linarith+
  then have "(p + n - 1) div BSIZE = p div BSIZE" by (intro div_nat_eqI) (simp_all add: mult.commute)
  then show ?thesis using True assms by (simp add: nblocks_def)
next
  case False
  have pm: "p mod BSIZE < BSIZE" "p = p div BSIZE * BSIZE + p mod BSIZE" by (simp_all add: BSIZE_def)
  have m: "m = BSIZE - p mod BSIZE" using False assms(2) by simp
  have e: "p + m = Suc (p div BSIZE) * BSIZE" using pm m unfolding mult_Suc by linarith
  have "Suc (p div BSIZE) * BSIZE \<le> p + n - 1" using e False m by linarith
  then have "Suc (p div BSIZE) * BSIZE div BSIZE \<le> (p + n - 1) div BSIZE" by (rule div_le_mono)
  then have "Suc (p div BSIZE) \<le> (p + n - 1) div BSIZE" by (simp add: BSIZE_def)
  moreover have "(p + m) div BSIZE = Suc (p div BSIZE)" unfolding e by (simp add: BSIZE_def)
  moreover have "p + m + (n - m) - 1 = p + n - 1" "0 < n - m" using False m by linarith+
  ultimately show ?thesis using assms(1) by (simp add: nblocks_def)
qed

lemma writei_loop_ok:
  assumes "writing cur ip (nblocks (unat off) (unat n) + r) s" and "unat off + unat n \<le> MAXFILE * BSIZE" and "unat n \<le> length src"
  shows "\<exists>s'. writei_loop cur ip src off n s = Ret (off + n, s') \<and> wrote_at ip (unat off) (take (unat n) src) s s' \<and> writing cur ip r s'"
  using assms
proof (induction "unat n" arbitrary: n src off s rule: less_induct)
  case less
  note w = less.prems(1) and W = writingD [OF less.prems(1)]
  show ?case
  proof (cases "n = 0")
    case True
    then show ?thesis using w W(2,4) by (simp add: writei_loop.simps wrote_at_Nil nblocks_def)
  next
    case False
    define m where "m = chunk off n"
    define bs where "bs = take (unat m) src"
    have um: "unat m = min (unat n) (BSIZE - unat off mod BSIZE)" by (simp add: m_def unat_chunk)
    have n0: "0 < unat n" using False by (simp add: word_gt_0 unat_gt_0)
    have ob: "unat off mod BSIZE < BSIZE" by (simp add: BSIZE_def)
    have m0: "0 < unat m" "unat m \<le> unat n" "unat m \<le> BSIZE - unat off mod BSIZE" using n0 ob um by linarith+
    have lb: "length bs = unat m" using m0 less.prems(3) by (simp add: bs_def)
    have ne: "bs \<noteq> []" using lb m0(1) by auto
    have sum: "unat (off + m) = unat off + unat m" "unat (n - m) = unat n - unat m"
      using m0 less.prems(2) by (simp_all add: unat_word_ariths(1) unat_sub word_le_nat_alt fs_consts)
    have nb: "nblocks (unat off) (unat n) + r = Suc (nblocks (unat (off + m)) (unat (n - m)) + r)"
      using nblocks_step [OF n0 um] sum by simp
    have p0: "unat off < MAXFILE * BSIZE" and B: "unat off mod BSIZE + length bs \<le> BSIZE" using n0 less.prems(2) m0(3) lb ob by linarith+
    have o32: "unat off div BSIZE < 2 ^ 32"
      by (rule le_less_trans [OF div_le_dividend]) (use unsigned_less [of off, where 'a = nat] in simp)
    have dv: "off div of_nat BSIZE = of_nat (unat off div BSIZE)"
      by (rule word_unat_eq_iff [THEN iffD2], subst unat_of_nat32 [OF o32]) (simp add: BSIZE_def unat_div)
    obtain a s1 s2 where 1: "bmap cur ip (of_nat (unat off div BSIZE)) s = Ret (a, s1)"
      "log_update cur (i_dev (icache s1 ! ip)) a (write_at (unat off mod BSIZE) bs) s1 = Ret s2"
      "wrote_at ip (unat off) bs s s2" "writing cur ip (nblocks (unat (off + m)) (unat (n - m)) + r) s2"
      using write_step [OF w [unfolded nb] p0 B ne] by blast
    have lt: "unat (n - m) < unat n" "unat (off + m) + unat (n - m) \<le> MAXFILE * BSIZE" "unat (n - m) \<le> length (drop (unat m) src)"
      using sum m0 less.prems(2,3) by simp_all
    obtain s' where 2: "writei_loop cur ip (drop (unat m) src) (off + m) (n - m) s2 = Ret (off + m + (n - m), s')"
      "wrote_at ip (unat (off + m)) (take (unat (n - m)) (drop (unat m) src)) s2 s'" "writing cur ip r s'"
      using less.hyps [OF lt(1) 1(4) lt(2,3)] by blast
    have "wrote_at ip (unat off) (bs @ take (unat (n - m)) (drop (unat m) src)) s s'"
      by (rule wrote_at_append [OF 1(3) _ W(3,4)]) (use 2(2) sum lb in simp)
    moreover have "bs @ take (unat (n - m)) (drop (unat m) src) = take (unat n) src"
      using m0 sum by (simp add: bs_def take_add [symmetric])
    moreover have "writei_loop cur ip src off n s = Ret (off + n, s')"
      using 1(1,2) 2(1) False by (subst writei_loop.simps) (simp add: dv m_def [symmetric] bs_def [symmetric])
    ultimately show ?thesis using 2(3) by auto
  qed
qed

section \<open>The inode on disk\<close>

definition dinode_of :: "inode \<Rightarrow> dinode" where
  "dinode_of i = \<lparr>d_type = i_type i, d_major = i_major i, d_minor = i_minor i, d_nlink = i_nlink i, d_size = i_size i, d_addrs = i_addrs i\<rparr>"

definition iblk :: "'a fsst_scheme \<Rightarrow> inode \<Rightarrow> u32" where
  "iblk s i = IBLOCK (i_inum i) (sb s)"

definition has_dinode :: "'a fsst_scheme \<Rightarrow> inode \<Rightarrow> bool" where
  "has_dinode s i \<longleftrightarrow> unat (i_inum i) < unat (sb_ninodes (sb s)) \<and> in_fs s (iblk s i) \<and> iblk s i \<noteq> 0"

text \<open>The inode's block, as the cache has it, holds what the inode has.\<close>

definition synced :: "'a fsst_scheme \<Rightarrow> inode \<Rightarrow> bool" where
  "synced s i \<longleftrightarrow> get_dinode (blk_view s (iblk s i)) (ioff (i_inum i)) = dinode_of i"

lemma get16_put32s_before: "j + 2 \<le> k \<Longrightarrow> get16 (put32s d k vs) j = get16 d j"
  by (induction vs rule: rev_induct) (simp_all add: put32s_snoc get_put_other, simp add: put32s_def)

lemma get_put_dinode:
  assumes "k + 64 \<le> length d" and "length (d_addrs di) = NDIRECT + 1"
  shows "get_dinode (put_dinode d k di) k = di"
proof -
  have l: "NDIRECT + 1 = length (d_addrs di)" using assms(2) by simp
  have a: "get32s (put_dinode d k di) (k + 12) (NDIRECT + 1) = d_addrs di"
    unfolding put_dinode_def l by (rule get32s_put32s) (use assms in \<open>simp add: NDIRECT_def\<close>)
  show ?thesis
    unfolding get_dinode_def a using assms(1)
    by (simp add: put_dinode_def get16_put32s_before get32_put32s_before get_put_other)
qed

lemma ioff_bound: "ioff i + 64 \<le> BSIZE"
proof -
  have "unat i mod IPB < IPB" by (rule mod_less_divisor) (simp add: fs_consts)
  then show ?thesis by (simp add: ioff_def fs_consts)
qed

lemma iblk_facts:
  assumes "fs_geom s" and "has_dinode s i"
  shows "inode_blk s (iblk s i)" "home_blk s (iblk s i)" "iblk s i \<noteq> bm s" "marked s (iblk s i)" "length (blk_view s (iblk s i)) = BSIZE"
proof -
  show 1: "inode_blk s (iblk s i)" using assms(2) by (auto simp: inode_blk_def iblk_def has_dinode_def)
  then show 2: "home_blk s (iblk s i)" using assms(1) by (simp add: fs_geom_def)
  show "iblk s i \<noteq> bm s" using 1 assms(1) by (auto simp: fs_geom_def)
  show "marked s (iblk s i)" using 1 assms by (auto simp: fs_geom_def data_blk_def has_dinode_def)
  show "length (blk_view s (iblk s i)) = BSIZE" using 2 assms(1) by (simp add: fs_geom_def home_blk_def)
qed

lemma iupdate_ok:
  fixes s :: "'a fsst_scheme" and ip :: nat
  defines "i \<equiv> \<lambda>s. icache (s :: 'a fsst_scheme) ! ip"
  assumes t: "tx cur {} (Suc k) s" and g: "fs_geom s" and d: "i_dev (i s) = 1" "length (i_addrs (i s)) = NDIRECT + 1" and h: "has_dinode s (i s)"
  shows "\<exists>s'. iupdate cur ip s = Ret s' \<and> tx cur {} k s' \<and> synced s' (i s') \<and> keeps cur s s' \<and> fs_geom s' \<and> marked s' = marked s
    \<and> dirty_blks s' = insert (iblk s (i s)) (dirty_blks s) \<and> (\<forall>b. b \<noteq> iblk s (i s) \<longrightarrow> blk_view s' b = blk_view s b)"
proof -
  note I = iblk_facts [OF g h]
  let ?b = "iblk s (i s)" and ?f = "\<lambda>x. put_dinode x (ioff (i_inum (i s))) (dinode_of (i s))"
  obtain s' where 1: "log_update cur 1 ?b ?f s = Ret s'" "tx cur {} (Suc k - (if ?b \<in> dirty_blks s then 0 else 1)) s'"
    "blk_view s' = (blk_view s)(?b := ?f (blk_view s ?b))" "dirty_blks s' = insert ?b (dirty_blks s)" "keeps cur s s'"
    using tx_update [OF t _ _ I(2), of ?f] by auto
  note K = keeps_fields [OF 1(5)]
  have lf: "length (?f (blk_view s ?b)) = BSIZE" using I(5) by (simp add: put_dinode_def)
  note G = geom_upd [OF g 1(5,3) lf I(3)]
  have "synced s' (i s')"
    unfolding synced_def iblk_def i_def K 1(3)
    using get_put_dinode [of "ioff (i_inum (i s))" "blk_view s ?b" "dinode_of (i s)"] ioff_bound [of "i_inum (i s)"] I(5) d(2)
    by (simp add: iblk_def i_def dinode_of_def)
  moreover have "tx cur {} k s'" by (rule tx_weaken [OF 1(2)]) simp
  moreover have "iupdate cur ip s = Ret s'" using 1(1) d(1) by (simp add: iupdate_def iblk_def i_def dinode_of_def)
  moreover have "marked s' = marked s" using G(1) by (simp add: fun_eq_iff)
  ultimately show ?thesis using 1 G(2) by auto
qed

section \<open>writei\<close>

text \<open>
  What a write of \<open>bs\<close> at the offset \<open>p\<close> of the file \<open>ip\<close> does: these bytes change and no others, the file grows to hold them,
  and no other inode and no file on other blocks changes.
\<close>

definition file_written :: "nat \<Rightarrow> nat \<Rightarrow> u8 list \<Rightarrow> 'a fsst_scheme \<Rightarrow> 'a fsst_scheme \<Rightarrow> bool" where
  "file_written ip p bs s s' \<longleftrightarrow>
     unat (i_size (icache s' ! ip)) = max (unat (i_size (icache s ! ip))) (p + length bs)
     \<and> icache s' ! ip = (icache s ! ip)\<lparr>i_size := i_size (icache s' ! ip), i_addrs := i_addrs (icache s' ! ip)\<rparr>
     \<and> (\<forall>q < MAXFILE * BSIZE. fbyte s' (icache s' ! ip) q =
          (if p \<le> q \<and> q < p + length bs then bs ! (q - p) else fbyte s (icache s ! ip) q))
     \<and> (\<forall>j. j \<noteq> ip \<longrightarrow> icache s' ! j = icache s ! j)
     \<and> (\<forall>j. file_ok s j \<and> fblocks s j \<inter> fblocks s (icache s ! ip) = {} 
          \<longrightarrow> file_ok s' j \<and> (\<forall>q < MAXFILE * BSIZE. fbyte s' j q = fbyte s j q))"

lemma same_blocks:
  assumes ok: "file_ok s j" and v: "\<forall>b \<in> fblocks s j. blk_view s' b = blk_view s b"
    and m: "\<forall>b. marked s b \<longrightarrow> marked s' b" and d: "data_blk s' = data_blk s"
  shows "file_ok s' j" "fmap s' j = fmap s j" and "q < MAXFILE * BSIZE \<Longrightarrow> fbyte s' j q = fbyte s j q"
proof -
  show f: "fmap s' j = fmap s j" using v by (auto simp: fmap_def fblocks_def fun_eq_iff)
  then have b: "fblocks s' j = fblocks s j" by (simp add: fblocks_def)
  show "file_ok s' j" using ok m unfolding file_ok_def f b d by blast
  assume "q < MAXFILE * BSIZE"
  then have "q div BSIZE < MAXFILE" by (simp add: less_mult_imp_div_less)
  then have "fmap s j (q div BSIZE) \<noteq> 0 \<Longrightarrow> fmap s j (q div BSIZE) \<in> fblocks s j" by (simp add: fblocks_def)
  then show "fbyte s' j q = fbyte s j q" using v by (auto simp: fbyte_def f Let_def)
qed

text \<open>The size is set once the loop is done: there are no holes below the new one.\<close>

lemma size_ok:
  assumes ok: "file_ok s i" and z: "unat z \<le> MAXFILE * BSIZE" and holes: "\<And>n. n * BSIZE < unat z \<Longrightarrow> fmap s i n \<noteq> 0"
  shows "file_ok s (i\<lparr>i_size := z\<rparr>)" "fmap s (i\<lparr>i_size := z\<rparr>) = fmap s i" "fblocks s (i\<lparr>i_size := z\<rparr>) = fblocks s i"
    "fbyte s (i\<lparr>i_size := z\<rparr>) = fbyte s i"
proof -
  show f: "fmap s (i\<lparr>i_size := z\<rparr>) = fmap s i" by (simp add: fmap_def fun_eq_iff)
  show b: "fblocks s (i\<lparr>i_size := z\<rparr>) = fblocks s i" by (simp add: fblocks_def f)
  show "fbyte s (i\<lparr>i_size := z\<rparr>) = fbyte s i" by (simp add: fbyte_def f fun_eq_iff)
  show "file_ok s (i\<lparr>i_size := z\<rparr>)" using ok z holes unfolding file_ok_def f b by simp
qed

lemma wrote_at_D:
  assumes "wrote_at ip p bs s s'"
  shows "fs_geom s'" "sb s' = sb s" "same_log s s'" "\<forall>b. marked s b \<longrightarrow> marked s' b" "file_ok s' (icache s' ! ip)"
    "\<forall>b. marked s b \<and> b \<noteq> 0 \<and> b \<noteq> bm s \<and> b \<notin> fblocks s (icache s ! ip) \<longrightarrow> blk_view s' b = blk_view s b"
    "\<forall>q < MAXFILE * BSIZE. fbyte s' (icache s' ! ip) q = (if p \<le> q \<and> q < p + length bs then bs ! (q - p) else fbyte s (icache s ! ip) q)"
    "p + length bs \<le> unat (i_size (icache s ! ip)) \<longrightarrow> icache s' = icache s"
    "\<forall>n < MAXFILE. fmap s (icache s ! ip) n \<noteq> 0 \<or> (bs \<noteq> [] \<and> p div BSIZE \<le> n \<and> n * BSIZE < p + length bs) \<longrightarrow> fmap s' (icache s' ! ip) n \<noteq> 0"
    "\<exists>as. icache s' = (icache s)[ip := (icache s ! ip)\<lparr>i_addrs := as\<rparr>]"
    "fblocks s' (icache s' ! ip) \<subseteq> fblocks s (icache s ! ip) \<union> {b. \<not> marked s b}"
  using assms unfolding wrote_at_def by - (elim conjE, assumption)+

lemma wrote_others:
  assumes w: "wrote_at ip p bs s s1" and ok: "file_ok s j" "fblocks s j \<inter> fblocks s (icache s ! ip) = {}"
    and v: "\<And>b. data_blk s b \<Longrightarrow> blk_view s' b = blk_view s1 b" and m: "\<forall>b. marked s b \<longrightarrow> marked s' b" and d: "data_blk s' = data_blk s"
  shows "file_ok s' j" and "q < MAXFILE * BSIZE \<Longrightarrow> fbyte s' j q = fbyte s j q"
proof -
  have e: "blk_view s' b = blk_view s b" if "b \<in> fblocks s j" for b
  proof -
    have b: "data_blk s b" "marked s b" using ok(1) that by (simp_all add: file_ok_def)
    then have "b \<noteq> 0" "b \<noteq> bm s" "b \<notin> fblocks s (icache s ! ip)" using ok(2) that by (auto simp: data_blk_def)
    then show ?thesis using v [OF b(1)] wrote_at_D(6) [OF w] b(2) by simp
  qed
  show "file_ok s' j" "q < MAXFILE * BSIZE \<Longrightarrow> fbyte s' j q = fbyte s j q" using same_blocks [OF ok(1) _ m d] e by blast+
qed

lemma writei_within:
  assumes w: "wrote_at ip p bs s s1" and z: "p + length bs \<le> unat (i_size (icache s ! ip))" and g: "fs_geom s"
    and h: "has_dinode s (icache s ! ip)" "synced s (icache s ! ip)" and ok: "file_ok s (icache s ! ip)"
  shows "file_written ip p bs s s1 \<and> synced s1 (icache s1 ! ip)"
proof
  note D = wrote_at_D [OF w] and I = iblk_facts [OF g h(1)]
  have ic: "icache s1 = icache s" using D(8) z by blast
  have ls: "log_start s1 = log_start s" using D(3) by (simp add: same_log_def)
  note F = fields_cong [OF D(2) ls]
  have "iblk s (icache s ! ip) \<notin> fblocks s (icache s ! ip)" using I(1) ok by (auto simp: file_ok_def data_blk_def)
  then have "blk_view s1 (iblk s (icache s ! ip)) = blk_view s (iblk s (icache s ! ip))" using D(6) I(3,4) h(1) by (simp add: has_dinode_def)
  then show "synced s1 (icache s1 ! ip)" using h(2) by (simp add: synced_def iblk_def D(2) ic)
  have "max (unat (i_size (icache s ! ip))) (p + length bs) = unat (i_size (icache s1 ! ip))" using z ic by simp
  then show "file_written ip p bs s s1"
    unfolding file_written_def using D(7) ic wrote_others [OF w _ _ refl D(4) F(4)] by simp
qed

lemma writei_grow:
  assumes w: "wrote_at ip p bs s s1" and z: "unat (i_size (icache s ! ip)) < p + length bs" "p \<le> unat (i_size (icache s ! ip))"
    "unat e = p + length bs" "unat e \<le> MAXFILE * BSIZE"
    and h: "has_dinode s (icache s ! ip)" and ok: "file_ok s (icache s ! ip)" and ip: "ip < length (icache s)" and t: "tx cur {} (Suc k) s1"
  shows "\<exists>s'. iupdate cur ip (upd_inode ip (\<lambda>i. i\<lparr>i_size := e\<rparr>) s1) = Ret s' \<and> tx cur {} k s' \<and> fs_geom s'
    \<and> file_written ip p bs s s' \<and> synced s' (icache s' ! ip) \<and> file_ok s' (icache s' ! ip)"
proof -
  note D = wrote_at_D [OF w]
  define s2 where "s2 = upd_inode ip (\<lambda>i. i\<lparr>i_size := e\<rparr>) s1"
  let ?i = "icache s ! ip" and ?i1 = "icache s1 ! ip" and ?i2 = "icache s2 ! ip"
  obtain as where ic: "icache s1 = (icache s)[ip := ?i\<lparr>i_addrs := as\<rparr>]" using D(10) by blast
  have ic2: "icache s2 = (icache s1)[ip := ?i1\<lparr>i_size := e\<rparr>]" "?i2 = ?i1\<lparr>i_size := e\<rparr>" using ip ic by (simp_all add: s2_def)
  have holes: "fmap s1 ?i1 n \<noteq> 0" if n: "n * BSIZE < unat e" for n
  proof -
    have "n < MAXFILE" using n z(4) by (simp add: fs_consts)
    moreover have "fmap s ?i n \<noteq> 0 \<or> bs \<noteq> [] \<and> p div BSIZE \<le> n"
    proof (cases "n * BSIZE < unat (i_size ?i)")
      case False
      then have "p div BSIZE \<le> n * BSIZE div BSIZE" using z(2) by (intro div_le_mono) simp
      moreover have "bs \<noteq> []" using z by auto
      ultimately show ?thesis by (simp add: BSIZE_def)
    qed (use ok in \<open>simp add: file_ok_def\<close>)
    ultimately show ?thesis using D(9) n z(3) by auto
  qed
  note Z = size_ok [OF D(5) z(4) holes]
  have t2: "tx cur {} (Suc k) s2" and g2: "fs_geom s2" using t D(1) by (simp_all add: s2_def)
  have dv: "i_dev ?i2 = 1" "length (i_addrs ?i2) = NDIRECT + 1" using D(5) ic2 by (simp_all add: file_ok_def)
  have ib: "iblk s2 ?i2 = iblk s ?i" using ip by (simp add: iblk_def ic2 ic, simp add: s2_def D(2))
  have h2: "has_dinode s2 ?i2" using h ip ib by (simp add: has_dinode_def ic2 ic, simp add: s2_def D(2) in_fs_def)
  obtain s' where 1: "iupdate cur ip s2 = Ret s'" "tx cur {} k s'" "synced s' (icache s' ! ip)" "keeps cur s2 s'" "fs_geom s'"
    "marked s' = marked s2" "\<forall>b. b \<noteq> iblk s2 ?i2 \<longrightarrow> blk_view s' b = blk_view s2 b"
    using iupdate_ok [OF t2 g2 dv h2] by blast
  note K = keeps_fields [OF 1(4)]
  have ls: "log_start s1 = log_start s" using D(3) by (simp add: same_log_def)
  note F = fields_cong [OF D(2) ls]
  have db: "data_blk s' = data_blk s" "data_blk s2 = data_blk s" by (simp_all add: K s2_def F)
  have vd: "blk_view s' b = blk_view s1 b" if "data_blk s b" for b
  proof -
    have "inode_blk s (iblk s2 ?i2)" using iblk_facts(1) [OF g2 h2] by (simp add: s2_def F)
    then have "b \<noteq> iblk s2 ?i2" using that by (auto simp: data_blk_def)
    then show ?thesis using 1(7) by (simp add: s2_def)
  qed
  have mk: "\<forall>b. marked s b \<longrightarrow> marked s' b" using D(4) by (simp add: 1(6) s2_def)
  have ok1: "file_ok s1 ?i2" unfolding ic2(2) by (rule Z(1))
  have ve: "\<forall>b \<in> fblocks s1 ?i2. blk_view s' b = blk_view s1 b" using ok1 vd F(4) by (simp add: file_ok_def)
  have m1: "\<forall>b. marked s1 b \<longrightarrow> marked s' b" by (simp add: 1(6) s2_def)
  have d1: "data_blk s' = data_blk s1" by (simp add: db F)
  note S = same_blocks [OF ok1 ve m1 d1]
  have i': "icache s' ! ip = ?i2" by (simp add: K)
  have "fbyte s' ?i2 q = (if p \<le> q \<and> q < p + length bs then bs ! (q - p) else fbyte s ?i q)" if "q < MAXFILE * BSIZE" for q
    using S(3) [OF that] D(7) that by (simp add: ic2(2) Z(4))
  moreover have "unat (i_size ?i2) = max (unat (i_size ?i)) (p + length bs)" using z by (simp add: ic2(2))
  moreover have "icache s' ! j = icache s ! j" if "j \<noteq> ip" for j using that by (simp add: K ic2 ic)
  moreover have "?i2 = ?i\<lparr>i_size := i_size ?i2, i_addrs := i_addrs ?i2\<rparr>" using ip by (simp add: ic2(2) ic)
  ultimately have "file_written ip p bs s s'"
    unfolding file_written_def i' using wrote_others [OF w _ _ vd mk db(1)] by blast
  then show ?thesis using 1 S(1) by (auto simp: s2_def [symmetric] i')
qed

lemma writei_ok:
  assumes w: "writing cur ip (nblocks (unat off) (unat n) + Suc r) s" and ty: "i_type (icache s ! ip) \<noteq> T_DEV"
    and h: "has_dinode s (icache s ! ip)" "synced s (icache s ! ip)"
    and z: "unat off \<le> unat (i_size (icache s ! ip))" "unat off + unat n \<le> MAXFILE * BSIZE" "unat n \<le> length src"
  shows "\<exists>s'. writei devsw cur ip src off n s = Ret (n, s') \<and> file_written ip (unat off) (take (unat n) src) s s'
    \<and> file_ok s' (icache s' ! ip) \<and> synced s' (icache s' ! ip) \<and> fs_geom s' \<and> tx cur {} r s'"
proof -
  note W = writingD [OF w]
  obtain s1 where 1: "writei_loop cur ip src off n s = Ret (off + n, s1)" "wrote_at ip (unat off) (take (unat n) src) s s1" "writing cur ip (Suc r) s1"
    using writei_loop_ok [OF w z(2,3)] by blast
  note D = wrote_at_D [OF 1(2)] and W1 = writingD [OF 1(3)]
  have lb: "length (take (unat n) src) = unat n" using z(3) by simp
  have t1: "tx cur {} (Suc r) s1" by (rule tx_weaken [OF W1(1)]) simp
  have M: "MAXFILE * BSIZE = 71680" by (simp add: fs_consts)
  have u: "unat (off + n) = unat off + unat n" using z(2) by (simp add: unat_word_ariths(1) M)
  have sz: "i_size (icache s1 ! ip) = i_size (icache s ! ip)" using D(10) W(3) by auto
  have c: "\<not> (off > i_size (icache s ! ip) \<or> off + n < off)" "\<not> off + n > of_nat (MAXFILE * BSIZE)"
    using z u by (simp_all add: word_less_nat_alt M)
  have run: "writei devsw cur ip src off n s = (if n > 0 \<and> off + n > i_size (icache s ! ip)
      then obind (iupdate cur ip (upd_inode ip (\<lambda>i. i\<lparr>i_size := off + n\<rparr>) s1)) (\<lambda>s. Ret (n, s)) else Ret (n, s1))"
    using c ty 1(1) sz by (simp add: writei_def Let_def)
  show ?thesis
  proof (cases "unat off + unat n \<le> unat (i_size (icache s ! ip))")
    case True
    then have "\<not> off + n > i_size (icache s ! ip)" using u by (simp add: word_less_nat_alt)
    moreover have "file_written ip (unat off) (take (unat n) src) s s1 \<and> synced s1 (icache s1 ! ip)"
      by (rule writei_within [OF 1(2) _ W(2) h W(4)]) (use True lb in simp)
    ultimately show ?thesis using run W1 tx_weaken [OF t1] by auto
  next
    case False
    then have "n > 0 \<and> off + n > i_size (icache s ! ip)" using u z(1) by (auto simp: word_less_nat_alt word_gt_0)
    moreover obtain s' where "iupdate cur ip (upd_inode ip (\<lambda>i. i\<lparr>i_size := off + n\<rparr>) s1) = Ret s'" "tx cur {} r s'" "fs_geom s'"
      "file_written ip (unat off) (take (unat n) src) s s'" "synced s' (icache s' ! ip)" "file_ok s' (icache s' ! ip)"
      using writei_grow [OF 1(2) _ z(1) _ _ h(1) W(4,3) t1, of "off + n"] False lb u z(2) by auto
    ultimately show ?thesis using run by auto
  qed
qed

section \<open>Reading\<close>

text \<open>\<open>bmap\<close> on a block that the file has only reads.\<close>

definition reads :: "nat \<Rightarrow> 'a fsst_scheme \<Rightarrow> 'a fsst_scheme \<Rightarrow> bool" where
  "reads cur s s' \<longleftrightarrow> rd cur {} s' \<and> blk_view s' = blk_view s \<and> dirty_blks s' = dirty_blks s \<and> bst.more s' = bst.more s \<and> disk s' = disk s"

lemma read_block:
  assumes r: "rd cur {} s" and b: "unat b < FSSIZE"
  shows "\<exists>i s1 s'. bread cur 1 b s = Ret (i, s1) \<and> b_data (bufs s1 ! i) = blk_view s b \<and> icache s1 = icache s
    \<and> brelse cur i s1 = Ret s' \<and> reads cur s s'"
proof -
  obtain i s1 where 1: "bread cur 1 b s = Ret (i, s1)" "rd cur {b} s1" "has_buf cur s1 i b" "b_data (bufs s1 ! i) = blk_view s b"
    "blk_view s1 = blk_view s" "dirty_blks s1 = dirty_blks s" "bst.more s1 = bst.more s" "disk s1 = disk s"
    using rd_bread [OF r _ _ b] by auto
  obtain s' where 2: "brelse cur i s1 = Ret s'" "rd cur ({b} - {b}) s'" "blk_view s' = blk_view s1" "dirty_blks s' = dirty_blks s1"
    "bst.more s' = bst.more s1" "disk s' = disk s1"
    using rd_brelse [OF 1(2,3)] by blast
  show ?thesis using 1 2 more_fields(2) [OF 1(7)] by (auto simp: reads_def)
qed

lemma reads_D:
  fixes s s' :: "'a fsst_scheme"
  assumes "reads cur s s'"
  shows "rd cur {} s'" "icache s' = icache s" "fs_geom s' = fs_geom s" "fmap s' = fmap s" "fbyte s' = fbyte s" "file_ok s' = file_ok s"
proof -
  have R: "rd cur {} s'" "blk_view s' = blk_view s" "bst.more s' = bst.more s" using assms by (simp_all add: reads_def)
  note V = view_cong [OF more_fields(1) [OF R(3)] log_fields(1) [OF R(3)] R(2)]
  show "rd cur {} s'" by (rule R)
  show "icache s' = icache s" by (rule more_fields(2) [OF R(3)])
  show "fs_geom s' = fs_geom s" "fmap s' = fmap s" "fbyte s' = fbyte s" "file_ok s' = file_ok s" by (rule V)+
qed

lemma reads_trans: "reads cur s t \<Longrightarrow> reads cur t u \<Longrightarrow> reads cur s u"
  by (simp add: reads_def)

lemma bmap_read:
  assumes r: "rd cur {} s" and ok: "file_ok s (icache s ! ip)" and n: "n < MAXFILE" and a: "fmap s (icache s ! ip) n \<noteq> 0"
  shows "\<exists>s'. bmap cur ip (of_nat n) s = Ret (fmap s (icache s ! ip) n, s') \<and> reads cur s s'"
proof -
  have u: "unat (of_nat n :: u32) = n" using n by (intro unat_of_nat32) (simp add: fs_consts)
  have dv: "i_dev (icache s ! ip) = 1" using ok by (simp add: file_ok_def)
  show ?thesis
  proof (cases "n < NDIRECT")
    case True
    have "of_nat n < (of_nat NDIRECT :: u32)" using True u by (simp add: word_less_nat_alt NDIRECT_def)
    then show ?thesis using a r True by (simp add: bmap_eq u slot_addr_def fmap_def Let_def reads_def)
  next
    case False
    define k where "k = n - NDIRECT"
    have k: "n = NDIRECT + k" "k < NINDIRECT" using False n by (simp_all add: k_def MAXFILE_def)
    have uk: "unat (of_nat k :: u32) = k" using k(2) by (intro unat_of_nat32) (simp add: fs_consts)
    have d: "of_nat n - of_nat NDIRECT = (of_nat k :: u32)" by (simp add: k(1))
    have c: "\<not> of_nat n < (of_nat NDIRECT :: u32)" "(of_nat k :: u32) < of_nat NINDIRECT"
      using False u uk k(2) by (simp_all add: word_less_nat_alt NDIRECT_def NINDIRECT_def BSIZE_def)
    let ?b = "i_addrs (icache s ! ip) ! NDIRECT"
    have b: "?b \<noteq> 0" "fmap s (icache s ! ip) n = get32 (blk_view s ?b) (4 * k)" using a False by (auto simp: fmap_def k(1))
    have "unat ?b < FSSIZE" using ok b(1) by (auto simp: file_ok_def fblocks_def data_blk_def home_blk_def)
    then obtain i s1 s' where 1: "bread cur 1 ?b s = Ret (i, s1)" "b_data (bufs s1 ! i) = blk_view s ?b" "brelse cur i s1 = Ret s'" "reads cur s s'"
      using read_block [OF r] by blast
    have "entry_addr cur 1 ?b k s = Ret (fmap s (icache s ! ip) n, s')"
      using 1 a by (simp add: entry_addr_def b(2))
    then show ?thesis using c 1(4) uk b(1) unfolding bmap_eq d by (simp add: slot_addr_def dv)
  qed
qed

lemma block_bytes:
  assumes "fmap s i n \<noteq> 0" and "length (blk_view s (fmap s i n)) = BSIZE" and "k + m \<le> BSIZE"
  shows "take m (drop k (blk_view s (fmap s i n))) = map (fbyte s i) [n * BSIZE + k ..< n * BSIZE + k + m]"
proof (rule nth_equalityI)
  fix j
  assume "j < length (take m (drop k (blk_view s (fmap s i n))))"
  then have j: "j < m" "k + j < BSIZE" using assms(2,3) by simp_all
  have "(n * BSIZE + k + j) div BSIZE = n \<and> (n * BSIZE + k + j) mod BSIZE = k + j"
    using j(2) by (simp add: add.assoc)
  then show "take m (drop k (blk_view s (fmap s i n))) ! j = map (fbyte s i) [n * BSIZE + k ..< n * BSIZE + k + m] ! j"
    using j assms by (simp add: fbyte_def add.commute add.left_commute)
qed (use assms in simp)

lemma readi_loop_ok:
  assumes "rd cur {} s" and "fs_geom s" and "file_ok s (icache s ! ip)" and "unat off + unat n \<le> unat (i_size (icache s ! ip))"
  shows "\<exists>s'. readi_loop cur ip off n s = Ret (map (fbyte s (icache s ! ip)) [unat off ..< unat off + unat n], s') \<and> reads cur s s'"
  using assms
proof (induction "unat n" arbitrary: n off s rule: less_induct)
  case less
  show ?case
  proof (cases "n = 0")
    case True
    then show ?thesis using less.prems(1) by (simp add: readi_loop.simps reads_def)
  next
    case False
    let ?i = "icache s ! ip" and ?b = "unat off div BSIZE"
    define m where "m = chunk off n"
    have um: "unat m = min (unat n) (BSIZE - unat off mod BSIZE)" by (simp add: m_def unat_chunk)
    have n0: "0 < unat n" using False by (simp add: word_gt_0 unat_gt_0)
    have ob: "unat off mod BSIZE < BSIZE" "?b * BSIZE + unat off mod BSIZE = unat off" by (simp_all add: BSIZE_def)
    have m0: "0 < unat m" "unat m \<le> unat n" "unat off mod BSIZE + unat m \<le> BSIZE" using n0 ob um by linarith+
    have sz: "unat (i_size ?i) \<le> MAXFILE * BSIZE" using less.prems(3) by (simp add: file_ok_def)
    have sum: "unat (off + m) = unat off + unat m" "unat (n - m) = unat n - unat m"
      using m0 less.prems(4) sz by (simp_all add: unat_word_ariths(1) unat_sub word_le_nat_alt fs_consts)
    have "?b * BSIZE < unat (i_size ?i)" "unat off < MAXFILE * BSIZE" using ob(2) n0 less.prems(4) sz by linarith+
    then have b: "fmap s ?i ?b \<noteq> 0" "?b < MAXFILE" using less.prems(3) by (auto simp: file_ok_def less_mult_imp_div_less)
    have o32: "?b < 2 ^ 32" using b(2) by (simp add: fs_consts)
    have dv: "off div of_nat BSIZE = of_nat ?b"
      by (rule word_unat_eq_iff [THEN iffD2], subst unat_of_nat32 [OF o32]) (simp add: BSIZE_def unat_div)
    obtain s1 where 1: "bmap cur ip (of_nat ?b) s = Ret (fmap s ?i ?b, s1)" "reads cur s s1"
      using bmap_read [OF less.prems(1,3) b(2,1)] by blast
    note R1 = reads_D [OF 1(2)]
    have "fmap s ?i ?b \<in> fblocks s ?i" using b by (simp add: fblocks_def)
    then have fb: "unat (fmap s ?i ?b) < FSSIZE" "i_dev ?i = 1" using less.prems(3) by (auto simp: file_ok_def data_blk_def home_blk_def)
    obtain j s2 s3 where 2: "bread cur 1 (fmap s ?i ?b) s1 = Ret (j, s2)" "b_data (bufs s2 ! j) = blk_view s1 (fmap s ?i ?b)"
      "icache s2 = icache s1" "brelse cur j s2 = Ret s3" "reads cur s1 s3"
      using read_block [OF R1(1) fb(1)] by blast
    have v1: "blk_view s1 = blk_view s" using 1(2) by (simp add: reads_def)
    have r3: "reads cur s s3" by (rule reads_trans [OF 1(2) 2(5)])
    note R3 = reads_D [OF r3]
    have "unat (n - m) < unat n" using sum m0 by simp
    then obtain s' where 4: "readi_loop cur ip (off + m) (n - m) s3 =
        Ret (map (fbyte s ?i) [unat off + unat m ..< unat off + unat n], s')" "reads cur s3 s'"
      using less.hyps [of "n - m" s3 "off + m"] R3 less.prems sum m0 by auto
    have len: "length (blk_view s (fmap s ?i ?b)) = BSIZE" using less.prems(2) fb(1) by (simp add: fs_geom_def)
    have by1: "take (unat m) (drop (unat off mod BSIZE) (blk_view s (fmap s ?i ?b))) = map (fbyte s ?i) [unat off ..< unat off + unat m]"
      using block_bytes [OF b(1) len m0(3)] unfolding ob(2) .
    have "[unat off ..< unat off + unat n] = [unat off ..< unat off + unat m] @ [unat off + unat m ..< unat off + unat n]"
      using m0(2) upt_add_eq_append [of "unat off" "unat off + unat m" "unat n - unat m"] by simp
    moreover have "readi_loop cur ip off n s = Ret (map (fbyte s ?i) [unat off ..< unat off + unat m]
        @ map (fbyte s ?i) [unat off + unat m ..< unat off + unat n], s')"
      using False 1(1) 2(1,4) 4(1) fb(2)
      by (subst readi_loop.simps) (simp add: dv m_def [symmetric] R1(2) Let_def 2(2) v1 by1)
    ultimately show ?thesis using reads_trans [OF r3 4(2)] by simp
  qed
qed

lemma readi_ok:
  assumes r: "rd cur {} s" and g: "fs_geom s" and ok: "file_ok s (icache s ! ip)" and ty: "i_type (icache s ! ip) \<noteq> T_DEV"
  shows "if unat off > unat (i_size (icache s ! ip)) \<or> unat off + unat n \<ge> 2 ^ 32 then readi devsw cur ip off n s = Ret (- 1, [], s)
    else \<exists>s'. reads cur s s' \<and> readi devsw cur ip off n s =
      Ret (min n (i_size (icache s ! ip) - off),
        map (fbyte s (icache s ! ip)) [unat off ..< min (unat off + unat n) (unat (i_size (icache s ! ip)))], s')"
proof -
  let ?z = "i_size (icache s ! ip)"
  have ov: "off + n < off \<longleftrightarrow> 2 ^ 32 \<le> unat off + unat n"
    using unsigned_less [of off, where 'a = nat] unsigned_less [of n, where 'a = nat]
    by (auto simp: word_less_nat_alt unat_word_ariths(1) mod_if)
  show ?thesis
  proof (cases "unat off > unat ?z \<or> unat off + unat n \<ge> 2 ^ 32")
    case True
    then have "off > ?z \<or> off + n < off" using ov by (auto simp: word_less_nat_alt)
    then show ?thesis using True ty by (simp add: readi_def Let_def)
  next
    case False
    then have le: "unat off \<le> unat ?z" "\<not> (off > ?z \<or> off + n < off)" using ov by (simp_all add: word_less_nat_alt)
    have u: "unat (off + n) = unat off + unat n" "unat (?z - off) = unat ?z - unat off"
      using False le(1) by (simp_all add: unat_word_ariths(1) unat_sub word_le_nat_alt)
    define k where "k = (if off + n > ?z then ?z - off else n)"
    have k: "k = min n (?z - off)" "unat off + unat k = min (unat off + unat n) (unat ?z)"
      using le(1) u by (auto simp: k_def min_def word_less_nat_alt word_le_nat_alt)
    obtain s' where s': "readi_loop cur ip off k s = Ret (map (fbyte s (icache s ! ip)) [unat off ..< unat off + unat k], s')" "reads cur s s'"
      using readi_loop_ok [OF r g ok, of off k] k(2) by auto
    then have "readi devsw cur ip off n s = Ret (k, map (fbyte s (icache s ! ip)) [unat off ..< unat off + unat k], s')"
      using ty le(2) by (simp add: readi_def Let_def k_def [symmetric])
    then show ?thesis using False s'(2) unfolding k(2) unfolding k(1) by auto
  qed
qed



section \<open>A concrete file system\<close>

text \<open>
  A file system of 100 blocks, of which 56 to 99 are free: the log at 2, the inodes at 33, the map at 34. Inode 1 is an empty directory,
  which the inode cache has in its slot 0, and a transaction is open.
\<close>

definition ino0 :: inode where
  "ino0 = \<lparr>i_dev = 1, i_inum = 1, i_ref = 1, i_lock = initsleeplock ''inode'', i_valid = True, i_type = T_DIR, i_major = 0, i_minor = 0,
     i_nlink = 1, i_size = 0, i_addrs = replicate 13 0\<rparr>"

definition sb0 :: superblock where
  "sb0 = \<lparr>sb_size = 100, sb_nblocks = 65, sb_ninodes = 8, sb_nlog = 30, sb_logstart = 2, sb_inodestart = 33, sb_bmapstart = 34\<rparr>"

definition fdisk0 :: "u32 \<Rightarrow> u32 \<Rightarrow> u8 list" where
  "fdisk0 = (\<lambda>_ b. if b = 1 then put32 (replicate BSIZE 0) 16 2
     else if b = 33 then put_dinode (replicate BSIZE 0) 64 (dinode_of ino0)
     else if b = 34 then replicate 7 255 @ replicate 505 0 else replicate BSIZE 0)"

definition fs0 :: fsst where
  "fs0 = lst.extend ((boot fdisk0)\<lparr>log_outstanding := 1\<rparr>) (fsst.fields sb0 [ino0])"

lemma fs0_view: "blk_view fs0 = fdisk0 1" "dirty_blks fs0 = {}" "held_blks fs0 = {}" "binv fs0" "0 < length (ptable fs0)"
  "disk fs0 = fdisk0" "sb fs0 = sb0" "icache fs0 = [ino0]" "log_start fs0 = 2" "log_size fs0 = 30" "log_outstanding fs0 = 1" "log_dev fs0 = 1"
  "lh_n fs0 = 0" "lh_block fs0 = replicate LOGSIZE 0"
proof -
  have c: "bufs fs0 = bufs (boot fdisk0)" "disk fs0 = disk (boot fdisk0)" "havedisk1 fs0 = havedisk1 (boot fdisk0)" "ptable fs0 = ptable (boot fdisk0)"
    by (simp_all add: fs0_def lst.defs fsst.defs)
  note B = boot_ok [of fdisk0]
  show "binv fs0" "held_blks fs0 = {}" "0 < length (ptable fs0)" "disk fs0 = fdisk0" "dirty_blks fs0 = {}"
    using B(1,2,4) unfolding quiet_def binv_def held_blks_def dirty_blks_def c by simp_all
  have "blk_view fs0 = blk_view (boot fdisk0)" unfolding blk_view_def [abs_def] c by (rule refl)
  moreover have "blk_view (boot fdisk0) b = disk (boot fdisk0) 1 b" for b using unheld_clean [of "boot fdisk0" b] B(1,2) by (simp add: quiet_def)
  ultimately show "blk_view fs0 = fdisk0 1" using B(4) by (simp add: fun_eq_iff)
  show "sb fs0 = sb0" "icache fs0 = [ino0]" "log_start fs0 = 2" "log_size fs0 = 30" "log_outstanding fs0 = 1" "log_dev fs0 = 1"
    "lh_n fs0 = 0" "lh_block fs0 = replicate LOGSIZE 0" by (simp_all add: fs0_def lst.defs fsst.defs B)
qed

lemma fs0_blocks:
  "log_ok [] fs0" "home_blk fs0 b \<longleftrightarrow> unat b < FSSIZE \<and> unat b \<noteq> 1 \<and> unat b \<notin> {2..32}"
proof -
  have g: "log_geom fs0" by (simp add: log_geom_def fs0_view LOGSIZE_def MAXOPBLOCKS_def FSSIZE_def)
  have A: "b \<in> log_area fs0 \<longleftrightarrow> unat b \<in> {2..32}" for b
  proof -
    have "unat ` log_area fs0 = insert 2 ((\<lambda>i. 3 + i) ` {..<LOGSIZE})"
      using unat_log_blk [OF g] by (force simp: log_area_def fs0_view image_image)
    also have "(\<lambda>i. 3 + i) ` {..<LOGSIZE} = {3..<33}" by (simp add: LOGSIZE_def MAXOPBLOCKS_def lessThan_atLeast0 image_add_atLeastLessThan)
    also have "insert 2 {3..<33} = {2..(32::nat)}" by auto
    finally have "unat ` log_area fs0 = {2..32}" .
    then have "unat b \<in> {2..32} \<longleftrightarrow> unat b \<in> unat ` log_area fs0" by simp
    moreover have "inj (unat :: u32 \<Rightarrow> nat)" by (simp add: inj_def word_unat_eq_iff)
    ultimately show ?thesis by (simp only: inj_image_mem_iff)
  qed
  have one: "b = 1 \<longleftrightarrow> unat b = 1" for b :: u32 by (simp add: word_unat_eq_iff)
  show "home_blk fs0 b \<longleftrightarrow> unat b < FSSIZE \<and> unat b \<noteq> 1 \<and> unat b \<notin> {2..32}" by (simp only: home_blk_def A one) blast
  have "get32 (replicate BSIZE 0) 0 = 0" by (rule get32_zeros) (simp add: BSIZE_def)
  moreover have "get32 (put32 (replicate BSIZE 0) 16 2) 16 = 2" by (rule get_put_same(2)) (simp add: BSIZE_def)
  ultimately show "log_ok [] fs0"
    using g by (simp add: log_ok_def trans_def fs0_view fdisk0_def dec_sb_def A)
qed

lemma fs0_geom:
  "in_fs fs0 b \<longleftrightarrow> unat b < 100" "unat b < 100 \<Longrightarrow> marked fs0 b \<longleftrightarrow> unat b < 56" "inode_blk fs0 b \<longleftrightarrow> b = 33" "fs_geom fs0"
proof -
  show 1: "in_fs fs0 b \<longleftrightarrow> unat b < 100" for b by (simp add: in_fs_def fs0_view sb0_def)
  have ib: "IBLOCK i sb0 = 33" if "unat i < 8" for i
  proof -
    have "i div 8 = 0" using that by (simp add: word_unat_eq_iff unat_div)
    then show ?thesis by (simp add: IBLOCK_def sb0_def fs_consts)
  qed
  show 2: "inode_blk fs0 b \<longleftrightarrow> b = 33" for b
  proof
    assume "inode_blk fs0 b"
    then show "b = 33" using ib by (auto simp: inode_blk_def fs0_view) (simp add: sb0_def)
  next
    assume "b = 33"
    then show "inode_blk fs0 b" using ib [of 0] by (auto simp: inode_blk_def fs0_view intro!: exI [of _ 0], simp add: sb0_def)
  qed
  have b34: "fdisk0 1 34 = replicate 7 255 @ replicate 505 0" by (simp add: fdisk0_def)
  have M: "bm fs0 = 34" by (simp add: fs0_view sb0_def)
  show 3: "marked fs0 b \<longleftrightarrow> unat b < 56" if "unat b < 100" for b
  proof (cases "unat b div 8 < 7")
    case True
    moreover have "bit (255 :: u8) (unat b mod 8)"
    proof -
      have "(255 :: u8) = mask 8" by (simp add: mask_eq_exp_minus_1)
      then show ?thesis by (simp only: bit_mask_iff) simp
    qed
    ultimately show ?thesis by (simp add: marked_def marked_in_def fs0_view(1) M b34 nth_append)
  next
    case False
    have "\<not> bit ((replicate 7 255 @ replicate 505 0 :: u8 list) ! (unat b div 8)) (unat b mod 8)"
      using False that by (simp add: nth_append)
    then show ?thesis using False by (simp add: marked_def marked_in_def fs0_view(1) M b34)
  qed
  have l: "length (blk_view fs0 b) = BSIZE" for b by (simp add: fs0_view(1) fdisk0_def put_dinode_def, simp add: BSIZE_def)
  have h: "home_blk fs0 b" if "unat b = 34 \<or> 33 \<le> unat b \<and> unat b < 100" for b using that by (auto simp: fs0_blocks(2) FSSIZE_def)
  have d: "data_blk fs0 b" if "unat b < 100" "56 \<le> unat b" for b
    unfolding data_blk_def 1 2 M using that h [of b] by auto
  show "fs_geom fs0"
    unfolding fs_geom_def 1 2 M using h d l 3 by (auto simp: fs0_view sb0_def FSSIZE_def)
qed

lemma fs0_writing:
  "k + 2 \<le> 20 \<Longrightarrow> writing 0 0 k fs0" "has_dinode fs0 (icache fs0 ! 0)" "synced fs0 (icache fs0 ! 0)" "i_type (icache fs0 ! 0) \<noteq> T_DEV"
proof -
  have fm: "fmap fs0 ino0 n = 0" for n by (simp add: fmap_def ino0_def NDIRECT_def)
  have fb: "fblocks fs0 ino0 = {}" by (auto simp: fblocks_def fm) (simp add: ino0_def NDIRECT_def)
  have ok: "file_ok fs0 ino0" by (simp add: file_ok_def fm fb) (simp add: ino0_def NDIRECT_def)
  have rd: "rd 0 {} fs0" using fs0_view(5) by (simp add: rd_def fs0_view(1-4,6) NBUF_def MAXOPBLOCKS_def)
  have tx: "tx 0 {} 20 fs0"
    using rd fs0_blocks(1) by (simp add: tx_def fs0_view LOGSIZE_def MAXOPBLOCKS_def NBUF_def exI [of _ "[]"])
  have sub: "of_nat ` {56..<100} \<subseteq> {b. in_fs fs0 b \<and> \<not> marked fs0 b}"
    using fs0_geom(1,2) by (auto simp: unat_of_nat32)
  have inj: "inj_on (of_nat :: nat \<Rightarrow> u32) {56..<100}"
    by (rule inj_on_inverseI [of _ unat]) (auto simp: unat_of_nat32)
  have "card (of_nat ` {56..<100} :: u32 set) \<le> nfree fs0" unfolding nfree_def by (rule card_mono [OF _ sub]) simp
  then have n: "44 \<le> nfree fs0" by (simp add: card_image [OF inj])
  show "writing 0 0 k fs0" if "k + 2 \<le> 20"
    unfolding writing_def using tx_weaken [OF tx] ok n fs0_geom(4) that by (simp add: log_need_def blk_need_def fs0_view)
  have ib: "iblk fs0 ino0 = 33" by (simp add: iblk_def IBLOCK_def fs0_view ino0_def sb0_def fs_consts)
  show "has_dinode fs0 (icache fs0 ! 0)"
    unfolding has_dinode_def fs0_geom(1) by (simp add: fs0_view ib) (simp add: ino0_def sb0_def)
  have "get_dinode (put_dinode (replicate BSIZE 0) 64 (dinode_of ino0)) 64 = dinode_of ino0"
    by (rule get_put_dinode) (simp_all add: BSIZE_def dinode_of_def ino0_def NDIRECT_def)
  moreover have "ioff (i_inum ino0) = 64" by (simp add: ioff_def ino0_def fs_consts)
  moreover have "fdisk0 1 33 = put_dinode (replicate BSIZE 0) 64 (dinode_of ino0)" by (simp add: fdisk0_def)
  ultimately show "synced fs0 (icache fs0 ! 0)" by (simp add: synced_def fs0_view ib)
  show "i_type (icache fs0 ! 0) \<noteq> T_DEV" by (simp add: fs0_view ino0_def T_DIR_def T_DEV_def)
qed


lemma fs0_written: "\<exists>s :: fsst. rd 0 {} s \<and> fs_geom s \<and> file_ok s (icache s ! 0) \<and> i_type (icache s ! 0) \<noteq> T_DEV
    \<and> i_size (icache s ! 0) = 600 \<and> (\<forall>q < 600. fbyte s (icache s ! 0) q = 65)"
proof -
  have "nblocks 0 600 = 2" by (simp add: nblocks_def BSIZE_def)
  then have "writing 0 0 (nblocks (unat (0 :: u32)) (unat (600 :: u32)) + Suc 0) fs0" using fs0_writing(1) [of 3] by simp
  from writei_ok [OF this fs0_writing(4,2,3), of "replicate 600 65" "[]"]
  obtain s where s: "file_written 0 0 (replicate 600 65) fs0 s" "file_ok s (icache s ! 0)" "fs_geom s" "tx 0 {} 0 s"
    by (auto simp: fs_consts)
  have z: "unat (i_size (icache s ! 0)) = 600" using s(1) by (simp add: file_written_def fs0_view ino0_def)
  have "icache s ! 0 = (icache fs0 ! 0)\<lparr>i_size := i_size (icache s ! 0), i_addrs := i_addrs (icache s ! 0)\<rparr>"
    using s(1) unfolding file_written_def by (elim conjE)
  from arg_cong [OF this, of i_type] have "i_type (icache s ! 0) = i_type (icache fs0 ! 0)" by simp
  moreover have "fbyte s (icache s ! 0) q = 65" if "q < 600" for q using s(1) that by (simp add: file_written_def fs_consts)
  ultimately show ?thesis using s(2,3) tx_rd [OF s(4)] z fs0_writing(4) by - (rule exI [of _ s], simp add: word_unat_eq_iff)
qed


section \<open>The allocator\<close>





end
