(* ===== verification/DirData.thy ===== *)
theory DirData
  imports Dir FileData
begin

unbundle bit_operations_syntax

text \<open>
  Names and paths of \<open>fs.c\<close>: names are compared up to \<open>DIRSIZ\<close> bytes, an entry holds its inode number and its name, and
  \<open>skipelem\<close> splits a path into its components.
\<close>

section \<open>Names\<close>

text \<open>The name that a buffer of \<open>DIRSIZ\<close> bytes, or a string, stands for.\<close>

definition dname :: "u8 list \<Rightarrow> u8 list" where
  "dname p = takeWhile (\<lambda>c. c \<noteq> 0) (take DIRSIZ p)"

lemma ucast_byte_eq: "(ucast (a :: u8) :: s32) = ucast b \<longleftrightarrow> a = b" "(ucast (a :: u8) :: s32) = 0 \<longleftrightarrow> a = 0" "0 = (ucast (a :: u8) :: s32) \<longleftrightarrow> a = 0"
proof -
  have u: "unat (ucast x :: s32) = unat x" for x :: u8
    using unsigned_less [of x, where 'a = nat] by (simp add: unsigned_ucast_eq take_bit_nat_eq_self)
  show 1: "(ucast (a :: u8) :: s32) = ucast b \<longleftrightarrow> a = b" for b by (simp only: word_unat_eq_iff u)
  show "(ucast (a :: u8) :: s32) = 0 \<longleftrightarrow> a = 0" using 1 [of 0] by simp
  then show "0 = (ucast (a :: u8) :: s32) \<longleftrightarrow> a = 0" by metis
qed

lemma str_ncmp_zero: "str_ncmp n p q = 0 \<longleftrightarrow> takeWhile (\<lambda>c. c \<noteq> 0) (take n p) = takeWhile (\<lambda>c. c \<noteq> 0) (take n q)"
proof (induction n arbitrary: p q)
  case (Suc n)
  show ?case
    using Suc [of "tl p" "tl q"] by (cases p; cases q) (auto simp: chr0_def ucast_byte_eq)
qed simp

lemma namecmp_zero: "namecmp p q = 0 \<longleftrightarrow> dname p = dname q"
  by (simp add: namecmp_def dname_def str_ncmp_zero)

lemma length_str_ncpy [simp]: "length (str_ncpy n t) = n"
  by (induction n t rule: str_ncpy.induct) simp_all

lemma str_ncpy_name: "takeWhile (\<lambda>c. c \<noteq> 0) (str_ncpy n t) = takeWhile (\<lambda>c. c \<noteq> 0) (take n t)"
proof (induction n arbitrary: t)
  case (Suc n)
  show ?case using Suc [of "tl t"] by (cases t) (auto simp: chr0_def)
qed simp

lemma dirent_fields:
  assumes "length nm = DIRSIZ"
  shows "de_inum (mk_dirent inum nm) = inum" "de_name (mk_dirent inum nm) = nm" "length (mk_dirent inum nm) = 16"
proof -
  show "de_inum (mk_dirent inum nm) = inum" using assms by (simp add: de_inum_def mk_dirent_def DIRSIZ_def)
  show "length (mk_dirent inum nm) = 16" using assms by (simp add: mk_dirent_def DIRSIZ_def)
  have "drop 2 (put16 (replicate 2 0 @ nm) 0 inum) = nm"
    using assms by (intro nth_equalityI) (simp_all add: put16_nth nth_append)
  then show "de_name (mk_dirent inum nm) = nm" using assms by (simp add: de_name_def mk_dirent_def)
qed

section \<open>Paths\<close>

text \<open>The components of a path: the maximal stretches without a slash.\<close>

fun splits :: "u8 list \<Rightarrow> u8 list list" where
  "splits [] = [[]]"
| "splits (c # p) = (if c = 47 then [] # splits p else (c # hd (splits p)) # tl (splits p))"

definition components :: "u8 list \<Rightarrow> u8 list list" where
  "components p = filter (\<lambda>s. s \<noteq> []) (splits p)"

text \<open>The names that the loop of \<open>namex\<close> goes through.\<close>

function path_names :: "u8 list \<Rightarrow> u8 list \<Rightarrow> u8 list list" where
  "path_names path name =
     (case skipelem path name of None \<Rightarrow> [] | Some (path', name') \<Rightarrow> dname name' # path_names path' name')"
  by pat_completeness auto
termination by (relation "measure (\<lambda>(path, name). length path)") (auto dest: skipelem_shorter)

declare path_names.simps [simp del]

lemma splits_ne: "splits p \<noteq> []"
  by (cases p) auto

lemma components_slash: "components (dropWhile (\<lambda>c. c = 47) p) = components p"
  by (induction p) (auto simp: components_def)

lemma splits_elem:
  "splits p = takeWhile (\<lambda>c. c \<noteq> 47) p # (case dropWhile (\<lambda>c. c \<noteq> 47) p of [] \<Rightarrow> [] | _ # q \<Rightarrow> splits q)"
  by (induction p) auto

lemma components_elem:
  assumes "p \<noteq> []" and "hd p \<noteq> 47"
  shows "components p = takeWhile (\<lambda>c. c \<noteq> 47) p # components (dropWhile (\<lambda>c. c \<noteq> 47) p)"
proof -
  have ne: "takeWhile (\<lambda>c. c \<noteq> 47) p \<noteq> []" using assms by (cases p) auto
  have "filter (\<lambda>s. s \<noteq> []) (case dropWhile (\<lambda>c. c \<noteq> 47) p of [] \<Rightarrow> [] | _ # q \<Rightarrow> splits q) = components (dropWhile (\<lambda>c. c \<noteq> 47) p)"
  proof (cases "dropWhile (\<lambda>c. c \<noteq> 47) p")
    case (Cons c q)
    then have "c = 47" using hd_dropWhile [of "\<lambda>c. c \<noteq> 47" p] by simp
    then show ?thesis using Cons by (simp add: components_def)
  next
    case Nil
    show ?thesis unfolding Nil by (simp add: components_def)
  qed
  then show ?thesis using ne splits_elem [of p] by (simp add: components_def)
qed

lemma path_names_components:
  assumes "0 \<notin> set path" and "length name = DIRSIZ"
  shows "path_names path name = map (take DIRSIZ) (components path)"
  using assms
proof (induction path name rule: path_names.induct)
  case (1 path name)
  define p where "p = dropWhile (\<lambda>c. c = 47) path"
  have cp: "components path = components p" by (simp add: p_def components_slash)
  show ?case
  proof (cases "p = []")
    case True
    then have "skipelem path name = None" by (simp add: skipelem_def p_def)
    then show ?thesis using True cp by (simp add: path_names.simps components_def)
  next
    case False
    define e where "e = takeWhile (\<lambda>c. c \<noteq> 47) p"
    define q where "q = dropWhile (\<lambda>c. c \<noteq> 47) p"
    define nm where "nm = (if length e \<ge> DIRSIZ then take DIRSIZ e else e @ [0] @ drop (length e + 1) name)"
    have sk: "skipelem path name = Some (dropWhile (\<lambda>c. c = 47) q, nm)"
      using False by (simp add: skipelem_def p_def [symmetric] e_def q_def nm_def Let_def)
    have "hd p \<noteq> 47" using False hd_dropWhile [of "\<lambda>c. c = 47" path] by (simp add: p_def)
    then have comp: "components path = e # components (dropWhile (\<lambda>c. c = 47) q)"
      using components_elem [OF False] by (simp add: cp e_def q_def components_slash)
    have sub: "set p \<subseteq> set path" "set q \<subseteq> set path" "set (dropWhile (\<lambda>c. c = 47) q) \<subseteq> set path"
      by (auto simp: p_def q_def dest: set_dropWhileD)
    have e0: "0 \<notin> set e" using 1(2) sub(1) by (auto simp: e_def dest: set_takeWhileD)
    have ln: "length nm = DIRSIZ" using 1(3) by (simp add: nm_def)
    have dn: "dname nm = take DIRSIZ e"
    proof (cases "length e \<ge> DIRSIZ")
      case True
      then have "0 \<notin> set (take DIRSIZ e)" using e0 in_set_takeD by metis
      then show ?thesis using True by (simp add: dname_def nm_def takeWhile_eq_all_conv) (metis (mono_tags))
    next
      case False
      have "takeWhile (\<lambda>c. c \<noteq> 0) (e @ 0 # drop (length e + 1) name) = e"
        using e0 by (subst takeWhile_append2) auto
      then show ?thesis using False ln by (simp add: dname_def nm_def)
    qed
    have "path_names (dropWhile (\<lambda>c. c = 47) q) nm = map (take DIRSIZ) (components (dropWhile (\<lambda>c. c = 47) q))"
      by (rule 1(1) [OF sk refl]) (use 1(2) sub(3) ln in auto)
    then show ?thesis using sk comp dn by (subst path_names.simps) simp
  qed
qed

text \<open>
  C31. \<open>skipelem\<close> splits paths: for every path, the names that the loop of \<open>namex\<close> goes through are the components of the path, the maximal
  stretches without a slash, each cut off after \<open>DIRSIZ\<close> bytes; whatever the name buffer held before.
\<close>

theorem skipelem_components:
  assumes "0 \<notin> set path" and "length name = DIRSIZ"
  shows "path_names path name = map (take DIRSIZ) (components path)"
  by (rule path_names_components [OF assms])

theorem skipelem_components_witness:
  "path_names [47, 97, 47, 47, 98, 99, 47] (replicate DIRSIZ 7) = [[97], [98, 99]]"
  using skipelem_components [of "[47, 97, 47, 47, 98, 99, 47]" "replicate DIRSIZ 7"] by (simp add: components_def DIRSIZ_def)

end
