(* ===== verification/DirLink.thy ===== *)
theory DirLink
  imports DirData
begin

unbundle bit_operations_syntax

text \<open>
  Lookup and insertion in directories. \<open>dent\<close> is the \<open>k\<close>-th entry, read off the contents of the directory's file; \<open>dir_find\<close> is
  the first entry in use with a name. \<open>dirlookup\<close> returns its inode, and \<open>dirlink\<close> changes the search for its name only.
\<close>

section \<open>Entries\<close>

definition dent :: "'a fsst_scheme \<Rightarrow> nat \<Rightarrow> nat \<Rightarrow> u8 list" where
  "dent s dp k = map (fbyte s (icache s ! dp)) [16 * k..<16 * k + 16]"

definition dir_ok :: "'a fsst_scheme \<Rightarrow> nat \<Rightarrow> bool" where
  "dir_ok s dp \<longleftrightarrow> fs_geom s \<and> file_ok s (icache s ! dp) \<and> i_type (icache s ! dp) = T_DIR \<and> 16 dvd unat (i_size (icache s ! dp))"

definition dcount :: "'a fsst_scheme \<Rightarrow> nat \<Rightarrow> nat" where
  "dcount s dp = unat (i_size (icache s ! dp)) div 16"

definition dmatch :: "u8 list \<Rightarrow> u8 list \<Rightarrow> bool" where
  "dmatch name de \<longleftrightarrow> de_inum de \<noteq> 0 \<and> dname name = dname (de_name de)"

definition dir_find :: "'a fsst_scheme \<Rightarrow> nat \<Rightarrow> u8 list \<Rightarrow> nat option" where
  "dir_find s dp name = find_slot (dmatch name) (map (dent s dp) [0..<dcount s dp])"

lemma reads_refl: "rd cur {} s \<Longrightarrow> reads cur s s"
  by (simp add: reads_def)

lemma dir_reads:
  assumes "reads cur s s'"
  shows "dir_ok s' dp = dir_ok s dp" "dent s' dp = dent s dp" "dcount s' dp = dcount s dp"
  using reads_D [OF assms] by (simp_all add: dir_ok_def dent_def [abs_def] dcount_def)

lemma dcount_bound: "dir_ok s dp \<Longrightarrow> 16 * dcount s dp = unat (i_size (icache s ! dp)) \<and> 16 * dcount s dp \<le> MAXFILE * BSIZE"
  by (simp add: dir_ok_def dcount_def file_ok_def)

lemma readi_dent:
  assumes r: "rd cur {} s" and d: "dir_ok s dp" and k: "k < dcount s dp"
  shows "\<exists>s'. readi devsw cur dp (of_nat (16 * k)) 16 s = Ret (16, dent s dp k, s') \<and> reads cur s s'"
proof -
  note B = dcount_bound [OF d]
  have ok: "fs_geom s" "file_ok s (icache s ! dp)" "i_type (icache s ! dp) \<noteq> T_DEV"
    using d by (simp_all add: dir_ok_def T_DIR_def T_DEV_def)
  have le: "16 * k + 16 \<le> unat (i_size (icache s ! dp))" using k B by linarith
  have u: "unat (of_nat (16 * k) :: u32) = 16 * k" using B k by (intro unat_of_nat32) (simp add: fs_consts)
  have "16 \<le> i_size (icache s ! dp) - of_nat (16 * k)"
    using le u by (simp add: word_le_nat_alt unat_sub)
  then have m: "min 16 (i_size (icache s ! dp) - of_nat (16 * k)) = 16" by (simp only: min_absorb1)
  have c: "\<not> (unat (i_size (icache s ! dp)) < unat (of_nat (16 * k) :: u32) \<or> 2 ^ 32 \<le> unat (of_nat (16 * k) :: u32) + unat (16 :: u32))"
    using le u B k by (simp add: fs_consts)
  have "min (16 * k + 16) (unat (i_size (icache s ! dp))) = 16 * k + 16" using le by simp
  then show ?thesis
    using readi_ok [OF r ok, of "of_nat (16 * k)" 16 devsw] c m unfolding u dent_def by (auto simp: if_P)
qed

text \<open>The values of \<open>off\<close> are those of the entries.\<close>

lemma dir_offs_ok: "dir_ok s dp \<Longrightarrow> dir_offs (i_size (icache s ! dp)) = map (\<lambda>k. of_nat (16 * k)) [0..<dcount s dp]
    \<and> (unat (i_size (icache s ! dp)) + 15) div 16 = dcount s dp"
proof -
  assume "dir_ok s dp"
  then obtain n where "unat (i_size (icache s ! dp)) = 16 * n" by (auto simp: dir_ok_def)
  then show ?thesis by (simp add: dir_offs_def dcount_def)
qed

lemma dirlookup_loop_ok:
  assumes "rd cur {} s" and "dir_ok s dp" and "j \<le> dcount s dp"
  shows "\<exists>s'. reads cur s s' \<and> dirlookup_loop devsw cur dp name (map (\<lambda>k. of_nat (16 * k)) [j..<dcount s dp]) s =
    (case find_slot (dmatch name) (map (dent s dp) [j..<dcount s dp]) of
       None \<Rightarrow> Ret (None, s')
     | Some i \<Rightarrow> obind (iget 1 (ucast (de_inum (dent s dp (j + i)))) s') (\<lambda>(ip, s). Ret (Some (ip, of_nat (16 * (j + i))), s)))"
  using assms
proof (induction "dcount s dp - j" arbitrary: j s)
  case 0
  then show ?case using reads_refl [OF 0(2)] by auto
next
  case (Suc n)
  have j: "j < dcount s dp" using Suc.hyps(2) by simp
  obtain s1 where 1: "readi devsw cur dp (of_nat (16 * j)) 16 s = Ret (16, dent s dp j, s1)" "reads cur s s1"
    using readi_dent [OF Suc.prems(1,2) j] by blast
  note D = dir_reads [OF 1(2)] and R = reads_D [OF 1(2)]
  have dv: "i_dev (icache s1 ! dp) = 1" using Suc.prems(2) R(2) by (simp add: dir_ok_def file_ok_def)
  have up: "[j..<dcount s dp] = j # [Suc j..<dcount s dp]" using j by (simp add: upt_conv_Cons)
  have step: "dirlookup_loop devsw cur dp name (map (\<lambda>k. of_nat (16 * k)) [j..<dcount s dp]) s =
      (if dmatch name (dent s dp j) then obind (iget 1 (ucast (de_inum (dent s dp j))) s1) (\<lambda>(ip, s). Ret (Some (ip, of_nat (16 * j)), s))
       else dirlookup_loop devsw cur dp name (map (\<lambda>k. of_nat (16 * k)) [Suc j..<dcount s dp]) s1)"
    unfolding up using 1(1) dv by (simp add: dmatch_def namecmp_zero)
  show ?case
  proof (cases "dmatch name (dent s dp j)")
    case True
    then show ?thesis using step 1(2) by (intro exI [of _ s1]) (simp add: up)
  next
    case False
    have "\<exists>s'. reads cur s1 s' \<and> dirlookup_loop devsw cur dp name (map (\<lambda>k. of_nat (16 * k)) [Suc j..<dcount s1 dp]) s1 =
      (case find_slot (dmatch name) (map (dent s1 dp) [Suc j..<dcount s1 dp]) of
         None \<Rightarrow> Ret (None, s')
       | Some i \<Rightarrow> obind (iget 1 (ucast (de_inum (dent s1 dp (Suc j + i)))) s') (\<lambda>(ip, s). Ret (Some (ip, of_nat (16 * (Suc j + i))), s)))"
      by (rule Suc.hyps(1)) (use Suc.hyps(2) Suc.prems D R(1) j in simp_all)
    then obtain s' where s': "reads cur s1 s'" "dirlookup_loop devsw cur dp name (map (\<lambda>k. of_nat (16 * k)) [Suc j..<dcount s dp]) s1 =
      (case find_slot (dmatch name) (map (dent s dp) [Suc j..<dcount s dp]) of
         None \<Rightarrow> Ret (None, s')
       | Some i \<Rightarrow> obind (iget 1 (ucast (de_inum (dent s dp (Suc j + i)))) s') (\<lambda>(ip, s). Ret (Some (ip, of_nat (16 * (Suc j + i))), s)))"
      unfolding D by blast
    show ?thesis
      using step False s'(2) reads_trans [OF 1(2) s'(1)]
      by (intro exI [of _ s']) (simp add: up add.left_commute split: option.split)
  qed
qed

section \<open>Inserting an entry\<close>

definition put_entry :: "nat \<Rightarrow> 'b \<Rightarrow> 'b list \<Rightarrow> 'b list" where
  "put_entry k e xs = (if k < length xs then xs[k := e] else xs @ [e])"

lemma put_entry_Cons [simp]: "put_entry (Suc k) e (x # xs) = x # put_entry k e xs" "put_entry 0 e (x # xs) = e # xs" "put_entry k e [] = [e]"
  by (simp_all add: put_entry_def)

lemma find_slot_put_other:
  assumes "k \<le> length xs" and "k < length xs \<Longrightarrow> \<not> P (xs ! k)" and "\<not> P e"
  shows "find_slot P (put_entry k e xs) = find_slot P xs"
  using assms
proof (induction xs arbitrary: k)
  case (Cons x xs)
  then show ?case by (cases k) simp_all
qed simp

lemma find_slot_put_new:
  assumes "k \<le> length xs" and "find_slot P xs = None" and "P e"
  shows "find_slot P (put_entry k e xs) = Some k"
  using assms
proof (induction xs arbitrary: k)
  case (Cons x xs)
  then show ?case by (cases k) (auto split: if_splits)
qed simp

text \<open>The index of the entry that \<open>dirlink\<close> fills: the first one not in use, or the end.\<close>

definition free_slot :: "'a fsst_scheme \<Rightarrow> nat \<Rightarrow> nat" where
  "free_slot s dp = (case find_slot (\<lambda>de. de_inum de = 0) (map (dent s dp) [0..<dcount s dp]) of Some i \<Rightarrow> i | None \<Rightarrow> dcount s dp)"

lemma dir_slot_ok:
  assumes "rd cur {} s" and "dir_ok s dp" and "j \<le> dcount s dp"
  shows "\<exists>s'. reads cur s s' \<and> dir_slot devsw cur dp (map (\<lambda>k. of_nat (16 * k)) [j..<dcount s dp]) fin s =
    Ret (case find_slot (\<lambda>de. de_inum de = 0) (map (dent s dp) [j..<dcount s dp]) of None \<Rightarrow> fin | Some i \<Rightarrow> of_nat (16 * (j + i)), s')"
  using assms
proof (induction "dcount s dp - j" arbitrary: j s)
  case 0
  then show ?case using reads_refl [OF 0(2)] by auto
next
  case (Suc n)
  have j: "j < dcount s dp" using Suc.hyps(2) by simp
  obtain s1 where 1: "readi devsw cur dp (of_nat (16 * j)) 16 s = Ret (16, dent s dp j, s1)" "reads cur s s1"
    using readi_dent [OF Suc.prems(1,2) j] by blast
  note D = dir_reads [OF 1(2)] and R = reads_D [OF 1(2)]
  have up: "[j..<dcount s dp] = j # [Suc j..<dcount s dp]" using j by (simp add: upt_conv_Cons)
  have step: "dir_slot devsw cur dp (map (\<lambda>k. of_nat (16 * k)) [j..<dcount s dp]) fin s =
      (if de_inum (dent s dp j) = 0 then Ret (of_nat (16 * j), s1)
       else dir_slot devsw cur dp (map (\<lambda>k. of_nat (16 * k)) [Suc j..<dcount s dp]) fin s1)"
    unfolding up using 1(1) by simp
  have "\<exists>s'. reads cur s1 s' \<and> dir_slot devsw cur dp (map (\<lambda>k. of_nat (16 * k)) [Suc j..<dcount s1 dp]) fin s1 =
    Ret (case find_slot (\<lambda>de. de_inum de = 0) (map (dent s1 dp) [Suc j..<dcount s1 dp]) of None \<Rightarrow> fin | Some i \<Rightarrow> of_nat (16 * (Suc j + i)), s')"
    by (rule Suc.hyps(1)) (use Suc.hyps(2) Suc.prems D R(1) j in simp_all)
  then obtain s' where s': "reads cur s1 s'" "dir_slot devsw cur dp (map (\<lambda>k. of_nat (16 * k)) [Suc j..<dcount s dp]) fin s1 =
    Ret (case find_slot (\<lambda>de. de_inum de = 0) (map (dent s dp) [Suc j..<dcount s dp]) of None \<Rightarrow> fin | Some i \<Rightarrow> of_nat (16 * (Suc j + i)), s')"
    unfolding D by blast
  show ?case
  proof (cases "de_inum (dent s dp j) = 0")
    case True
    then show ?thesis using step 1(2) by (intro exI [of _ s1]) (simp add: up)
  next
    case False
    then show ?thesis
      using step s'(2) reads_trans [OF 1(2) s'(1)]
      by (intro exI [of _ s']) (simp add: up add.left_commute split: option.split)
  qed
qed

text \<open>Reading keeps what a writer relies on.\<close>

lemma writing_reads:
  fixes s s' :: "'a fsst_scheme"
  assumes "reads cur s s'" and "writing cur ip r s"
  shows "writing cur ip r s'" "has_dinode s' i = has_dinode s i" "synced s' i = synced s i"
proof -
  have R: "rd cur {} s'" "blk_view s' = blk_view s" "dirty_blks s' = dirty_blks s" "bst.more s' = bst.more s" "disk s' = disk s"
    using assms(1) by (simp_all add: reads_def)
  note M = more_fields [OF R(4)] and L = log_fields [OF R(4)]
  note V = view_cong [OF M(1) L(1) R(2)] and C = fields_cong [OF M(1) L(1)]
  have n: "log_need s' = log_need s" by (simp add: log_need_def [abs_def] M R(3))
  have "tx cur {} k s \<Longrightarrow> tx cur {} k s'" for k by (rule tx_more [OF _ R(1,4,5,3)])
  then show "writing cur ip r s'" using assms(2) by (simp add: writing_def M V n)
  show "has_dinode s' i = has_dinode s i" "synced s' i = synced s i"
    by (simp_all add: has_dinode_def synced_def iblk_def M C R(2))
qed

lemma dirlookup_ok:
  assumes "rd cur {} s" and "dir_ok s dp"
  shows "\<exists>s'. reads cur s s' \<and> dirlookup devsw cur dp name s =
    (case dir_find s dp name of
       None \<Rightarrow> Ret (None, s')
     | Some i \<Rightarrow> obind (iget 1 (ucast (de_inum (dent s dp i))) s') (\<lambda>(ip, s). Ret (Some (ip, of_nat (16 * i)), s)))"
  using dirlookup_loop_ok [OF assms le0, of devsw name, unfolded add_0] dir_offs_ok [OF assms(2)] assms(2)
  by (simp add: dirlookup_def dir_ok_def dir_find_def del: of_nat_mult)

text \<open>The inode number a directory has for a name.\<close>

definition dir_inum :: "'a fsst_scheme \<Rightarrow> nat \<Rightarrow> u8 list \<Rightarrow> u16 option" where
  "dir_inum s dp name = map_option (\<lambda>i. de_inum (dent s dp i)) (dir_find s dp name)"

lemma dirlink_step:
  assumes r: "rd cur {} s" and d: "dir_ok s dp" and nf: "dir_find s dp name = None"
  shows "\<exists>s1. reads cur s s1 \<and> dirlink devsw cur dp name inum s =
    obind (writei devsw cur dp (mk_dirent (ucast inum) (str_ncpy DIRSIZ name)) (of_nat (16 * free_slot s dp)) 16 s1) (\<lambda>(r, s).
      if r \<noteq> 16 then Panic ''dirlink'' else Ret (0, s))"
proof -
  obtain s0 where 0: "reads cur s s0" "dirlookup devsw cur dp name s = Ret (None, s0)"
    using dirlookup_ok [OF r d, of devsw name] nf by auto
  note D = dir_reads [OF 0(1)] and R = reads_D [OF 0(1)]
  have d0: "dir_ok s0 dp" using d D(1) by simp
  obtain s1 where 1: "reads cur s0 s1" "dir_slot devsw cur dp (map (\<lambda>k. of_nat (16 * k)) [0..<dcount s0 dp]) (of_nat (16 * dcount s0 dp)) s0 =
      Ret (of_nat (16 * free_slot s0 dp), s1)"
    using dir_slot_ok [OF R(1) d0 le0, of devsw "of_nat (16 * dcount s0 dp)"] by (auto simp: free_slot_def split: option.splits)
  have "free_slot s0 dp = free_slot s dp" unfolding free_slot_def D by (rule refl)
  then show ?thesis
    using 0 1 reads_trans [OF 0(1) 1(1)] dir_offs_ok [OF d0]
    by (intro exI [of _ s1]) (simp add: dirlink_def Let_def del: of_nat_mult)
qed

lemma free_slot_le: "free_slot s dp \<le> dcount s dp" "free_slot s dp < dcount s dp \<Longrightarrow> de_inum (dent s dp (free_slot s dp)) = 0"
proof -
  show "free_slot s dp \<le> dcount s dp" by (auto simp: free_slot_def find_slot_Some_iff split: option.split)
  show "de_inum (dent s dp (free_slot s dp)) = 0" if "free_slot s dp < dcount s dp"
  proof (cases "find_slot (\<lambda>de. de_inum de = 0) (map (dent s dp) [0..<dcount s dp])")
    case (Some i)
    then show ?thesis using find_slot_SomeD(1,2) [OF Some] by (simp add: free_slot_def)
  qed (use that in \<open>simp add: free_slot_def\<close>)
qed

lemma nblocks_entry: "nblocks (16 * k) 16 = 1"
  unfolding nblocks_def BSIZE_def by simp

lemma dents_written:
  assumes w: "file_written dp (16 * k) e s s'" and e: "length e = 16" and d: "dir_ok s dp" and k: "k \<le> dcount s dp" "16 * k + 16 \<le> MAXFILE * BSIZE"
    and ok: "file_ok s' (icache s' ! dp)" "fs_geom s'"
  shows "dir_ok s' dp" "map (dent s' dp) [0..<dcount s' dp] = put_entry k e (map (dent s dp) [0..<dcount s dp])"
proof -
  note B = dcount_bound [OF d]
  have W: "unat (i_size (icache s' ! dp)) = max (unat (i_size (icache s ! dp))) (16 * k + 16)"
    "icache s' ! dp = (icache s ! dp)\<lparr>i_size := i_size (icache s' ! dp), i_addrs := i_addrs (icache s' ! dp)\<rparr>"
    "\<And>q. q < MAXFILE * BSIZE \<Longrightarrow> fbyte s' (icache s' ! dp) q = (if 16 * k \<le> q \<and> q < 16 * k + 16 then e ! (q - 16 * k) else fbyte s (icache s ! dp) q)"
    using w e unfolding file_written_def by auto
  have z: "unat (i_size (icache s' ! dp)) = 16 * max (dcount s dp) (Suc k)" using W(1) B by (simp add: max_def)
  then have n: "dcount s' dp = max (dcount s dp) (Suc k)" by (simp add: dcount_def)
  show "dir_ok s' dp"
    using ok z d arg_cong [OF W(2), of i_type] by (simp add: dir_ok_def)
  have D: "dent s' dp i = (if i = k then e else dent s dp i)" if "i < dcount s' dp" for i
  proof (rule nth_equalityI)
    fix m assume "m < length (dent s' dp i)"
    then have m: "m < 16" by (simp add: dent_def)
    have "16 * i + m < MAXFILE * BSIZE" using that n m k B by (auto simp: max_def split: if_splits)
    moreover have "16 * k \<le> 16 * i + m \<and> 16 * i + m < 16 * k + 16 \<longleftrightarrow> i = k" using m by linarith
    ultimately show "dent s' dp i ! m = (if i = k then e else dent s dp i) ! m" using m W(3) by (simp add: dent_def)
  qed (simp add: dent_def e)
  show "map (dent s' dp) [0..<dcount s' dp] = put_entry k e (map (dent s dp) [0..<dcount s dp])"
  proof (rule nth_equalityI)
    show "length (map (dent s' dp) [0..<dcount s' dp]) = length (put_entry k e (map (dent s dp) [0..<dcount s dp]))"
      using k(1) n by (simp add: put_entry_def)
    show "map (dent s' dp) [0..<dcount s' dp] ! i = put_entry k e (map (dent s dp) [0..<dcount s dp]) ! i"
      if "i < length (map (dent s' dp) [0..<dcount s' dp])" for i
      using that k(1) n D [of i] by (cases "k < dcount s dp") (auto simp: put_entry_def nth_append nth_list_update less_Suc_eq)
  qed
qed

lemma dir_inum_put:
  assumes "map (dent s' dp) [0..<dcount s' dp] = put_entry k e (map (dent s dp) [0..<dcount s dp])" and k: "k \<le> dcount s dp"
    "k < dcount s dp \<Longrightarrow> de_inum (dent s dp k) = 0" and e: "de_inum e \<noteq> 0" "dname (de_name e) = dname name" and nf: "dir_find s dp name = None"
  shows "dir_inum s' dp m = (if dname m = dname name then Some (de_inum e) else dir_inum s dp m)"
proof -
  let ?xs = "map (dent s dp) [0..<dcount s dp]" and ?ys = "map (dent s' dp) [0..<dcount s' dp]"
  have inum: "dir_inum t dp m = map_option (\<lambda>i. de_inum (map (dent t dp) [0..<dcount t dp] ! i)) (find_slot (dmatch m) (map (dent t dp) [0..<dcount t dp]))"
    for t by (auto simp: dir_inum_def dir_find_def find_slot_Some_iff intro!: option.map_cong)
  show ?thesis
  proof (cases "dname m = dname name")
    case True
    then have "find_slot (dmatch m) ?xs = None" using nf by (simp add: dir_find_def dmatch_def [abs_def])
    moreover have "dmatch m e" using e True by (simp add: dmatch_def)
    ultimately have "find_slot (dmatch m) ?ys = Some k" unfolding assms(1) using k by (intro find_slot_put_new) simp_all
    moreover have "?ys ! k = e" unfolding assms(1) using k(1) by (auto simp: put_entry_def nth_append)
    ultimately show ?thesis using True by (simp add: inum)
  next
    case False
    then have "\<not> dmatch m e" using e by (simp add: dmatch_def)
    moreover have "\<not> dmatch m (?xs ! k)" if "k < length ?xs" using k(2) that by (simp add: dmatch_def)
    ultimately have f: "find_slot (dmatch m) ?ys = find_slot (dmatch m) ?xs" unfolding assms(1) using k by (intro find_slot_put_other) simp_all
    have "?ys ! i = ?xs ! i" if "find_slot (dmatch m) ?xs = Some i" for i
    proof -
      have "i < length ?xs" "dmatch m (?xs ! i)" using find_slot_SomeD(1,2) [OF that] by simp_all
      moreover from this have "i \<noteq> k" using k(2) by (auto simp: dmatch_def)
      ultimately show ?thesis unfolding assms(1) by (auto simp: put_entry_def nth_append)
    qed
    then show ?thesis using False f by (simp only: inum if_False) (auto intro!: option.map_cong)
  qed
qed

lemma dirlink_ok:
  assumes w: "writing cur dp (Suc (Suc r)) s" and d: "dir_ok s dp" and h: "has_dinode s (icache s ! dp)" "synced s (icache s ! dp)"
    and nf: "dir_find s dp name = None" and i: "(ucast inum :: u16) \<noteq> 0" and room: "16 * dcount s dp + 16 \<le> MAXFILE * BSIZE"
  shows "\<exists>s'. dirlink devsw cur dp name inum s = Ret (0, s') \<and> dir_ok s' dp \<and> synced s' (icache s' ! dp) \<and> tx cur {} r s'
    \<and> (\<forall>m. dir_inum s' dp m = (if dname m = dname name then Some (ucast inum) else dir_inum s dp m))"
proof -
  let ?k = "free_slot s dp" and ?e = "mk_dirent (ucast inum) (str_ncpy DIRSIZ name)"
  have rd: "rd cur {} s" using w by (simp add: writing_def tx_def)
  obtain s1 where 1: "reads cur s s1" and st: "dirlink devsw cur dp name inum s =
      obind (writei devsw cur dp ?e (of_nat (16 * ?k)) 16 s1) (\<lambda>(r, s). if r \<noteq> 16 then Panic ''dirlink'' else Ret (0, s))"
    using dirlink_step [OF rd d nf, of devsw inum] by blast
  note D = dir_reads [OF 1] and R = reads_D [OF 1] and W = writing_reads [OF 1 w] and B = dcount_bound [OF d]
  have d1: "dir_ok s1 dp" using d D(1) by simp
  have k: "?k \<le> dcount s dp" "16 * ?k + 16 \<le> MAXFILE * BSIZE" using free_slot_le(1) [of s dp] room by linarith+
  have e: "length ?e = 16" "de_inum ?e = ucast inum" "dname (de_name ?e) = dname name"
    by (simp_all add: dirent_fields, simp add: dname_def str_ncpy_name)
  have u: "unat (of_nat (16 * ?k) :: u32) = 16 * ?k" using k(2) by (intro unat_of_nat32) (simp add: fs_consts)
  have "writing cur dp (nblocks (unat (of_nat (16 * ?k) :: u32)) (unat (16 :: u32)) + Suc r) s1" using W(1) by (simp only: u) (simp add: nblocks_entry)
  moreover have "i_type (icache s1 ! dp) \<noteq> T_DEV" using d1 by (simp add: dir_ok_def T_DIR_def T_DEV_def)
  moreover have "has_dinode s1 (icache s1 ! dp)" "synced s1 (icache s1 ! dp)" using h W(2,3) R(2) by simp_all
  moreover have "unat (of_nat (16 * ?k) :: u32) \<le> unat (i_size (icache s1 ! dp))" unfolding u using k(1) B R(2) by simp
  moreover have "unat (of_nat (16 * ?k) :: u32) + unat (16 :: u32) \<le> MAXFILE * BSIZE" unfolding u using k(2) by simp
  moreover have "unat (16 :: u32) \<le> length ?e" using e(1) by simp
  ultimately obtain s' where s': "writei devsw cur dp ?e (of_nat (16 * ?k)) 16 s1 = Ret (16, s')" "file_written dp (16 * ?k) ?e s1 s'"
    "file_ok s' (icache s' ! dp)" "synced s' (icache s' ! dp)" "fs_geom s'" "tx cur {} r s'"
    using writei_ok [of cur dp "of_nat (16 * ?k)" 16 r s1 ?e devsw] e(1) u by auto
  note E = dents_written [OF s'(2) e(1) d1 _ k(2) s'(3,5), unfolded D, OF k(1)]
  have "dir_inum s' dp m = (if dname m = dname name then Some (de_inum ?e) else dir_inum s dp m)" for m
    by (rule dir_inum_put [OF E(2) k(1) free_slot_le(2) _ e(3) nf]) (simp_all add: e(2) i)
  then show ?thesis using st s' E(1) e(2) by (intro exI [of _ s']) simp
qed

section \<open>Properties\<close>

text \<open>C36. \<open>dirlookup\<close> returns the first entry in use with the name, up to \<open>DIRSIZ\<close> bytes: the inode that \<open>iget\<close> gives for its number, with
  its offset, or nothing if there is none; it changes nothing but the buffer cache.\<close>

theorem dirlookup_first_match:
  assumes "rd cur {} s" and "dir_ok s dp"
  shows "\<exists>s'. reads cur s s' \<and> dirlookup devsw cur dp name s =
    (case dir_find s dp name of
       None \<Rightarrow> Ret (None, s')
     | Some i \<Rightarrow> obind (iget 1 (ucast (de_inum (dent s dp i))) s') (\<lambda>(ip, s). Ret (Some (ip, of_nat (16 * i)), s)))"
  by (rule dirlookup_ok [OF assms])

text \<open>C37. \<open>dirlink\<close> of a name the directory does not have writes one entry, in the first free place or at the end: afterwards the
  directory gives the new inode number for that name, and for every other name what it gave before. The directory stays well-formed, its
  inode on disk agrees with the cached one, and at most the blocks reserved for it were logged.\<close>

theorem dirlink_inserts:
  assumes "writing cur dp (Suc (Suc r)) s" and "dir_ok s dp" and "has_dinode s (icache s ! dp)" and "synced s (icache s ! dp)"
    and "dir_find s dp name = None" and "(ucast inum :: u16) \<noteq> 0" and "16 * dcount s dp + 16 \<le> MAXFILE * BSIZE"
  shows "\<exists>s'. dirlink devsw cur dp name inum s = Ret (0, s') \<and> dir_ok s' dp \<and> synced s' (icache s' ! dp) \<and> tx cur {} r s'
    \<and> (\<forall>m. dir_inum s' dp m = (if dname m = dname name then Some (ucast inum) else dir_inum s dp m))"
  by (rule dirlink_ok [OF assms])

lemma fs0_dir: "dir_ok fs0 0" "dcount fs0 0 = 0" "dir_find fs0 0 m = None"
proof -
  have "file_ok fs0 (icache fs0 ! 0)" using fs0_writing(1) [of 0] by (simp add: writing_def)
  then show "dir_ok fs0 0" using fs0_geom(4) by (simp add: dir_ok_def) (simp add: fs0_view ino0_def)
  show n: "dcount fs0 0 = 0" by (simp add: dcount_def fs0_view ino0_def)
  show "dir_find fs0 0 m = None" by (simp add: dir_find_def n)
qed

text \<open>The name \<open>ab\<close>, given inode 5 in the empty directory, is the only one found there.\<close>

theorem dirlink_inserts_witness:
  "\<exists>s'. dirlink [] 0 0 [97, 98] 5 fs0 = Ret (0, s') \<and> dir_ok s' 0 \<and> dir_inum s' 0 [97, 98] = Some 5 \<and> dir_inum s' 0 [97] = None"
proof -
  have "writing 0 0 (Suc (Suc 0)) fs0" using fs0_writing(1) [of "Suc (Suc 0)"] by simp
  from dirlink_inserts [OF this fs0_dir(1) fs0_writing(2,3) fs0_dir(3) [of "[97, 98]"], of 5 "[]"]
  obtain s' where s': "dirlink [] 0 0 [97, 98] 5 fs0 = Ret (0, s')" "dir_ok s' 0"
    and m: "\<And>m. dir_inum s' 0 m = (if dname m = dname [97, 98] then Some (ucast (5 :: u32)) else dir_inum fs0 0 m)"
    by (auto simp: fs_consts fs0_dir(2))
  have "dir_inum fs0 0 [97] = None" by (simp add: dir_inum_def fs0_dir(3))
  then have "dir_inum s' 0 [97, 98] = Some 5" "dir_inum s' 0 [97] = None" unfolding m by (simp_all add: dname_def DIRSIZ_def)
  with s' show ?thesis by blast
qed

lemma fs0_linked: "\<exists>s :: fsst. rd 0 {} s \<and> dir_ok s 0 \<and> dir_inum s 0 [97] = Some 5"
proof -
  have "writing 0 0 (Suc (Suc 0)) fs0" using fs0_writing(1) [of "Suc (Suc 0)"] by simp
  from dirlink_ok [OF this fs0_dir(1) fs0_writing(2,3) fs0_dir(3) [of "[97]"], of 5 "[]"] fs0_dir(2)
  show ?thesis by (auto simp: fs_consts tx_def)
qed

theorem dirlookup_first_match_witness:
  "\<exists>(s :: fsst) s1 i. dir_inum s 0 [97] = Some 5
    \<and> dirlookup [] 0 0 [97] s = obind (iget 1 5 s1) (\<lambda>(ip, s). Ret (Some (ip, of_nat (16 * i)), s))"
proof -
  obtain s :: fsst where s: "rd 0 {} s" "dir_ok s 0" "dir_inum s 0 [97] = Some 5" using fs0_linked by blast
  then obtain i where i: "dir_find s 0 [97] = Some i" "de_inum (dent s 0 i) = 5" by (auto simp: dir_inum_def)
  from dirlookup_first_match [OF s(1,2), of "[]" "[97]"] i s(3)
  show ?thesis by (auto simp del: of_nat_mult)
qed

end
