(* ===== verification/Grep.thy ===== *)
theory Grep
  imports Prelude
begin

text \<open>
  \<open>grep.c\<close>: the matcher of Kernighan and Pike and the loop that filters lines. A C string is the list
  of its bytes before the terminating zero, and a pointer into it is the rest of the list. The data that
  \<open>read\<close> will deliver is a list of chunks: a call delivers what it has room for of the first one, as a
  pipe or a file does.

  The lemmas show that the matcher decides the language of the pattern, and that what \<open>grep\<close> writes does not depend on
  how the input is cut into reads: it is the matching lines, provided they fit in the buffer.
\<close>

section \<open>The matcher\<close>

function matchhere :: "u8 list \<Rightarrow> u8 list \<Rightarrow> bool" and matchstar :: "u8 \<Rightarrow> u8 list \<Rightarrow> u8 list \<Rightarrow> bool" where
  "matchhere [] text = True"
| "matchhere (c # re) text =
     (if re \<noteq> [] \<and> hd re = 42 then matchstar c (tl re) text
      else if c = 36 \<and> re = [] then text = []
      else if text \<noteq> [] \<and> (c = 46 \<or> c = hd text) then matchhere re (tl text)
      else False)"
| "matchstar c re text =
     (if matchhere re text then True
      else if text \<noteq> [] \<and> (hd text = c \<or> c = 46) then matchstar c re (tl text)
      else False)"
  by pat_completeness auto
termination
  by (relation "inv_image (less_than <*lex*> less_than)
        (case_sum (\<lambda>(re, t). (2 * length re, length t)) (\<lambda>(c, re, t). (2 * length re + 1, length t)))")
    (auto simp: neq_Nil_conv)

fun match_loop :: "u8 list \<Rightarrow> u8 list \<Rightarrow> bool" where
  "match_loop re [] = matchhere re []"
| "match_loop re (t # text) = (matchhere re (t # text) \<or> match_loop re text)"

definition gmatch :: "u8 list \<Rightarrow> u8 list \<Rightarrow> bool" where
  "gmatch re text = (if re \<noteq> [] \<and> hd re = 94 then matchhere (tl re) text else match_loop re text)"

section \<open>The filter\<close>

text \<open>\<open>strchr(p, '\n')\<close> finds the first newline before a zero byte: the line and what follows it.\<close>

fun split_line :: "u8 list \<Rightarrow> (u8 list \<times> u8 list) option" where
  "split_line [] = None"
| "split_line (c # cs) =
     (if c = 0 then None else if c = 10 then Some ([], cs)
      else map_option (\<lambda>(l, r). (c # l, r)) (split_line cs))"

lemma split_line_eq: "split_line p = Some (l, r) \<Longrightarrow> p = l @ 10 # r"
  by (induction p arbitrary: l) (auto split: if_splits)

text \<open>The inner loop: what is written, and where \<open>p\<close> ends up.\<close>

function grep_lines :: "u8 list \<Rightarrow> u8 list \<Rightarrow> u8 list \<times> u8 list" where
  "grep_lines pattern p =
     (case split_line p of
        None \<Rightarrow> ([], p)
      | Some (l, r) \<Rightarrow>
          let (out, q) = grep_lines pattern r
          in ((if gmatch pattern l then l @ [10] else []) @ out, q))"
  by pat_completeness auto
termination
  by (relation "measure (\<lambda>(_, p). length p)") (auto dest!: split_line_eq)

declare grep_lines.simps [simp del]

definition GREPBUF :: nat where "GREPBUF = 1024"

text \<open>\<open>read(fd, dst, n)\<close> on the chunks that are to come.\<close>

fun read_chunk :: "nat \<Rightarrow> u8 list list \<Rightarrow> u8 list \<times> u8 list list" where
  "read_chunk n [] = ([], [])"
| "read_chunk n (c # cs) = (if length c \<le> n then (c, cs) else (take n c, drop n c # cs))"

text \<open>The outer loop; \<open>keep\<close> is \<open>buf[0..m)\<close>.\<close>

function grep_loop :: "u8 list \<Rightarrow> u8 list \<Rightarrow> u8 list list \<Rightarrow> u8 list" where
  "grep_loop pattern keep inp =
     (let (bytes, inp') = read_chunk (GREPBUF - length keep - 1) inp
      in if bytes = [] then []
         else
           let buf = keep @ bytes;
               (out, p) = grep_lines pattern buf;
               keep' = (if length p = length buf then [] else p)
           in out @ grep_loop pattern keep' inp')"
  by pat_completeness auto
termination
proof (relation "measure (\<lambda>(_, _, inp). length (concat inp))", simp)
  fix pattern keep :: "u8 list" and inp :: "u8 list list" and x bytes inp' buf y out p keep'
  assume "x = read_chunk (GREPBUF - length keep - 1) inp" "(bytes, inp') = x" "bytes \<noteq> []"
  then have "read_chunk (GREPBUF - length keep - 1) inp = (bytes, inp')" "bytes \<noteq> []" by simp_all
  then show "((pattern, keep', inp'), (pattern, keep, inp)) \<in> measure (\<lambda>(_, _, inp). length (concat inp))"
    by (cases inp) (auto split: if_splits)
qed

declare grep_loop.simps [simp del]

definition grep :: "u8 list \<Rightarrow> u8 list list \<Rightarrow> u8 list" where
  "grep pattern inp = grep_loop pattern [] inp"

section \<open>The language of a pattern\<close>

datatype item = One u8 | Many u8

fun items :: "u8 list \<Rightarrow> item list \<times> bool" where
  "items [] = ([], False)"
| "items [c] = (if c = 36 then ([], True) else ([One c], False))"
| "items (c # d # re) =
     (if d = 42 then (Many c # fst (items re), snd (items re))
      else (One c # fst (items (d # re)), snd (items (d # re))))"

definition char_ok :: "u8 \<Rightarrow> u8 \<Rightarrow> bool" where
  "char_ok c t \<longleftrightarrow> c = 46 \<or> t = c"

fun lang :: "item list \<Rightarrow> u8 list set" where
  "lang [] = {[]}"
| "lang (One c # its) = {t # w | t w. char_ok c t \<and> w \<in> lang its}"
| "lang (Many c # its) = {v @ w | v w. (\<forall>t \<in> set v. char_ok c t) \<and> w \<in> lang its}"

definition here :: "item list \<times> bool \<Rightarrow> u8 list \<Rightarrow> bool" where
  "here pat text \<longleftrightarrow> (\<exists>v w. text = v @ w \<and> v \<in> lang (fst pat) \<and> (snd pat \<longrightarrow> w = []))"

lemma here_Nil: "here ([], e) str \<longleftrightarrow> (e \<longrightarrow> str = [])"
  by (auto simp: here_def)

lemma hereI: "v \<in> lang its \<Longrightarrow> (e \<longrightarrow> w = []) \<Longrightarrow> here (its, e) (v @ w)"
  by (auto simp: here_def)

lemma hereE:
  assumes "here (its, e) str"
  obtains v w where "str = v @ w" "v \<in> lang its" "e \<longrightarrow> w = []"
  using assms unfolding here_def fst_conv snd_conv by blast

lemma here_One: "here (One c # its, e) str \<longleftrightarrow> (\<exists>t str'. str = t # str' \<and> char_ok c t \<and> here (its, e) str')"
proof
  assume "here (One c # its, e) str"
  then obtain v w where v: "str = v @ w" "v \<in> lang (One c # its)" "e \<longrightarrow> w = []" by (rule hereE)
  from v(2) obtain t u where "v = t # u" "char_ok c t" "u \<in> lang its" by auto
  with v hereI [of u its e w] show "\<exists>t str'. str = t # str' \<and> char_ok c t \<and> here (its, e) str'" by auto
next
  assume "\<exists>t str'. str = t # str' \<and> char_ok c t \<and> here (its, e) str'"
  then obtain t str' where t: "str = t # str'" "char_ok c t" "here (its, e) str'" by blast
  from t(3) obtain v w where v: "str' = v @ w" "v \<in> lang its" "e \<longrightarrow> w = []" by (rule hereE)
  have "t # v \<in> lang (One c # its)" using t(2) v(2) by simp
  from hereI [OF this v(3)] show "here (One c # its, e) str" by (simp add: t(1) v(1))
qed

lemma here_Many:
  "here (Many c # its, e) str \<longleftrightarrow>
     here (its, e) str \<or> (\<exists>t str'. str = t # str' \<and> char_ok c t \<and> here (Many c # its, e) str')"
proof
  assume "here (Many c # its, e) str"
  then obtain x w where x: "str = x @ w" "x \<in> lang (Many c # its)" "e \<longrightarrow> w = []" by (rule hereE)
  from x(2) obtain v v' where v: "x = v @ v'" "\<forall>t \<in> set v. char_ok c t" "v' \<in> lang its" by auto
  show "here (its, e) str \<or> (\<exists>t str'. str = t # str' \<and> char_ok c t \<and> here (Many c # its, e) str')"
  proof (cases v)
    case Nil
    then show ?thesis using hereI [OF v(3) x(3)] by (simp add: x(1) v(1))
  next
    case (Cons a v1)
    have "v1 @ v' \<in> lang (Many c # its)" using v(2,3) Cons by auto
    from hereI [OF this x(3)] show ?thesis using v(2) Cons by (simp add: x(1) v(1))
  qed
next
  assume "here (its, e) str \<or> (\<exists>t str'. str = t # str' \<and> char_ok c t \<and> here (Many c # its, e) str')"
  then show "here (Many c # its, e) str"
  proof (elim disjE exE conjE)
    assume "here (its, e) str"
    then obtain v w where v: "str = v @ w" "v \<in> lang its" "e \<longrightarrow> w = []" by (rule hereE)
    have "[] @ v \<in> lang (Many c # its)" using v(2) by (auto simp del: append_Nil) (metis append_Nil empty_iff empty_set)
    from hereI [OF this v(3)] show ?thesis by (simp add: v(1))
  next
    fix t str'
    assume t: "str = t # str'" "char_ok c t" "here (Many c # its, e) str'"
    from t(3) obtain x w where x: "str' = x @ w" "x \<in> lang (Many c # its)" "e \<longrightarrow> w = []" by (rule hereE)
    from x(2) obtain v v' where v: "x = v @ v'" "\<forall>t \<in> set v. char_ok c t" "v' \<in> lang its" by auto
    have "\<exists>a b. t # x = a @ b \<and> (\<forall>t \<in> set a. char_ok c t) \<and> b \<in> lang its"
      using v t(2) by (intro exI [of _ "t # v"] exI [of _ v']) simp
    then have "t # x \<in> lang (Many c # its)" by auto
    from hereI [OF this x(3)] show ?thesis by (simp add: t(1) x(1))
  qed
qed

lemma match_here_star:
  "matchhere re str \<longleftrightarrow> here (items re) str"
  "matchstar c re str \<longleftrightarrow> here (Many c # fst (items re), snd (items re)) str"
proof (induction re str and c re str rule: matchhere_matchstar.induct)
  case (1 str)
  then show ?case by (simp add: here_Nil)
next
  case (2 c re str)
  show ?case
  proof (cases re)
    case Nil
    then show ?thesis using 2 by (cases str) (auto simp: here_One here_Nil char_ok_def)
  next
    case (Cons d re')
    then show ?thesis using 2 by (cases str) (auto simp: here_One char_ok_def)
  qed
next
  case (3 c re str)
  then show ?case
    by (subst here_Many, cases str) (auto simp: char_ok_def)
qed

lemma match_loop_suffix: "match_loop re str \<longleftrightarrow> (\<exists>u w. str = u @ w \<and> matchhere re w)"
proof (induction re str rule: match_loop.induct)
  case (2 re t str)
  show ?case
  proof
    assume "match_loop re (t # str)"
    then show "\<exists>u w. t # str = u @ w \<and> matchhere re w" using 2 by (auto intro: exI [of _ "[]"]) (metis append_Cons)
  next
    assume "\<exists>u w. t # str = u @ w \<and> matchhere re w"
    then obtain u w where u: "t # str = u @ w" "matchhere re w" by blast
    then show "match_loop re (t # str)" using 2 by (cases u) auto
  qed
qed simp

section \<open>Lines\<close>

fun full_lines :: "u8 list \<Rightarrow> u8 list \<Rightarrow> u8 list list" where
  "full_lines acc [] = []"
| "full_lines acc (c # cs) = (if c = 10 then rev acc # full_lines [] cs else full_lines (c # acc) cs)"

definition grep_spec :: "u8 list \<Rightarrow> u8 list \<Rightarrow> u8 list" where
  "grep_spec pattern inp = concat (map (\<lambda>l. if gmatch pattern l then l @ [10] else []) (full_lines [] inp))"

text \<open>No part of the data without a newline is longer than the buffer can hold.\<close>

definition short_lines :: "u8 list \<Rightarrow> bool" where
  "short_lines cs \<longleftrightarrow> (\<forall>u l w. cs = u @ l @ w \<longrightarrow> 10 \<notin> set l \<longrightarrow> length l + 2 \<le> GREPBUF)"

lemma split_line_None: "0 \<notin> set p \<Longrightarrow> split_line p = None \<longleftrightarrow> 10 \<notin> set p"
  by (induction p) auto

lemma split_line_Some: "0 \<notin> set p \<Longrightarrow> split_line p = Some (l, r) \<longleftrightarrow> p = l @ 10 # r \<and> 10 \<notin> set l"
proof (induction p arbitrary: l)
  case (Cons c p)
  then show ?case by (cases l) auto
qed simp

lemma full_lines_none: "10 \<notin> set p \<Longrightarrow> full_lines acc p = []"
  by (induction acc p rule: full_lines.induct) auto

lemma full_lines_line: "10 \<notin> set l \<Longrightarrow> full_lines acc (l @ 10 # r) = (rev acc @ l) # full_lines [] r"
  by (induction l arbitrary: acc) auto

lemma grep_lines_ok:
  assumes "0 \<notin> set p" and "grep_lines pattern p = (out, k)"
  shows "out = grep_spec pattern p \<and> 10 \<notin> set k \<and> (\<exists>u. p = u @ k \<and> (10 \<in> set p \<longrightarrow> u \<noteq> []))"
  using assms
proof (induction pattern p arbitrary: out rule: grep_lines.induct)
  case (1 pattern p)
  show ?case
  proof (cases "split_line p")
    case None
    then have "10 \<notin> set p" using 1(2) by (simp add: split_line_None)
    then show ?thesis using 1(3) None by (simp add: grep_lines.simps [of pattern p] grep_spec_def full_lines_none)
  next
    case (Some lr)
    obtain l r where lr: "lr = (l, r)" by (cases lr) auto
    have p: "p = l @ 10 # r" "10 \<notin> set l" using Some 1(2) by (simp_all add: lr split_line_Some)
    obtain o2 k2 where g: "grep_lines pattern r = (o2, k2)" by (cases "grep_lines pattern r") auto
    have 0: "0 \<notin> set r" using 1(2) p(1) by simp
    have "out = (if gmatch pattern l then l @ [10] else []) @ o2" "k = k2"
      using 1(3) Some lr g by (simp_all add: grep_lines.simps [of pattern p])
    moreover have "o2 = grep_spec pattern r \<and> 10 \<notin> set k2 \<and> (\<exists>u. r = u @ k2 \<and> (10 \<in> set r \<longrightarrow> u \<noteq> []))"
      using 1(1) [OF Some lr [symmetric] 0, of o2] g \<open>k = k2\<close> by simp
    moreover have "grep_spec pattern p = (if gmatch pattern l then l @ [10] else []) @ grep_spec pattern r"
      using full_lines_line [OF p(2), of "[]" r] by (simp add: grep_spec_def p(1))
    ultimately have R: "out = grep_spec pattern p" "10 \<notin> set k" "\<exists>u. r = u @ k" by auto
    then obtain u where "r = u @ k" by blast
    then have "p = (l @ 10 # u) @ k" by (simp add: p(1))
    then show ?thesis using R(1,2) by blast
  qed
qed

lemma grep_spec_append:
  assumes "0 \<notin> set p" and "grep_lines pattern p = (out, k)"
  shows "grep_spec pattern (p @ q) = out @ grep_spec pattern (k @ q)"
  using assms
proof (induction pattern p arbitrary: out rule: grep_lines.induct)
  case (1 pattern p)
  show ?case
  proof (cases "split_line p")
    case None
    then show ?thesis using 1(3) by (simp add: grep_lines.simps [of pattern p])
  next
    case (Some lr)
    obtain l r where lr: "lr = (l, r)" by (cases lr) auto
    have p: "p = l @ 10 # r" "10 \<notin> set l" using Some 1(2) by (simp_all add: lr split_line_Some)
    obtain o2 k2 where g: "grep_lines pattern r = (o2, k2)" by (cases "grep_lines pattern r") auto
    have 0: "0 \<notin> set r" using 1(2) p(1) by simp
    have "out = (if gmatch pattern l then l @ [10] else []) @ o2" "k = k2"
      using 1(3) Some lr g by (simp_all add: grep_lines.simps [of pattern p])
    moreover have "grep_spec pattern (r @ q) = o2 @ grep_spec pattern (k2 @ q)"
      using 1(1) [OF Some lr [symmetric] 0, of o2] g \<open>k = k2\<close> by simp
    ultimately show ?thesis
      using full_lines_line [OF p(2), of "[]" "r @ q"] by (simp add: grep_spec_def p(1))
  qed
qed

lemma short_lines_suffix: "short_lines (u @ v) \<Longrightarrow> short_lines v"
  unfolding short_lines_def by (metis append_assoc)

lemma grep_loop_end: "grep_loop pattern keep [] = []"
  by (simp add: grep_loop.simps)

lemma grep_loop_file:
  assumes "0 \<notin> set (keep @ cs)" and "short_lines (keep @ cs)" and "10 \<notin> set keep"
  shows "grep_loop pattern keep [cs] = grep_spec pattern (keep @ cs)"
  using assms
proof (induction "length cs" arbitrary: keep cs rule: less_induct)
  case less
  have k: "length keep + 2 \<le> GREPBUF"
    using less.prems(2,3) unfolding short_lines_def by (metis append_Nil)
  define n where "n = GREPBUF - length keep - 1"
  have n: "0 < n" "length keep + n + 1 = GREPBUF" using k by (simp_all add: n_def)
  have nn: "GREPBUF - Suc (length keep) = n" by (simp add: n_def)
  define bytes where "bytes = take n cs"
  obtain out p where g: "grep_lines pattern (keep @ bytes) = (out, p)" by (cases "grep_lines pattern (keep @ bytes)") auto
  have 0: "0 \<notin> set (keep @ bytes)" using less.prems(1) by (auto simp: bytes_def dest: in_set_takeD)
  note G = grep_lines_ok [OF 0 g]
  show ?case
  proof (cases "length cs \<le> n")
    case True
    show ?thesis
    proof (cases "cs = []")
      case True
      then show ?thesis using less.prems(3) by (simp add: grep_loop.simps grep_spec_def full_lines_none)
    next
      case False
      then show ?thesis
        using True G g by (subst grep_loop.simps) (simp add: bytes_def nn grep_loop_end)
    qed
  next
    case False
    have nb: "bytes \<noteq> []" using False n(1) by (auto simp: bytes_def)
    have "length (keep @ bytes) + 1 = GREPBUF" using False n(2) by (simp add: bytes_def)
    moreover have eq: "keep @ cs = (keep @ bytes) @ drop n cs" by (simp add: bytes_def)
    ultimately have "10 \<in> set (keep @ bytes)"
      using less.prems(2) unfolding short_lines_def by (metis append_Nil Suc_eq_plus1 add_2_eq_Suc' not_less_eq_eq order_refl)
    then obtain u where u: "keep @ bytes = u @ p" "u \<noteq> []" and p: "10 \<notin> set p" using G by blast
    have pl: "length p \<noteq> length (keep @ bytes)" using u by simp
    have "keep @ cs = u @ (p @ drop n cs)" using eq u(1) by simp
    then have sl: "short_lines (p @ drop n cs)" "0 \<notin> set (p @ drop n cs)"
      using less.prems(1,2) short_lines_suffix [of u] by auto
    have "grep_loop pattern keep [cs] = out @ grep_loop pattern p [drop n cs]"
      using False nb g pl by (subst grep_loop.simps) (simp add: bytes_def nn)
    also have "grep_loop pattern p [drop n cs] = grep_spec pattern (p @ drop n cs)"
      using less.hyps [OF _ sl(2,1) p] False n(1) by simp
    also have "out @ \<dots> = grep_spec pattern (keep @ cs)"
      using grep_spec_append [OF 0 g, of "drop n cs"] eq by simp
    finally show ?thesis .
  qed
qed

section \<open>Properties\<close>

text \<open>
  C20. The matcher decides its regular language: \<open>match(re, text)\<close> returns true exactly if the text has a part in the
  language of the pattern, at the beginning of the text if the pattern starts with a caret and at its end if
  the pattern ends with a dollar sign. The recursion of \<open>matchhere\<close> and \<open>matchstar\<close> ends on every input.
\<close>

theorem gmatch_correct:
  "gmatch re str \<longleftrightarrow>
     (let anchored = (re \<noteq> [] \<and> hd re = 94); (its, at_end) = items (if anchored then tl re else re)
      in \<exists>u v w. str = u @ v @ w \<and> v \<in> lang its \<and> (u = [] \<or> \<not> anchored) \<and> (w = [] \<or> \<not> at_end))"
  by (auto simp: gmatch_def match_loop_suffix match_here_star here_def Let_def split: prod.splits)

theorem gmatch_correct_witness: "gmatch [98, 36] [97, 98] \<and> \<not> gmatch [94, 98] [97, 98]"
proof
  show "gmatch [98, 36] [97, 98]"
    unfolding gmatch_correct
    by (simp, rule exI [of _ "[97]"], rule exI [of _ "[98]"], simp add: char_ok_def)
  show "\<not> gmatch [94, 98] [97, 98]"
    unfolding gmatch_correct by (auto simp: char_ok_def split: prod.splits)
qed

text \<open>
  C21. On a file, whose reads deliver as much as they are asked for, \<open>grep\<close> writes exactly the complete lines that
  match, in order, wherever the boundaries of its 1024-byte buffer fall, provided the data has no zero byte and no
  line longer than the buffer can hold.
\<close>

theorem grep_file_lines:
  assumes "0 \<notin> set cs" and "short_lines cs"
  shows "grep pattern [cs] = grep_spec pattern cs"
  using grep_loop_file [of "[]" cs pattern] assms by (simp add: grep_def)

theorem grep_file_lines_witness: "grep [97] [[97, 98, 10, 98, 10]] = [97, 98, 10]"
proof -
  have "short_lines [97, 98, 10, 98, 10]"
    unfolding short_lines_def
  proof (intro allI impI)
    fix u l w :: "u8 list"
    assume "[97, 98, 10, 98, 10] = u @ l @ w"
    then have "length [97, 98, 10, 98, 10 :: u8] = length (u @ l @ w)" by (rule arg_cong)
    then show "length l + 2 \<le> GREPBUF" by (simp add: GREPBUF_def)
  qed
  from grep_file_lines [OF _ this, of "[97]"] show ?thesis by (simp add: grep_spec_def gmatch_def)
qed

text \<open>
  From a pipe, a read may end before the end of a line. Then \<open>p == buf\<close>, and \<open>m = 0\<close> drops what was read.
\<close>

lemma grep_drops_short_reads:
  "grep [97] [[97, 98], [10]] = []" "grep [97] [[97, 98, 10]] = [97, 98, 10]"
  by (simp_all add: grep_def grep_loop.simps grep_lines.simps GREPBUF_def gmatch_def)

end
