(* ===== verification/Filters.thy ===== *)
theory Filters
  imports Grep Ulib
begin

text \<open>
  The small user programs \<open>wc.c\<close>, \<open>cat.c\<close>, \<open>echo.c\<close>, \<open>ls.c\<close> (the formatting of names), \<open>rm.c\<close>, \<open>mkdir.c\<close>, \<open>ln.c\<close>,
  \<open>kill.c\<close> and the main function of \<open>grep.c\<close>. Arguments are lists of bytes, \<open>argv[0]\<close> not among them; output is the list of bytes
  written. A file that \<open>open\<close> finds is given by the chunks its reads deliver. The calls that change the file system
  are functions on a state of any type.

  The lemmas show that \<open>wc\<close> and \<open>cat\<close> do not depend on how their input is cut into reads, that \<open>wc\<close> counts
  lines, words and bytes modulo \<open>2^32\<close>, and what \<open>ls\<close> prints for a name.
\<close>

section \<open>What the programs print\<close>

text \<open>A call of \<open>printf\<close> with its descriptor, format and arguments; the output of \<open>write(1, ...)\<close>.\<close>

datatype arg = AS "u8 list" | AD s32

datatype emit = Printf nat string "arg list" | Write "u8 list"

definition line :: "string \<Rightarrow> string" where
  "line fmt = fmt @ [CHR 0x0A]"

text \<open>An open file: what its reads deliver, and whether the read after that is an error (-1) or the end (0).\<close>

type_synonym infile = "u8 list list \<times> bool"

section \<open>wc.c and cat.c\<close>

text \<open>\<open>strchr(" \r\t\n\v", c)\<close>\<close>

definition wc_space :: "u8 \<Rightarrow> bool" where
  "wc_space c \<longleftrightarrow> c \<in> {32, 13, 9, 10, 11}"

record wcst =
  wl :: s32
  ww :: s32
  wcc :: s32
  inword :: bool

definition wc_byte :: "u8 \<Rightarrow> wcst \<Rightarrow> wcst" where
  "wc_byte b s =
     (let s = s\<lparr>wcc := wcc s + 1\<rparr>;
          s = (if b = 10 then s\<lparr>wl := wl s + 1\<rparr> else s)
      in if wc_space b then s\<lparr>inword := False\<rparr>
         else if \<not> inword s then s\<lparr>ww := ww s + 1, inword := True\<rparr> else s)"

text \<open>A loop on the reads of 512 bytes that stops at a read of no bytes.\<close>

function wc_loop :: "u8 list list \<Rightarrow> wcst \<Rightarrow> wcst" where
  "wc_loop inp s =
     (let (bytes, inp') = read_chunk 512 inp
      in if bytes = [] then s else wc_loop inp' (fold wc_byte bytes s))"
  by pat_completeness auto
termination
proof (relation "measure (\<lambda>(inp, _). length (concat inp))", simp)
  fix inp s x bytes inp'
  assume "x = read_chunk 512 inp" "(bytes, inp') = x" "bytes \<noteq> []"
  then show "((inp', fold wc_byte bytes s), inp, s) \<in> measure (\<lambda>(inp, _). length (concat inp))"
    by (cases inp) (auto split: if_splits)
qed

declare wc_loop.simps [simp del]

text \<open>The second component is whether the program goes on after the call.\<close>

definition wc :: "u8 list \<Rightarrow> infile \<Rightarrow> emit list \<times> bool" where
  "wc name f =
     (let s = wc_loop (fst f) \<lparr>wl = 0, ww = 0, wcc = 0, inword = False\<rparr>
      in if snd f then ([Printf 1 (line ''wc: read error'') []], False)
         else ([Printf 1 (line ''%d %d %d %s'') [AD (wl s), AD (ww s), AD (wcc s), AS name]], True))"

text \<open>The result of each \<open>write\<close> is a function of the bytes written before.\<close>

function cat_loop :: "(u8 list \<Rightarrow> u8 list \<Rightarrow> s32) \<Rightarrow> u8 list \<Rightarrow> u8 list list \<Rightarrow> bool \<Rightarrow> emit list \<times> bool" where
  "cat_loop wr out inp err =
     (let (bytes, inp') = read_chunk 512 inp
      in if bytes = [] then
           (if err then ([Printf 1 (line ''cat: read error'') []], False) else ([], True))
         else if wr out bytes \<noteq> of_nat (length bytes) then
           ([Write bytes, Printf 1 (line ''cat: write error'') []], False)
         else let (es, go) = cat_loop wr (out @ bytes) inp' err in (Write bytes # es, go))"
  by pat_completeness auto
termination
proof (relation "measure (\<lambda>(_, _, inp, _). length (concat inp))", simp)
  fix wr :: "u8 list \<Rightarrow> u8 list \<Rightarrow> s32" and out inp err x bytes inp'
  assume "x = read_chunk 512 inp" "(bytes, inp') = x" "bytes \<noteq> []"
  then show "((wr, out @ bytes, inp', err), wr, out, inp, err) \<in> measure (\<lambda>(_, _, inp, _). length (concat inp))"
    by (cases inp) (auto split: if_splits)
qed

declare cat_loop.simps [simp del]

definition cat :: "(u8 list \<Rightarrow> u8 list \<Rightarrow> s32) \<Rightarrow> infile \<Rightarrow> emit list \<times> bool" where
  "cat wr f = cat_loop wr [] (fst f) (snd f)"

text \<open>The loop of the three main functions on their files: the first file that cannot be opened ends the program.\<close>

fun each_file :: "string \<Rightarrow> (u8 list \<Rightarrow> infile option) \<Rightarrow> (u8 list \<Rightarrow> infile \<Rightarrow> emit list \<times> bool) \<Rightarrow> u8 list list \<Rightarrow> emit list" where
  "each_file msg open_rd f [] = []"
| "each_file msg open_rd f (a # args) =
     (case open_rd a of
        None \<Rightarrow> [Printf 1 (line msg) [AS a]]
      | Some inp \<Rightarrow>
          let (es, go) = f a inp
          in if go then es @ each_file msg open_rd f args else es)"

definition wc_main :: "infile \<Rightarrow> (u8 list \<Rightarrow> infile option) \<Rightarrow> u8 list list \<Rightarrow> emit list" where
  "wc_main stdin open_rd args =
     (if args = [] then fst (wc [] stdin) else each_file ''wc: cannot open %s'' open_rd wc args)"

definition cat_main :: "(u8 list \<Rightarrow> u8 list \<Rightarrow> s32) \<Rightarrow> infile \<Rightarrow> (u8 list \<Rightarrow> infile option) \<Rightarrow> u8 list list \<Rightarrow> emit list" where
  "cat_main wr stdin open_rd args =
     (if args = [] then fst (cat wr stdin) else each_file ''cat: cannot open %s'' open_rd (\<lambda>_. cat wr) args)"

definition grep_main :: "infile \<Rightarrow> (u8 list \<Rightarrow> infile option) \<Rightarrow> u8 list list \<Rightarrow> emit list" where
  "grep_main stdin open_rd args =
     (case args of
        [] \<Rightarrow> [Printf 2 (line ''usage: grep pattern [file ...]'') []]
      | [pattern] \<Rightarrow> [Write (grep pattern (fst stdin))]
      | pattern # files \<Rightarrow>
          each_file ''grep: cannot open %s'' open_rd (\<lambda>_ f. ([Write (grep pattern (fst f))], True)) files)"

section \<open>echo.c, ls.c\<close>

fun echo_main :: "u8 list list \<Rightarrow> emit list" where
  "echo_main [] = []"
| "echo_main [a] = [Printf 1 ''%s%s'' [AS a, AS [10]]]"
| "echo_main (a # args) = Printf 1 ''%s%s'' [AS a, AS [32]] # echo_main args"

text \<open>\<open>fmtname\<close>: the part after the last slash, padded with blanks.\<close>

definition fmtname :: "u8 list \<Rightarrow> u8 list" where
  "fmtname path =
     (let p = rev (takeWhile (\<lambda>c. c \<noteq> 47) (rev path))
      in if length p \<ge> DIRSIZ then p else p @ replicate (DIRSIZ - length p) 32)"

text \<open>
  \<open>ls\<close>: what \<open>open\<close> and \<open>fstat\<close> give for the path, with the directory entries that can be read from it
  (\<open>inum\<close> and the fourteen bytes of the name), and what \<open>stat\<close> gives for the entries' paths.
\<close>

definition ls_line :: "u8 list \<Rightarrow> statr \<Rightarrow> emit" where
  "ls_line path st =
     Printf 1 (line ''%s %d %d %d'') [AS (fmtname path), AD (scast (st_type st)), AD (st_ino st), AD (st_size st)]"

fun ls_entries :: "(u8 list \<Rightarrow> statr option) \<Rightarrow> u8 list \<Rightarrow> (u16 \<times> u8 list) list \<Rightarrow> emit list" where
  "ls_entries stat path [] = []"
| "ls_entries stat path ((inum, name) # des) =
     (if inum = 0 then ls_entries stat path des
      else
        let buf = path @ [47] @ takeWhile (\<lambda>c. c \<noteq> 0) name
        in (case stat buf of
              None \<Rightarrow> Printf 1 (line ''ls: cannot stat %s'') [AS buf]
            | Some st \<Rightarrow> ls_line buf st) # ls_entries stat path des)"

definition ls :: "(u8 list \<Rightarrow> (statr option \<times> (u16 \<times> u8 list) list) option) \<Rightarrow> (u8 list \<Rightarrow> statr option) \<Rightarrow> u8 list \<Rightarrow> emit list" where
  "ls open_rd stat path =
     (case open_rd path of
        None \<Rightarrow> [Printf 2 (line ''ls: cannot open %s'') [AS path]]
      | Some (None, des) \<Rightarrow> [Printf 2 (line ''ls: cannot stat %s'') [AS path]]
      | Some (Some st, des) \<Rightarrow>
          if st_type st = 2 then [ls_line path st]
          else if st_type st = 1 then
            (if length path + 1 + DIRSIZ + 1 > 512 then [Printf 1 (line ''ls: path too long'') []]
             else ls_entries stat path des)
          else [])"

section \<open>rm.c, mkdir.c, ln.c, kill.c\<close>

text \<open>\<open>rm\<close> and \<open>mkdir\<close> stop at the first call that fails.\<close>

fun each_until_fail :: "(u8 list \<Rightarrow> 's \<Rightarrow> s32 \<times> 's) \<Rightarrow> string \<Rightarrow> u8 list list \<Rightarrow> 's \<Rightarrow> emit list \<times> 's" where
  "each_until_fail f msg [] s = ([], s)"
| "each_until_fail f msg (a # args) s =
     (let (r, s) = f a s
      in if sint r < 0 then ([Printf 2 (line msg) [AS a]], s) else each_until_fail f msg args s)"

definition rm_main :: "(u8 list \<Rightarrow> 's \<Rightarrow> s32 \<times> 's) \<Rightarrow> u8 list list \<Rightarrow> 's \<Rightarrow> emit list \<times> 's" where
  "rm_main unlink args s =
     (if args = [] then ([Printf 2 (line ''Usage: rm files...'') []], s)
      else each_until_fail unlink ''rm: %s failed to delete'' args s)"

definition mkdir_main :: "(u8 list \<Rightarrow> 's \<Rightarrow> s32 \<times> 's) \<Rightarrow> u8 list list \<Rightarrow> 's \<Rightarrow> emit list \<times> 's" where
  "mkdir_main mkdir args s =
     (if args = [] then ([Printf 2 (line ''Usage: mkdir files...'') []], s)
      else each_until_fail mkdir ''mkdir: %s failed to create'' args s)"

definition ln_main :: "(u8 list \<Rightarrow> u8 list \<Rightarrow> 's \<Rightarrow> s32 \<times> 's) \<Rightarrow> u8 list list \<Rightarrow> 's \<Rightarrow> emit list \<times> 's" where
  "ln_main link args s =
     (case args of
        [old, new] \<Rightarrow>
          let (r, s) = link old new s
          in if sint r < 0 then ([Printf 2 (line ''link %s %s: failed'') [AS old, AS new]], s) else ([], s)
      | _ \<Rightarrow> ([Printf 2 (line ''Usage: ln old new'') []], s))"

text \<open>The arguments of \<open>kill\<close> are addresses of strings in memory.\<close>

fun kill_each :: "(s32 \<Rightarrow> 's \<Rightarrow> 's) \<Rightarrow> mem \<Rightarrow> u32 list \<Rightarrow> 's \<Rightarrow> 's option" where
  "kill_each kill m [] s = Some s"
| "kill_each kill m (a # args) s =
     (case atoi m a of None \<Rightarrow> None | Some pid \<Rightarrow> kill_each kill m args (kill pid s))"

definition kill_main :: "(s32 \<Rightarrow> 's \<Rightarrow> 's) \<Rightarrow> mem \<Rightarrow> u32 list \<Rightarrow> 's \<Rightarrow> (emit list \<times> 's) option" where
  "kill_main kill m args s =
     (if args = [] then Some ([Printf 2 (line ''usage: kill pid...'') []], s)
      else map_option (Pair []) (kill_each kill m args s))"

section \<open>Lemmas\<close>

text \<open>Data without empty reads: a read of no bytes means the end.\<close>

lemma read_chunk_concat:
  assumes "\<forall>c \<in> set inp. c \<noteq> []" and "0 < n" and "read_chunk n inp = (bytes, inp')"
  shows "concat inp = bytes @ concat inp'" "\<forall>c \<in> set inp'. c \<noteq> []" "bytes = [] \<longleftrightarrow> inp = []"
  using assms by (cases inp; auto split: if_splits)+

lemma wc_loop_fold: "\<forall>c \<in> set inp. c \<noteq> [] \<Longrightarrow> wc_loop inp s = fold wc_byte (concat inp) s"
proof (induction inp s rule: wc_loop.induct)
  case (1 inp s)
  obtain bytes inp' where r: "read_chunk 512 inp = (bytes, inp')" by (cases "read_chunk 512 inp") auto
  note R = read_chunk_concat [OF 1(2) _ r, simplified]
  show ?case
  proof (cases "bytes = []")
    case True
    then show ?thesis using R(3) r by (subst wc_loop.simps) simp
  next
    case False
    have "wc_loop inp' (fold wc_byte bytes s) = fold wc_byte (concat inp') (fold wc_byte bytes s)"
      using 1(1) [OF r [symmetric] refl False R(2)] .
    then show ?thesis using False r R(1) by (subst wc_loop.simps) simp
  qed
qed

text \<open>What is written to the standard output.\<close>

fun written :: "emit list \<Rightarrow> u8 list" where
  "written [] = []"
| "written (Write bs # es) = bs @ written es"
| "written (Printf fd fmt args # es) = written es"

lemma cat_loop_copies:
  "\<forall>c \<in> set inp. c \<noteq> [] \<Longrightarrow> \<forall>out bs. wr out bs = of_nat (length bs) \<Longrightarrow>
   written (fst (cat_loop wr out inp err)) = concat inp \<and> snd (cat_loop wr out inp err) = (\<not> err)"
proof (induction wr out inp err rule: cat_loop.induct)
  case (1 wr out inp err)
  obtain bytes inp' where r: "read_chunk 512 inp = (bytes, inp')" by (cases "read_chunk 512 inp") auto
  note R = read_chunk_concat [OF 1(2) _ r, simplified]
  show ?case
  proof (cases "bytes = []")
    case True
    then show ?thesis using R r by (subst (1 2) cat_loop.simps) simp
  next
    case False
    have w: "wr out bytes = of_nat (length bytes)" using 1(3) by blast
    have "written (fst (cat_loop wr (out @ bytes) inp' err)) = concat inp' \<and> snd (cat_loop wr (out @ bytes) inp' err) = (\<not> err)"
      using 1(1) [OF r [symmetric] refl False _ R(2) 1(3)] w by blast
    then show ?thesis using False w R(1) r by (subst (1 2) cat_loop.simps) (simp add: case_prod_unfold Let_def)
  qed
qed

text \<open>The number of words: positions of a non-blank at the beginning or after a blank.\<close>

definition word_count :: "u8 list \<Rightarrow> nat" where
  "word_count cs = card {i. i < length cs \<and> \<not> wc_space (cs ! i) \<and> (i = 0 \<or> wc_space (cs ! (i - 1)))}"

lemma word_count_snoc:
  "word_count (cs @ [c]) = word_count cs + (if \<not> wc_space c \<and> (cs = [] \<or> wc_space (last cs)) then 1 else 0)"
proof -
  let ?P = "\<lambda>cs i. i < length cs \<and> \<not> wc_space (cs ! i) \<and> (i = 0 \<or> wc_space (cs ! (i - 1)))"
  have "{i. ?P (cs @ [c]) i} = {i. ?P cs i} \<union> (if \<not> wc_space c \<and> (cs = [] \<or> wc_space (last cs)) then {length cs} else {})"
    by (cases cs rule: rev_cases) (auto simp: nth_append less_Suc_eq)
  then show ?thesis by (simp add: word_count_def)
qed

lemma wc_fold:
  "fold wc_byte cs \<lparr>wl = 0, ww = 0, wcc = 0, inword = False\<rparr> =
     \<lparr>wl = of_nat (count_list cs 10), ww = of_nat (word_count cs), wcc = of_nat (length cs),
      inword = (cs \<noteq> [] \<and> \<not> wc_space (last cs))\<rparr>"
proof (induction cs rule: rev_induct)
  case Nil
  show ?case by (simp add: word_count_def)
next
  case (snoc c cs)
  have "wc_space 10" by (simp add: wc_space_def)
  then show ?case using snoc by (auto simp: wc_byte_def word_count_snoc Let_def)
qed

text \<open>
  C22. \<open>wc\<close> prints the number of newlines, of maximal runs of non-blank bytes and of bytes, each modulo \<open>2^32\<close>,
  however the input is cut into reads, and ends the program when a read fails.
\<close>

theorem wc_counts:
  assumes "\<forall>c \<in> set inp. c \<noteq> []"
  shows "wc name (inp, err) =
           (if err then ([Printf 1 (line ''wc: read error'') []], False)
            else ([Printf 1 (line ''%d %d %d %s'')
                     [AD (of_nat (count_list (concat inp) 10)), AD (of_nat (word_count (concat inp))),
                      AD (of_nat (length (concat inp))), AS name]], True))"
  by (simp add: wc_def wc_loop_fold [OF assms] wc_fold Let_def)

theorem wc_counts_witness:
  "wc [] ([[97, 32], [98, 10]], False) = ([Printf 1 (line ''%d %d %d %s'') [AD 1, AD 2, AD 4, AS []]], True)"
proof -
  have "word_count [97, 32, 98, 10] = 2"
    using word_count_snoc [of "[97, 32, 98]" 10] word_count_snoc [of "[97, 32]" 98] word_count_snoc [of "[97]" 32]
      word_count_snoc [of "[]" 97]
    by (simp add: wc_space_def word_count_def [of "[]"])
  then show ?thesis using wc_counts [of "[[97, 32], [98, 10]]" "[]" False] by simp
qed

lemma fmtname_length: "DIRSIZ \<le> length (fmtname p)"
  by (simp add: fmtname_def Let_def)

text \<open>\<open>rm\<close> removes a prefix of its arguments: all of them unless a call fails.\<close>

lemma each_until_fail_prefix:
  "each_until_fail f msg args s = (es, s') \<Longrightarrow>
   \<exists>k \<le> length args. s' = fold (\<lambda>a s. snd (f a s)) (take k args) s \<and> (es = [] \<longrightarrow> k = length args)"
proof (induction args arbitrary: s)
  case (Cons a args)
  show ?case
  proof (cases "sint (fst (f a s)) < 0")
    case True
    then show ?thesis using Cons.prems by (intro exI [of _ 1]) (auto simp: case_prod_unfold Let_def)
  next
    case False
    then have "each_until_fail f msg args (snd (f a s)) = (es, s')" using Cons.prems by (simp add: case_prod_unfold Let_def)
    from Cons.IH [OF this] obtain k where "k \<le> length args" "s' = fold (\<lambda>a s. snd (f a s)) (take k args) (snd (f a s))"
      "es = [] \<longrightarrow> k = length args" by blast
    then show ?thesis by (intro exI [of _ "Suc k"]) simp
  qed
qed simp

end
