(* ===== verification/Sh.thy ===== *)
theory Sh
  imports Prelude "HOL-Library.Sublist"
begin

text \<open>
  The parser of the shell, \<open>sh.c\<close>. The command line is a list of bytes, and a pointer into it is the
  rest of the line from there; \<open>es\<close> is the empty rest. A command is a value of the datatype \<open>cmd\<close>, whose strings
  are pairs of such pointers, \<open>argv[i]\<close> and \<open>eargv[i]\<close>. The parsing functions return the command and the
  moved pointer; \<open>panic\<close> is the outcome \<open>Panic\<close>. The four functions that call each other take a bound
  on the depth of calls; \<open>4 * length + 4\<close> is shown to be enough for every line.

  The lemmas show that parsing ends on every line, that \<open>nulterminate\<close> turns every word into the
  C string of its text, and that every command has a line which is parsed to it.
\<close>

section \<open>Commands\<close>

type_synonym ptr = "u8 list"

datatype cmd =
    Exec "(ptr \<times> ptr) list"
  | Redir cmd ptr ptr s32 s32
  | PipeCmd cmd cmd
  | ListCmd cmd cmd
  | Back cmd

definition MAXARGS :: nat where "MAXARGS = 10"


section \<open>Tokens\<close>

definition whitespace :: "u8 list" where "whitespace = [32, 9, 13, 10, 11]"

text \<open>The bytes of \<open>< | > & ; ( )\<close>.\<close>

definition symbols :: "u8 list" where "symbols = [60, 124, 62, 38, 59, 40, 41]"

definition word_char :: "u8 \<Rightarrow> bool" where
  "word_char c \<longleftrightarrow> c \<notin> set whitespace \<and> c \<notin> set symbols"

definition skip_ws :: "ptr \<Rightarrow> ptr" where
  "skip_ws s = dropWhile (\<lambda>c. c \<in> set whitespace) s"

definition peek :: "u8 list \<Rightarrow> ptr \<Rightarrow> bool \<times> ptr" where
  "peek toks s = (let s = skip_ws s in (s \<noteq> [] \<and> hd s \<in> set toks, s))"

text \<open>The result has \<open>ret\<close>, \<open>*q\<close>, \<open>*eq\<close> and the new \<open>*ps\<close>; \<open>ret\<close> is 97 for a word and 43 for \<open>>>\<close>.\<close>

definition gettoken :: "ptr \<Rightarrow> u8 \<times> ptr \<times> ptr \<times> ptr" where
  "gettoken s =
     (let q = skip_ws s;
          (ret, eq) =
            (case q of
               [] \<Rightarrow> (0, [])
             | c # r \<Rightarrow>
                 if c \<in> {124, 40, 41, 59, 38, 60} then (c, r)
                 else if c = 62 then (if r \<noteq> [] \<and> hd r = 62 then (43, tl r) else (62, r))
                 else (97, dropWhile word_char q))
      in (ret, q, eq, skip_ws eq))"

section \<open>Parsing\<close>

lemma skip_ws_length: "length (skip_ws s) \<le> length s"
  by (simp add: skip_ws_def length_dropWhile_le)

lemma skip_ws_hd: "skip_ws s = c # r \<Longrightarrow> c \<notin> set whitespace"
  unfolding skip_ws_def by (metis (mono_tags) hd_dropWhile list.distinct(1) list.sel(1))

lemma skip_ws_id: "s = [] \<or> hd s \<notin> set whitespace \<Longrightarrow> skip_ws s = s"
  by (cases s) (auto simp: skip_ws_def)

lemma skip_ws_idem [simp]: "skip_ws (skip_ws s) = skip_ws s"
  using skip_ws_hd [of s] by (intro skip_ws_id) (cases "skip_ws s", auto)

text \<open>The three kinds of token: the end of the line, a symbol, a word.\<close>

lemma gettoken_cases:
  assumes "gettoken s = (ret, q, eq, s')"
  obtains (eol) "q = skip_ws s" "q = []" "ret = 0" "eq = []" "s' = []"
    | (sym) "q = skip_ws s" "q \<noteq> []" "hd q \<in> set symbols" "ret \<noteq> 97" "ret \<noteq> 0" "length eq < length q" "s' = skip_ws eq"
    | (word) "q = skip_ws s" "q \<noteq> []" "word_char (hd q)" "ret = 97" "eq = dropWhile word_char q" "s' = skip_ws eq"
proof (cases "skip_ws s")
  case Nil
  moreover have "skip_ws [] = []" by (simp add: skip_ws_def)
  ultimately show ?thesis using assms by (intro eol) (auto simp: gettoken_def Let_def)
next
  case (Cons c r)
  have ws: "c \<notin> set whitespace" using skip_ws_hd [OF Cons] .
  show ?thesis
  proof (cases "c \<in> set symbols")
    case True
    then have "c \<in> {124, 40, 41, 59, 38, 60} \<or> c = 62" by (auto simp: symbols_def)
    moreover have "q = c # r" "s' = skip_ws eq"
      "(ret, eq) = (if c \<in> {124, 40, 41, 59, 38, 60} then (c, r)
        else if c = 62 then (if r \<noteq> [] \<and> hd r = 62 then (43, tl r) else (62, r)) else (97, dropWhile word_char q))"
      using assms by (auto simp: gettoken_def Let_def Cons split: if_splits)
    ultimately show ?thesis
      by (intro sym) (simp_all add: Cons True split: if_splits, auto)
  next
    case False
    then have "\<not> (c \<in> {124, 40, 41, 59, 38, 60})" "c \<noteq> 62" by (auto simp: symbols_def)
    then have "q = c # r" "s' = skip_ws eq" "ret = 97" "eq = dropWhile word_char q"
      using assms by (auto simp: gettoken_def Let_def Cons)
    then show ?thesis using Cons False ws by (intro word) (simp_all add: word_char_def)
  qed
qed

lemma gettoken_length: "gettoken s = (ret, q, eq, s') \<Longrightarrow> length s' \<le> length s \<and> (ret \<noteq> 0 \<longrightarrow> length s' < length s)"
proof -
  assume g: "gettoken s = (ret, q, eq, s')"
  note L = skip_ws_length [of s] skip_ws_length [of eq]
  from g show ?thesis
  proof (cases rule: gettoken_cases)
    case word
    then obtain c r where "q = c # r" by (metis list.exhaust)
    then have "length eq < length q" using word length_dropWhile_le [of word_char r] by simp
    then show ?thesis using word L by auto
  qed (use L in auto)
qed

lemma peek_length: "peek toks s = (b, s') \<Longrightarrow> length s' \<le> length s"
  using skip_ws_length [of s] by (auto simp: peek_def Let_def)

function parseredirs :: "cmd \<Rightarrow> ptr \<Rightarrow> (cmd \<times> ptr) outcome" where
  "parseredirs cmd s =
     (let (b, s) = peek [60, 62] s
      in if \<not> b then Ret (cmd, s)
         else
           let (tok, _, _, s) = gettoken s;
               (t, q, eq, s) = gettoken s
           in if t \<noteq> 97 then Panic ''missing file for redirection''
              else parseredirs
                (if tok = 60 then Redir cmd q eq O_RDONLY 0
                 else Redir cmd q eq (O_WRONLY + O_CREATE) 1) s)"
  by pat_completeness auto
termination
proof (relation "measure (\<lambda>(_, s). length s)", simp)
  fix cmd s x b s1 x1 tok y q1 z eq1 s2 x2 t a q c eq s3
  assume *: "x = peek [60, 62] s" "(b, s1) = x" "\<not> \<not> b" "x1 = gettoken s1" "(tok, y) = x1" "(q1, z) = y" "(eq1, s2) = z"
    "x2 = gettoken s2" "(t, a) = x2" "(q, c) = a" "(eq, s3) = c" "\<not> t \<noteq> 97"
  have "peek [60, 62] s = (b, s1)" "gettoken s1 = (tok, q1, eq1, s2)" "gettoken s2 = (t, q, eq, s3)" using * by simp_all
  then have "length s1 \<le> length s" "length s2 \<le> length s1" "length s3 < length s2"
    using gettoken_length peek_length *(12) by fastforce+
  then show "((if tok = 60 then Redir cmd q eq O_RDONLY 0 else Redir cmd q eq (O_WRONLY + O_CREATE) 1, s3), cmd, s)
    \<in> measure (\<lambda>(_, s). length s)" by simp
qed

declare parseredirs.simps [simp del]

text \<open>
  \<open>parseexec\<close> keeps two pointers, \<open>cmd\<close> to the \<open>execcmd\<close> node and \<open>ret\<close> to the outermost redirection around it;
  storing an argument through \<open>cmd\<close> changes the node inside \<open>ret\<close>.
\<close>

fun add_arg :: "ptr \<times> ptr \<Rightarrow> cmd \<Rightarrow> cmd" where
  "add_arg a (Redir c q eq mode fd) = Redir (add_arg a c) q eq mode fd"
| "add_arg a (Exec args) = Exec (args @ [a])"
| "add_arg a c = c"

function parse_args :: "nat \<Rightarrow> cmd \<Rightarrow> ptr \<Rightarrow> (cmd \<times> ptr) outcome" where
  "parse_args argc ret s =
     (let (b, s) = peek [124, 41, 38, 59] s
      in if b then Ret (ret, s)
         else
           let (tok, q, eq, s) = gettoken s
           in if tok = 0 then Ret (ret, s)
              else if tok \<noteq> 97 then Panic ''syntax''
              else if argc + 1 \<ge> MAXARGS then Panic ''too many args''
              else obind (parseredirs (add_arg (q, eq) ret) s) (\<lambda>(ret, s). parse_args (argc + 1) ret s))"
  by pat_completeness auto
termination by (relation "measure (\<lambda>(argc, _). MAXARGS - argc)") auto

declare parse_args.simps [simp del]

text \<open>\<open>while (peek(ps, es, "&")) { gettoken(ps, es, 0, 0); cmd = backcmd(cmd); }\<close>\<close>

function parse_amps :: "cmd \<Rightarrow> ptr \<Rightarrow> cmd \<times> ptr" where
  "parse_amps cmd s =
     (let (b, s1) = peek [38] s
      in if b then parse_amps (Back cmd) (snd (snd (snd (gettoken s1)))) else (cmd, s1))"
  by pat_completeness auto
termination
proof (relation "measure (\<lambda>(_, s). length s)", simp)
  fix cmd s x b s1
  assume *: "x = peek [38] s" "(b, s1) = x" "b"
  obtain ret q eq s2 where g: "gettoken s1 = (ret, q, eq, s2)" by (cases "gettoken s1") auto
  have s1: "s1 = skip_ws s" "s1 \<noteq> []" "hd s1 = 38" using * by (auto simp: peek_def Let_def)
  then have "skip_ws s1 = s1" by simp
  from g have "ret \<noteq> 0" by (cases rule: gettoken_cases) (use \<open>skip_ws s1 = s1\<close> s1(2) in auto)
  then have "length s2 < length s1" using gettoken_length [OF g] by simp
  then show "((Back cmd, snd (snd (snd (gettoken s1)))), cmd, s) \<in> measure (\<lambda>(_, s). length s)"
    using skip_ws_length [of s] unfolding g s1(1) [symmetric] by simp
qed

declare parse_amps.simps [simp del]

fun parseline :: "nat \<Rightarrow> ptr \<Rightarrow> (cmd \<times> ptr) outcome"
  and parsepipe :: "nat \<Rightarrow> ptr \<Rightarrow> (cmd \<times> ptr) outcome"
  and parseexec :: "nat \<Rightarrow> ptr \<Rightarrow> (cmd \<times> ptr) outcome"
  and parseblock :: "nat \<Rightarrow> ptr \<Rightarrow> (cmd \<times> ptr) outcome" where
  "parseline 0 s = Loop"
| "parseline (Suc n) s =
     obind (parsepipe n s) (\<lambda>(cmd, s).
     let (cmd, s) = parse_amps cmd s;
         (b, s) = peek [59] s
     in if b then
          let (_, _, _, s) = gettoken s
          in obind (parseline n s) (\<lambda>(cmd2, s). Ret (ListCmd cmd cmd2, s))
        else Ret (cmd, s))"
| "parsepipe 0 s = Loop"
| "parsepipe (Suc n) s =
     obind (parseexec n s) (\<lambda>(cmd, s).
     let (b, s) = peek [124] s
     in if b then
          let (_, _, _, s) = gettoken s
          in obind (parsepipe n s) (\<lambda>(cmd2, s). Ret (PipeCmd cmd cmd2, s))
        else Ret (cmd, s))"
| "parseexec 0 s = Loop"
| "parseexec (Suc n) s =
     (let (b, s) = peek [40] s
      in if b then parseblock n s
         else obind (parseredirs (Exec []) s) (\<lambda>(ret, s). parse_args 0 ret s))"
| "parseblock 0 s = Loop"
| "parseblock (Suc n) s =
     (let (b, s) = peek [40] s
      in if \<not> b then Panic ''parseblock''
         else
           let (_, _, _, s) = gettoken s
           in obind (parseline n s) (\<lambda>(cmd, s).
              let (b, s) = peek [41] s
              in if \<not> b then Panic ''syntax - missing )''
                 else let (_, _, _, s) = gettoken s in parseredirs cmd s))"

definition parsecmd :: "ptr \<Rightarrow> cmd outcome" where
  "parsecmd s =
     obind (parseline (4 * length s + 4) s) (\<lambda>(cmd, s).
     let (_, s) = peek [] s
     in if s \<noteq> [] then Panic ''syntax'' else Ret cmd)"

text \<open>\<open>*eq = 0\<close> in the buffer \<open>B\<close>, which has the line and its terminating zero.\<close>

definition zero_at :: "ptr \<Rightarrow> u8 list \<Rightarrow> u8 list" where
  "zero_at eq B = B[length B - 1 - length eq := 0]"

fun nulterminate :: "cmd \<Rightarrow> u8 list \<Rightarrow> u8 list" where
  "nulterminate (Exec args) B = fold (\<lambda>(q, eq). zero_at eq) args B"
| "nulterminate (Redir c q eq mode fd) B = zero_at eq (nulterminate c B)"
| "nulterminate (PipeCmd l r) B = nulterminate r (nulterminate l B)"
| "nulterminate (ListCmd l r) B = nulterminate r (nulterminate l B)"
| "nulterminate (Back c) B = nulterminate c B"

section \<open>Parsing ends\<close>

lemma parseredirs_ends: "parseredirs c s \<noteq> Loop \<and> (\<forall>c' s'. parseredirs c s = Ret (c', s') \<longrightarrow> length s' \<le> length s)"
proof (induction c s rule: parseredirs.induct)
  case (1 c s)
  obtain b s1 where p: "peek [60, 62] s = (b, s1)" by (cases "peek [60, 62] s") auto
  obtain tok q1 e1 s2 where g1: "gettoken s1 = (tok, q1, e1, s2)" by (cases "gettoken s1") auto
  obtain t q e s3 where g2: "gettoken s2 = (t, q, e, s3)" by (cases "gettoken s2") auto
  note L = peek_length [OF p] gettoken_length [OF g1] gettoken_length [OF g2]
  show ?case
  proof (cases "b \<and> t = 97")
    case True
    let ?c = "if tok = 60 then Redir c q e O_RDONLY 0 else Redir c q e (O_WRONLY + O_CREATE) 1"
    have "parseredirs c s = parseredirs ?c s3" using True p g1 g2 by (subst parseredirs.simps) simp
    moreover have "parseredirs ?c s3 \<noteq> Loop \<and> (\<forall>c' s'. parseredirs ?c s3 = Ret (c', s') \<longrightarrow> length s' \<le> length s3)"
      using 1 [OF p [symmetric] refl] True g1 g2 by simp
    ultimately show ?thesis using L by force
  next
    case False
    then have "parseredirs c s = (if b then Panic ''missing file for redirection'' else Ret (c, s1))"
      by (subst parseredirs.simps) (simp add: p g1 g2)
    then show ?thesis using L by auto
  qed
qed

lemma parse_args_ends: "parse_args k c s \<noteq> Loop \<and> (\<forall>c' s'. parse_args k c s = Ret (c', s') \<longrightarrow> length s' \<le> length s)"
proof (induction k c s rule: parse_args.induct)
  case (1 k c s)
  obtain b s1 where p: "peek [124, 41, 38, 59] s = (b, s1)" by (cases "peek [124, 41, 38, 59] s") auto
  obtain tok q e s2 where g: "gettoken s1 = (tok, q, e, s2)" by (cases "gettoken s1") auto
  note L = peek_length [OF p] gettoken_length [OF g]
  show ?case
  proof (cases "\<not> b \<and> tok = 97 \<and> \<not> k + 1 \<ge> MAXARGS")
    case True
    have eq: "parse_args k c s = obind (parseredirs (add_arg (q, e) c) s2) (\<lambda>(ret, s). parse_args (k + 1) ret s)"
      using True p g by (subst parse_args.simps) simp
    show ?thesis
    proof (cases "parseredirs (add_arg (q, e) c) s2")
      case (Ret r)
      obtain c3 s3 where r: "r = (c3, s3)" by (cases r) auto
      have "length s3 \<le> length s2" using parseredirs_ends [of "add_arg (q, e) c" s2] Ret r by blast
      moreover have "parse_args (k + 1) c3 s3 \<noteq> Loop \<and> (\<forall>c' s'. parse_args (k + 1) c3 s3 = Ret (c', s') \<longrightarrow> length s' \<le> length s3)"
        using 1 [OF p [symmetric] refl] True g Ret r by simp
      ultimately show ?thesis using L by (auto simp: eq Ret r)
    qed (use parseredirs_ends [of "add_arg (q, e) c" s2] in \<open>auto simp: eq\<close>)
  next
    case False
    then have "parse_args k c s = (if b then Ret (c, s1) else if tok = 0 then Ret (c, s2)
      else if tok \<noteq> 97 then Panic ''syntax'' else Panic ''too many args'')"
      by (subst parse_args.simps) (auto simp: p g)
    then show ?thesis using L by auto
  qed
qed

lemma parse_amps_length: "parse_amps c s = (c', s') \<Longrightarrow> length s' \<le> length s"
proof (induction c s rule: parse_amps.induct)
  case (1 c s)
  obtain b s1 where p: "peek [38] s = (b, s1)" by (cases "peek [38] s") auto
  obtain tok q e s2 where g: "gettoken s1 = (tok, q, e, s2)" by (cases "gettoken s1") auto
  show ?case
    using 1(1) [OF p [symmetric] refl] 1(2) peek_length [OF p] gettoken_length [OF g]
    by (cases b) (auto simp: parse_amps.simps [of c s] p g)
qed

lemma peek_true:
  assumes "peek toks s = (b, s')" and "b" and "gettoken s' = (tok, q, eq, s'')"
  shows "length s'' < length s"
proof -
  have s': "s' = skip_ws s" "s' \<noteq> []" using assms(1,2) by (auto simp: peek_def Let_def)
  then have "skip_ws s' = s'" by simp
  from assms(3) have "tok \<noteq> 0" by (cases rule: gettoken_cases) (use \<open>skip_ws s' = s'\<close> s'(2) in auto)
  then show ?thesis using gettoken_length [OF assms(3)] skip_ws_length [of s] s'(1) by simp
qed

definition ends :: "nat \<Rightarrow> (cmd \<times> ptr) outcome \<Rightarrow> bool" where
  "ends k r \<longleftrightarrow> r \<noteq> Loop \<and> (\<forall>c s. r = Ret (c, s) \<longrightarrow> length s \<le> k)"

lemma ends_bind:
  assumes "ends k m" and "\<And>c s. length s \<le> k \<Longrightarrow> ends k' (f (c, s))"
  shows "ends k' (obind m f)"
  using assms by (cases m) (auto simp: ends_def)

lemma parse_ends:
  "4 * length s + 4 \<le> n \<Longrightarrow> ends (length s) (parseline n s)"
  "4 * length s + 3 \<le> n \<Longrightarrow> ends (length s) (parsepipe n s)"
  "4 * length s + 2 \<le> n \<Longrightarrow> ends (length s) (parseexec n s)"
  "4 * length s + 1 \<le> n \<Longrightarrow> ends (length s) (parseblock n s)"
proof (induction n arbitrary: s)
  case 0
  { case 1 then show ?case by simp }
  { case 2 then show ?case by simp }
  { case 3 then show ?case by simp }
  { case 4 then show ?case by simp }
next
  case (Suc n)
  have E: "ends k (Ret (c, t))" if "length t \<le> k" for k c t using that by (simp add: ends_def)
  { case 1
    have "ends (length s) (parsepipe n s)" using Suc(2) [of s] 1 by simp
    then show ?case
      unfolding parseline.simps(2)
    proof (rule ends_bind)
      fix c and t :: ptr
      assume t: "length t \<le> length s"
      obtain c1 t1 where a: "parse_amps c t = (c1, t1)" by (cases "parse_amps c t") auto
      obtain b t2 where p: "peek [59] t1 = (b, t2)" by (cases "peek [59] t1") auto
      obtain x q e t3 where g: "gettoken t2 = (x, q, e, t3)" by (cases "gettoken t2") auto
      note L = t parse_amps_length [OF a] peek_length [OF p]
      have "ends (length s) (obind (parseline n t3) (\<lambda>(cmd2, s). Ret (ListCmd c1 cmd2, s)))" if b
      proof (rule ends_bind [of "length t3"])
        have "length t3 < length t1" using peek_true [OF p that g] by simp
        then have len: "length t3 < length s" using L by simp
        then show "ends (length t3) (parseline n t3)" using Suc(1) [of t3] 1 by simp
        show "ends (length s) (case (c2, u) of (cmd2, s) \<Rightarrow> Ret (ListCmd c1 cmd2, s))" if "length u \<le> length t3" for c2 u
          using that len by (simp add: ends_def)
      qed
      then show "ends (length s) (case (c, t) of (cmd, s) \<Rightarrow> let (cmd, s) = parse_amps cmd s; (b, s) = peek [59] s
         in if b then let (_, _, _, s) = gettoken s in obind (parseline n s) (\<lambda>(cmd2, s). Ret (ListCmd cmd cmd2, s)) else Ret (cmd, s))"
        using L by (simp add: a p g E)
    qed }
  { case 2
    have "ends (length s) (parseexec n s)" using Suc(3) [of s] 2 by simp
    then show ?case
      unfolding parsepipe.simps(2)
    proof (rule ends_bind)
      fix c and t :: ptr
      assume t: "length t \<le> length s"
      obtain b t2 where p: "peek [124] t = (b, t2)" by (cases "peek [124] t") auto
      obtain x q e t3 where g: "gettoken t2 = (x, q, e, t3)" by (cases "gettoken t2") auto
      have "ends (length s) (obind (parsepipe n t3) (\<lambda>(cmd2, s). Ret (PipeCmd c cmd2, s)))" if b
      proof (rule ends_bind [of "length t3"])
        have len: "length t3 < length s" using peek_true [OF p that g] t by simp
        then show "ends (length t3) (parsepipe n t3)" using Suc(2) [of t3] 2 by simp
        show "ends (length s) (case (c2, u) of (cmd2, s) \<Rightarrow> Ret (PipeCmd c cmd2, s))" if "length u \<le> length t3" for c2 u
          using that len by (simp add: ends_def)
      qed
      then show "ends (length s) (case (c, t) of (cmd, s) \<Rightarrow> let (b, s) = peek [124] s
         in if b then let (_, _, _, s) = gettoken s in obind (parsepipe n s) (\<lambda>(cmd2, s). Ret (PipeCmd cmd cmd2, s)) else Ret (cmd, s))"
        using t peek_length [OF p] by (simp add: p g E)
    qed }
  { case 3
    obtain b t where p: "peek [40] s = (b, t)" by (cases "peek [40] s") auto
    have t: "length t \<le> length s" by (rule peek_length [OF p])
    have "ends (length s) (parseblock n t)" using Suc(4) [of t] 3 t by (auto simp: ends_def)
    moreover have "ends (length s) (obind (parseredirs (Exec []) t) (\<lambda>(ret, s). parse_args 0 ret s))"
      by (rule ends_bind [of "length t"])
        (use parseredirs_ends [of "Exec []" t] parse_args_ends t in \<open>fastforce simp: ends_def\<close>)+
    ultimately show ?case by (simp add: p) }
  { case 4
    obtain b t where p: "peek [40] s = (b, t)" by (cases "peek [40] s") auto
    obtain x q e t1 where g: "gettoken t = (x, q, e, t1)" by (cases "gettoken t") auto
    have "ends (length s) (obind (parseline n t1) (\<lambda>(cmd, s). let (b, s) = peek [41] s
       in if \<not> b then Panic ''syntax - missing )'' else let (_, _, _, s) = gettoken s in parseredirs cmd s))" if b
    proof (rule ends_bind [of "length t1"])
      have len: "length t1 < length s" using peek_true [OF p that g] by simp
      then show "ends (length t1) (parseline n t1)" using Suc(1) [of t1] 4 by simp
      fix c and u :: ptr
      assume u: "length u \<le> length t1"
      obtain b2 u1 where p2: "peek [41] u = (b2, u1)" by (cases "peek [41] u") auto
      obtain x q e u2 where g2: "gettoken u1 = (x, q, e, u2)" by (cases "gettoken u1") auto
      have "length u2 \<le> length s" using u len peek_length [OF p2] gettoken_length [OF g2] by simp
      then show "ends (length s) (case (c, u) of (cmd, s) \<Rightarrow> let (b, s) = peek [41] s
         in if \<not> b then Panic ''syntax - missing )'' else let (_, _, _, s) = gettoken s in parseredirs cmd s)"
        using parseredirs_ends [of c u2] by (auto simp: p2 g2 ends_def)
    qed
    then show ?case by (simp add: p g) (simp add: ends_def) }
qed

section \<open>Words\<close>

fun tokens_of :: "cmd \<Rightarrow> (ptr \<times> ptr) list" where
  "tokens_of (Exec args) = args"
| "tokens_of (Redir c q eq mode fd) = (q, eq) # tokens_of c"
| "tokens_of (PipeCmd l r) = tokens_of l @ tokens_of r"
| "tokens_of (ListCmd l r) = tokens_of l @ tokens_of r"
| "tokens_of (Back c) = tokens_of c"

definition word_tok :: "ptr \<Rightarrow> ptr \<times> ptr \<Rightarrow> bool" where
  "word_tok buf t \<longleftrightarrow> suffix (fst t) buf \<and> fst t \<noteq> [] \<and> word_char (hd (fst t)) \<and> snd t = dropWhile word_char (fst t)"

text \<open>The redirections of a command are of descriptors 0 and 1.\<close>

fun redirs_std :: "cmd \<Rightarrow> bool" where
  "redirs_std (Exec args) = True"
| "redirs_std (Redir c q eq mode fd) \<longleftrightarrow> fd = (if mode = O_RDONLY then 0 else 1) \<and> redirs_std c"
| "redirs_std (PipeCmd l r) \<longleftrightarrow> redirs_std l \<and> redirs_std r"
| "redirs_std (ListCmd l r) \<longleftrightarrow> redirs_std l \<and> redirs_std r"
| "redirs_std (Back c) \<longleftrightarrow> redirs_std c"

definition toks_ok :: "ptr \<Rightarrow> cmd \<Rightarrow> bool" where
  "toks_ok buf c \<longleftrightarrow> (\<forall>t \<in> set (tokens_of c). word_tok buf t) \<and> redirs_std c"

lemma redirs_add_arg: "redirs_std (add_arg a c) = redirs_std c"
  by (induction a c rule: add_arg.induct) auto

lemma toks_redir:
  "toks_ok buf c \<Longrightarrow> word_tok buf (q, e) \<Longrightarrow> toks_ok buf (Redir c q e O_RDONLY 0) \<and> toks_ok buf (Redir c q e (O_WRONLY + O_CREATE) 1)"
  by (auto simp: toks_ok_def O_RDONLY_def O_WRONLY_def O_CREATE_def)

lemma suffix_skip_ws: "suffix (skip_ws s) s"
  by (simp add: skip_ws_def suffix_dropWhile)

lemma suffix_peek: "peek toks s = (b, s') \<Longrightarrow> suffix s buf \<Longrightarrow> suffix s' buf"
  using suffix_order.trans [OF suffix_skip_ws] by (auto simp: peek_def Let_def)

lemma suffix_gettoken:
  assumes "gettoken s = (ret, q, eq, s')" and "suffix s buf"
  shows "suffix s' buf" and "ret = 97 \<Longrightarrow> word_tok buf (q, eq)"
proof -
  have q: "q = skip_ws s" and s': "s' = skip_ws eq" using assms(1) by (auto simp: gettoken_def Let_def split: prod.splits)
  have "suffix eq q"
  proof (cases q)
    case Nil
    then show ?thesis using assms(1) by (auto simp: gettoken_def Let_def q split: prod.splits)
  next
    case (Cons c r)
    have "(ret, eq) = (if c \<in> {124, 40, 41, 59, 38, 60} then (c, r)
        else if c = 62 then (if r \<noteq> [] \<and> hd r = 62 then (43, tl r) else (62, r)) else (97, dropWhile word_char q))"
      using assms(1) Cons by (auto simp: gettoken_def Let_def q split: if_splits)
    then show ?thesis
      using suffix_dropWhile [of word_char q] by (auto simp: Cons suffix_ConsI suffix_tl split: if_splits intro: suffix_order.trans [OF suffix_tl])
  qed
  then have "suffix s' q" using suffix_skip_ws [of eq] s' suffix_order.trans by blast
  moreover have qb: "suffix q buf" using suffix_skip_ws [of s] assms(2) q suffix_order.trans by blast
  ultimately show "suffix s' buf" using suffix_order.trans by blast
  show "word_tok buf (q, eq)" if "ret = 97"
    using assms(1) by (cases rule: gettoken_cases) (use qb that in \<open>auto simp: word_tok_def\<close>)
qed

lemma tokens_add_arg: "set (tokens_of (add_arg a c)) \<subseteq> insert a (set (tokens_of c))"
  by (induction a c rule: add_arg.induct) auto

lemma toks_add_arg: "toks_ok buf c \<Longrightarrow> word_tok buf a \<Longrightarrow> toks_ok buf (add_arg a c)"
  using tokens_add_arg [of a c] by (auto simp: toks_ok_def redirs_add_arg)

lemma parseredirs_toks:
  "toks_ok buf c \<Longrightarrow> suffix s buf \<Longrightarrow> parseredirs c s = Ret (c', s') \<Longrightarrow> toks_ok buf c' \<and> suffix s' buf"
proof (induction c s rule: parseredirs.induct)
  case (1 c s)
  obtain b s1 where p: "peek [60, 62] s = (b, s1)" by (cases "peek [60, 62] s") auto
  obtain tok q1 e1 s2 where g1: "gettoken s1 = (tok, q1, e1, s2)" by (cases "gettoken s1") auto
  obtain t q e s3 where g2: "gettoken s2 = (t, q, e, s3)" by (cases "gettoken s2") auto
  note S1 = suffix_peek [OF p 1(3)]
  note S2 = suffix_gettoken(1) [OF g1 S1]
  note S3 = suffix_gettoken [OF g2 S2]
  have eq: "parseredirs c s = (if \<not> b then Ret (c, s1) else if t \<noteq> 97 then Panic ''missing file for redirection''
    else parseredirs (if tok = 60 then Redir c q e O_RDONLY 0 else Redir c q e (O_WRONLY + O_CREATE) 1) s3)"
    by (subst parseredirs.simps) (simp add: p g1 g2)
  show ?case
  proof (cases "b \<and> t = 97")
    case True
    let ?c = "if tok = 60 then Redir c q e O_RDONLY 0 else Redir c q e (O_WRONLY + O_CREATE) 1"
    have "toks_ok buf ?c" using toks_redir [OF 1(2) S3(2)] True by simp
    moreover have "parseredirs ?c s3 = Ret (c', s')" using 1(4) True eq by simp
    ultimately show ?thesis using 1(1) [OF p [symmetric] refl] True g1 g2 S3(1) by simp
  next
    case False
    then show ?thesis using 1(2,4) S1 by (auto simp: eq split: if_splits)
  qed
qed

lemma parse_args_toks:
  "toks_ok buf c \<Longrightarrow> suffix s buf \<Longrightarrow> parse_args k c s = Ret (c', s') \<Longrightarrow> toks_ok buf c' \<and> suffix s' buf"
proof (induction k c s rule: parse_args.induct)
  case (1 k c s)
  obtain b s1 where p: "peek [124, 41, 38, 59] s = (b, s1)" by (cases "peek [124, 41, 38, 59] s") auto
  obtain tok q e s2 where g: "gettoken s1 = (tok, q, e, s2)" by (cases "gettoken s1") auto
  note S1 = suffix_peek [OF p 1(3)]
  note S2 = suffix_gettoken [OF g S1]
  have eq: "parse_args k c s = (if b then Ret (c, s1) else if tok = 0 then Ret (c, s2)
      else if tok \<noteq> 97 then Panic ''syntax'' else if k + 1 \<ge> MAXARGS then Panic ''too many args''
      else obind (parseredirs (add_arg (q, e) c) s2) (\<lambda>(ret, s). parse_args (k + 1) ret s))"
    by (subst parse_args.simps) (simp add: p g)
  show ?case
  proof (cases "\<not> b \<and> tok = 97 \<and> \<not> k + 1 \<ge> MAXARGS")
    case True
    then obtain c3 s3 where r: "parseredirs (add_arg (q, e) c) s2 = Ret (c3, s3)" "parse_args (k + 1) c3 s3 = Ret (c', s')"
      using 1(4) by (auto simp: eq outcome_simps)
    have "toks_ok buf c3 \<and> suffix s3 buf"
      by (rule parseredirs_toks [OF toks_add_arg [OF 1(2)] S2(1) r(1)]) (use S2(2) True in auto)
    then show ?thesis using 1(1) [OF p [symmetric] refl] True g r by simp
  next
    case False
    then show ?thesis using 1(2,4) S1 S2(1) by (auto simp: eq split: if_splits)
  qed
qed

lemma parse_amps_toks:
  "toks_ok buf c \<Longrightarrow> suffix s buf \<Longrightarrow> parse_amps c s = (c', s') \<Longrightarrow> toks_ok buf c' \<and> suffix s' buf"
proof (induction c s rule: parse_amps.induct)
  case (1 c s)
  obtain b s1 where p: "peek [38] s = (b, s1)" by (cases "peek [38] s") auto
  obtain tok q e s2 where g: "gettoken s1 = (tok, q, e, s2)" by (cases "gettoken s1") auto
  note S1 = suffix_peek [OF p 1(3)]
  note S2 = suffix_gettoken [OF g S1]
  have "toks_ok buf (Back c)" using 1(2) by (simp add: toks_ok_def)
  then show ?case
    using 1(1) [OF p [symmetric] refl] 1(2,4) S1 S2(1) by (cases b) (simp_all add: parse_amps.simps [of c s] p g)
qed

definition gives :: "ptr \<Rightarrow> (cmd \<times> ptr) outcome \<Rightarrow> bool" where
  "gives buf r \<longleftrightarrow> (\<forall>c s. r = Ret (c, s) \<longrightarrow> toks_ok buf c \<and> suffix s buf)"

lemma gives_bind:
  assumes m: "gives buf m" and f: "\<And>c s. toks_ok buf c \<Longrightarrow> suffix s buf \<Longrightarrow> gives buf (f (c, s))"
  shows "gives buf (obind m f)"
proof (cases m)
  case (Ret r)
  obtain c s where r: "r = (c, s)" by (cases r)
  have "toks_ok buf c \<and> suffix s buf" using m by (simp add: gives_def Ret r)
  then show ?thesis using f by (simp add: Ret r)
qed (simp_all add: gives_def)

lemma gives_Ret: "toks_ok buf c \<Longrightarrow> suffix s buf \<Longrightarrow> gives buf (Ret (c, s))"
  by (simp add: gives_def)

lemma redirs_gives: "toks_ok buf c \<Longrightarrow> suffix s buf \<Longrightarrow> gives buf (parseredirs c s)"
  unfolding gives_def by (intro allI impI) (rule parseredirs_toks)

lemma args_gives: "toks_ok buf c \<Longrightarrow> suffix s buf \<Longrightarrow> gives buf (parse_args k c s)"
  unfolding gives_def by (intro allI impI) (rule parse_args_toks)

lemma toks_ok_pair: "toks_ok buf c \<Longrightarrow> toks_ok buf d \<Longrightarrow> toks_ok buf (ListCmd c d) \<and> toks_ok buf (PipeCmd c d)"
  by (auto simp: toks_ok_def)

lemma gives_Panic: "gives buf (Panic msg)"
  by (simp add: gives_def)

lemma parse_toks:
  "suffix s buf \<Longrightarrow> gives buf (parseline n s)"
  "suffix s buf \<Longrightarrow> gives buf (parsepipe n s)"
  "suffix s buf \<Longrightarrow> gives buf (parseexec n s)"
  "suffix s buf \<Longrightarrow> gives buf (parseblock n s)"
proof (induction n arbitrary: s)
  case 0
  { case 1 show ?case by (simp add: gives_def) }
  { case 2 show ?case by (simp add: gives_def) }
  { case 3 show ?case by (simp add: gives_def) }
  { case 4 show ?case by (simp add: gives_def) }
next
  case (Suc n)
  { case 1
    show ?case
      unfolding parseline.simps(2)
    proof (rule gives_bind [OF Suc(2) [OF 1]])
      fix c t
      assume c: "toks_ok buf c" "suffix t buf"
      obtain c1 t1 where a: "parse_amps c t = (c1, t1)" by (cases "parse_amps c t") auto
      obtain b t2 where p: "peek [59] t1 = (b, t2)" by (cases "peek [59] t1") auto
      obtain x q e t3 where g: "gettoken t2 = (x, q, e, t3)" by (cases "gettoken t2") auto
      have A: "toks_ok buf c1" "suffix t1 buf" using parse_amps_toks [OF c a] by simp_all
      note P = suffix_peek [OF p A(2)]
      have "gives buf (obind (parseline n t3) (\<lambda>(cmd2, s). Ret (ListCmd c1 cmd2, s)))"
        by (rule gives_bind [OF Suc(1) [OF suffix_gettoken(1) [OF g P]]]) (simp add: gives_Ret toks_ok_pair A)
      then show "gives buf (case (c, t) of (cmd, s) \<Rightarrow> let (cmd, s) = parse_amps cmd s; (b, s) = peek [59] s
         in if b then let (_, _, _, s) = gettoken s in obind (parseline n s) (\<lambda>(cmd2, s). Ret (ListCmd cmd cmd2, s)) else Ret (cmd, s))"
        using gives_Ret [OF A(1) P] by (simp add: a p g)
    qed }
  { case 2
    show ?case
      unfolding parsepipe.simps(2)
    proof (rule gives_bind [OF Suc(3) [OF 2]])
      fix c t
      assume c: "toks_ok buf c" "suffix t buf"
      obtain b t2 where p: "peek [124] t = (b, t2)" by (cases "peek [124] t") auto
      obtain x q e t3 where g: "gettoken t2 = (x, q, e, t3)" by (cases "gettoken t2") auto
      note P = suffix_peek [OF p c(2)]
      have "gives buf (obind (parsepipe n t3) (\<lambda>(cmd2, s). Ret (PipeCmd c cmd2, s)))"
        by (rule gives_bind [OF Suc(2) [OF suffix_gettoken(1) [OF g P]]]) (simp add: gives_Ret toks_ok_pair c)
      then show "gives buf (case (c, t) of (cmd, s) \<Rightarrow> let (b, s) = peek [124] s
         in if b then let (_, _, _, s) = gettoken s in obind (parsepipe n s) (\<lambda>(cmd2, s). Ret (PipeCmd cmd cmd2, s)) else Ret (cmd, s))"
        using gives_Ret [OF c(1) P] by (simp add: p g)
    qed }
  { case 3
    obtain b t where p: "peek [40] s = (b, t)" by (cases "peek [40] s") auto
    note P = suffix_peek [OF p 3]
    have "toks_ok buf (Exec [])" by (simp add: toks_ok_def)
    then have "gives buf (parseredirs (Exec []) t)" using P by (rule redirs_gives)
    then have "gives buf (obind (parseredirs (Exec []) t) (\<lambda>(ret, s). parse_args 0 ret s))"
      by (rule gives_bind) (simp add: args_gives)
    then show ?case using Suc(4) [OF P] by (simp add: p) }
  { case 4
    obtain b t where p: "peek [40] s = (b, t)" by (cases "peek [40] s") auto
    obtain x q e t1 where g: "gettoken t = (x, q, e, t1)" by (cases "gettoken t") auto
    note P = suffix_gettoken(1) [OF g suffix_peek [OF p 4]]
    have "gives buf (obind (parseline n t1) (\<lambda>(cmd, s). let (b, s) = peek [41] s
       in if \<not> b then Panic ''syntax - missing )'' else let (_, _, _, s) = gettoken s in parseredirs cmd s))"
    proof (rule gives_bind [OF Suc(1) [OF P]])
      fix c u
      assume c: "toks_ok buf c" "suffix u buf"
      obtain b2 u1 where p2: "peek [41] u = (b2, u1)" by (cases "peek [41] u") auto
      obtain x q e u2 where g2: "gettoken u1 = (x, q, e, u2)" by (cases "gettoken u1") auto
      from redirs_gives [OF c(1) suffix_gettoken(1) [OF g2 suffix_peek [OF p2 c(2)]]]
      show "gives buf (case (c, u) of (cmd, s) \<Rightarrow> let (b, s) = peek [41] s
         in if \<not> b then Panic ''syntax - missing )'' else let (_, _, _, s) = gettoken s in parseredirs cmd s)"
        by (simp add: p2 g2 gives_Panic)
    qed
    then show ?case by (simp add: p g gives_Panic) }
qed

lemma parsecmd_toks: "parsecmd buf = Ret c \<Longrightarrow> toks_ok buf c"
proof -
  assume "parsecmd buf = Ret c"
  then obtain c' s' where r: "parseline (4 * length buf + 4) buf = Ret (c', s')"
    "(let (_, s) = peek [] s' in if s \<noteq> [] then Panic ''syntax'' else Ret c') = Ret c"
    by (auto simp: parsecmd_def outcome_simps)
  have "c' = c" using r(2) by (cases "peek [] s'") (auto split: if_splits)
  then show ?thesis using parse_toks(1) [of buf buf "4 * length buf + 4"] r(1) by (simp add: gives_def)
qed

section \<open>Terminating the words\<close>

lemma zero_at_nth: "length (zero_at eq B) = length B"
  "i < length B \<Longrightarrow> length eq < length B \<Longrightarrow> zero_at eq B ! i = (if i = length B - 1 - length eq then 0 else B ! i)"
  by (auto simp: zero_at_def nth_list_update)

definition zeroed :: "(ptr \<times> ptr) list \<Rightarrow> u8 list \<Rightarrow> u8 list \<Rightarrow> bool" where
  "zeroed ts B B' \<longleftrightarrow> length B' = length B
     \<and> (\<forall>i < length B. B' ! i = (if \<exists>t \<in> set ts. i = length B - 1 - length (snd t) then 0 else B ! i))"

lemma zeroed_Nil: "zeroed [] B B"
  by (simp add: zeroed_def)

lemma zeroed_append: "zeroed ts B B1 \<Longrightarrow> zeroed us B1 B2 \<Longrightarrow> zeroed (ts @ us) B B2"
  by (auto simp: zeroed_def)

lemma zeroed_one: "length eq < length B \<Longrightarrow> zeroed [(q, eq)] B (zero_at eq B)"
  by (simp add: zeroed_def zero_at_nth)

lemma zeroed_length: "zeroed ts B B' \<Longrightarrow> length B' = length B"
  by (simp add: zeroed_def)

lemma zeroed_swap: "zeroed (ts @ us) B B' \<Longrightarrow> zeroed (us @ ts) B B'"
  by (auto simp: zeroed_def)

lemma nulterminate_zeroed:
  "\<forall>t \<in> set (tokens_of c). length (snd t) < length B \<Longrightarrow> zeroed (tokens_of c) B (nulterminate c B)"
proof (induction c arbitrary: B)
  case (Exec args)
  then show ?case
  proof (induction args arbitrary: B)
    case Nil
    then show ?case by (simp add: zeroed_Nil)
  next
    case (Cons t args)
    obtain q eq where t: "t = (q, eq)" by (cases t) auto
    have 1: "zeroed [t] B (zero_at eq B)" using zeroed_one [of eq B q] Cons.prems by (simp add: t)
    then have "zeroed args (zero_at eq B) (fold (\<lambda>(q, eq). zero_at eq) args (zero_at eq B))"
      using Cons.IH [of "zero_at eq B"] Cons.prems by (simp add: zero_at_nth)
    from zeroed_append [OF 1 this] show ?case by (simp add: t)
  qed
next
  case (Redir c q eq mode fd)
  have 1: "zeroed (tokens_of c) B (nulterminate c B)" using Redir by simp
  have "zeroed [(q, eq)] (nulterminate c B) (zero_at eq (nulterminate c B))"
    using Redir.prems zeroed_length [OF 1] by (intro zeroed_one) simp
  from zeroed_swap [OF zeroed_append [OF 1 this]] show ?case by simp
next
  case (PipeCmd l r)
  have 1: "zeroed (tokens_of l) B (nulterminate l B)" using PipeCmd by simp
  have "zeroed (tokens_of r) (nulterminate l B) (nulterminate r (nulterminate l B))"
    using PipeCmd zeroed_length [OF 1] by simp
  from zeroed_append [OF 1 this] show ?case by simp
next
  case (ListCmd l r)
  have 1: "zeroed (tokens_of l) B (nulterminate l B)" using ListCmd by simp
  have "zeroed (tokens_of r) (nulterminate l B) (nulterminate r (nulterminate l B))"
    using ListCmd zeroed_length [OF 1] by simp
  from zeroed_append [OF 1 this] show ?case by simp
next
  case (Back c)
  then show ?case by simp
qed

text \<open>The C string at the pointer \<open>q\<close> in the buffer \<open>B\<close>.\<close>

definition cstr_at :: "u8 list \<Rightarrow> ptr \<Rightarrow> u8 list" where
  "cstr_at B q = takeWhile (\<lambda>c. c \<noteq> 0) (drop (length B - 1 - length q) B)"

lemma zeroed_words:
  assumes z: "zeroed ts (buf @ [0]) B" and ok: "\<forall>t \<in> set ts. word_tok buf t" and t: "(q, eq) \<in> set ts" and nz: "0 \<notin> set buf"
  shows "cstr_at B q = takeWhile word_char q"
proof -
  obtain u where u: "buf = u @ q" using ok t by (auto simp: word_tok_def suffix_def)
  define w where "w = takeWhile word_char q"
  have q: "q = w @ eq" using ok t by (auto simp: word_tok_def w_def)
  have len: "length B = Suc (length buf)" using zeroed_length [OF z] by simp
  have nth: "B ! i = (if \<exists>t \<in> set ts. i = length buf - length (snd t) then 0 else (buf @ [0]) ! i)" if "i \<le> length buf" for i
    using z that by (simp add: zeroed_def)
  have same: "B ! (length u + k) = w ! k" if k: "k < length w" for k
  proof -
    have wk: "(buf @ [0]) ! (length u + k) = w ! k" using k by (simp add: u q nth_append)
    have wc: "word_char (w ! k)" using k by (metis nth_mem set_takeWhileD w_def)
    have "length u + k \<noteq> length buf - length (snd t)" if "t \<in> set ts" for t
    proof
      assume e: "length u + k = length buf - length (snd t)"
      have wt: "suffix (fst t) buf" "snd t = dropWhile word_char (fst t)" using ok that by (auto simp: word_tok_def)
      then obtain v where v: "buf = v @ snd t" using suffix_dropWhile [of word_char "fst t"] by (metis suffix_def suffix_order.trans)
      then have lv: "length v = length u + k" using e by simp
      have "length u + k < length buf" using k by (simp add: u q)
      then have ne: "snd t \<noteq> []" using v lv by auto
      then have "(buf @ [0]) ! (length u + k) = hd (snd t)" using v lv by (simp add: nth_append hd_conv_nth)
      moreover have "\<not> word_char (hd (snd t))" using ne wt(2) by (metis hd_dropWhile)
      ultimately show False using wk wc by simp
    qed
    then show ?thesis using nth [of "length u + k"] wk k by (auto simp: u q)
  qed
  have "B ! (length u + k) \<noteq> 0" if k: "k < length w" for k
  proof -
    have "w ! k \<in> set buf" using k by (simp add: u q)
    then show ?thesis using nz same [OF k] by metis
  qed
  moreover have "B ! (length u + length w) = 0"
    using nth [of "length u + length w"] t by (force simp: u q)
  ultimately have "takeWhile (\<lambda>c. c \<noteq> 0) (drop (length u) B) = take (length w) (drop (length u) B)"
    using len by (intro takeWhile_eq_take_P_nth) (simp_all add: u q)
  moreover have "take (length w) (drop (length u) B) = w"
    by (rule nth_equalityI) (use len same in \<open>simp_all add: u q\<close>)
  ultimately show ?thesis by (simp add: cstr_at_def len u w_def)
qed

section \<open>Printing commands\<close>

text \<open>A command with the texts of its words, and the command that a parsed one stands for.\<close>

datatype acmd =
    AExec "u8 list list"
  | ARedir acmd "u8 list" bool
  | APipe acmd acmd
  | AList acmd acmd
  | ABack acmd

definition tok_text :: "ptr \<Rightarrow> u8 list" where
  "tok_text q = takeWhile word_char q"

fun abs_cmd :: "cmd \<Rightarrow> acmd" where
  "abs_cmd (Exec args) = AExec (map (\<lambda>(q, eq). tok_text q) args)"
| "abs_cmd (Redir c q eq mode fd) = ARedir (abs_cmd c) (tok_text q) (fd = 1)"
| "abs_cmd (PipeCmd l r) = APipe (abs_cmd l) (abs_cmd r)"
| "abs_cmd (ListCmd l r) = AList (abs_cmd l) (abs_cmd r)"
| "abs_cmd (Back c) = ABack (abs_cmd c)"

definition wordp :: "u8 list \<Rightarrow> bool" where
  "wordp w \<longleftrightarrow> w \<noteq> [] \<and> (\<forall>c \<in> set w. word_char c)"

fun wf_cmd :: "acmd \<Rightarrow> bool" where
  "wf_cmd (AExec ws) \<longleftrightarrow> length ws < MAXARGS \<and> (\<forall>w \<in> set ws. wordp w)"
| "wf_cmd (ARedir c f wr) \<longleftrightarrow> wf_cmd c \<and> wordp f"
| "wf_cmd (APipe l r) \<longleftrightarrow> wf_cmd l \<and> wf_cmd r"
| "wf_cmd (AList l r) \<longleftrightarrow> wf_cmd l \<and> wf_cmd r"
| "wf_cmd (ABack c) \<longleftrightarrow> wf_cmd c"

fun join :: "u8 list list \<Rightarrow> u8 list" where
  "join [] = []"
| "join [w] = w"
| "join (w # ws) = w @ 32 # join ws"

fun unparse :: "acmd \<Rightarrow> u8 list" where
  "unparse (AExec ws) = join ws"
| "unparse (ARedir c f wr) = 40 # unparse c @ 41 # (if wr then 62 else 60) # f"
| "unparse (APipe l r) = 40 # unparse l @ 41 # 124 # 40 # unparse r @ [41]"
| "unparse (AList l r) = 40 # unparse l @ 41 # 59 # 40 # unparse r @ [41]"
| "unparse (ABack c) = 40 # unparse c @ [41, 38]"

text \<open>What may follow a command: the end of the line or a closing parenthesis.\<close>

definition closes :: "ptr \<Rightarrow> bool" where
  "closes rest \<longleftrightarrow> rest = [] \<or> hd rest = 41"

lemmas char_classes = whitespace_def symbols_def

lemma closes_skip: "closes rest \<Longrightarrow> skip_ws rest = rest"
  by (intro skip_ws_id) (auto simp: closes_def char_classes)

lemma closes_peek: "closes rest \<Longrightarrow> peek toks rest = (rest \<noteq> [] \<and> 41 \<in> set toks, rest)"
  by (auto simp: peek_def closes_skip closes_def Let_def)

lemma symbol_skip: "c \<in> set symbols \<Longrightarrow> skip_ws (c # s) = c # s"
  by (intro skip_ws_id) (auto simp: char_classes)

lemma symbol_peek: "c \<in> set symbols \<Longrightarrow> peek toks (c # s) = (c \<in> set toks, c # s)"
  by (simp add: peek_def symbol_skip Let_def)

lemma symbol_token: "c \<in> {124, 40, 41, 59, 38, 60} \<Longrightarrow> gettoken (c # s) = (c, c # s, s, skip_ws s)"
  by (subst gettoken_def, subst symbol_skip) (auto simp: symbols_def Let_def)

lemma gt_token: "s \<noteq> [] \<Longrightarrow> hd s \<noteq> 62 \<Longrightarrow> gettoken (62 # s) = (62, 62 # s, s, skip_ws s)"
  by (subst gettoken_def, subst symbol_skip) (auto simp: symbols_def Let_def)

lemma word_char_not: "word_char c \<Longrightarrow> c \<notin> set whitespace \<and> c \<notin> set symbols"
  by (simp add: word_char_def)

lemma word_skip: "wordp w \<Longrightarrow> skip_ws (w @ s) = w @ s"
  by (intro skip_ws_id) (auto simp: wordp_def word_char_def)

lemma word_peek: "wordp w \<Longrightarrow> set toks \<subseteq> set symbols \<Longrightarrow> peek toks (w @ s) = (False, w @ s)"
  by (cases w) (auto simp: peek_def word_skip Let_def wordp_def word_char_def skip_ws_def)

lemma word_token:
  assumes w: "wordp w" and s: "s = [] \<or> \<not> word_char (hd s)"
  shows "gettoken (w @ s) = (97, w @ s, s, skip_ws s)" and "tok_text (w @ s) = w"
proof -
  obtain c r where c: "w = c # r" "word_char c" using w by (cases w) (auto simp: wordp_def)
  then have ns: "c \<notin> {124, 40, 41, 59, 38, 60}" "c \<noteq> 62" by (auto simp: word_char_def symbols_def)
  have all: "\<And>x. x \<in> set w \<Longrightarrow> word_char x" using w by (simp add: wordp_def)
  have "dropWhile word_char (w @ s) = s" using all s by (simp add: dropWhile_append2) (cases s; simp)
  then show "gettoken (w @ s) = (97, w @ s, s, skip_ws s)"
    using word_skip [OF w, of s] c ns by (auto simp: gettoken_def Let_def)
  show "tok_text (w @ s) = w"
    using all s by (simp add: tok_text_def takeWhile_append2) (cases s; simp)
qed

lemma no_redirs: "peek [60, 62] s = (False, s') \<Longrightarrow> parseredirs c s = Ret (c, s')"
  by (subst parseredirs.simps) simp

lemma closes_redirs: "closes rest \<Longrightarrow> parseredirs c rest = Ret (c, rest)"
  by (rule no_redirs) (simp add: closes_peek)

lemma not_word: "closes rest \<Longrightarrow> rest = [] \<or> \<not> word_char (hd rest)"
  by (auto simp: closes_def word_char_def symbols_def)

lemma join_skip:
  assumes "\<forall>w \<in> set ws. wordp w" and "closes rest"
  shows "skip_ws (join ws @ rest) = join ws @ rest" and "peek [60, 62] (join ws @ rest) = (False, join ws @ rest)"
    and "peek [40] (join ws @ rest) = (False, join ws @ rest)"
  using assms
  by (cases ws rule: join.cases; simp add: closes_skip closes_peek word_skip word_peek symbols_def)+

lemma parse_args_join:
  assumes "\<forall>w \<in> set ws. wordp w" and "closes rest" and "k + length ws < MAXARGS"
  shows "\<exists>args. parse_args k (Exec as) (join ws @ rest) = Ret (Exec (as @ args), rest) \<and> map (\<lambda>(q, eq). tok_text q) args = ws"
  using assms
proof (induction ws arbitrary: k as)
  case Nil
  have g: "gettoken [] = (0, [], [], [])" by (simp add: gettoken_def skip_ws_def)
  have "parse_args k (Exec as) rest = Ret (Exec as, rest)"
    using Nil.prems(2) by (subst parse_args.simps) (cases "rest = []"; simp add: closes_peek g)
  then show ?case by auto
next
  case (Cons w ws)
  have w: "wordp w" using Cons.prems(1) by simp
  define s where "s = (if ws = [] then rest else 32 # join ws @ rest)"
  have js: "join (w # ws) @ rest = w @ s" by (cases ws) (auto simp: s_def)
  have "\<not> word_char 32" by (simp add: word_char_def whitespace_def)
  then have sw: "s = [] \<or> \<not> word_char (hd s)" using not_word [OF Cons.prems(2)] by (auto simp: s_def)
  have sk: "skip_ws s = join ws @ rest"
  proof (cases "ws = []")
    case True
    then show ?thesis using closes_skip [OF Cons.prems(2)] by (simp add: s_def)
  next
    case False
    have "skip_ws (32 # join ws @ rest) = skip_ws (join ws @ rest)" by (simp add: skip_ws_def whitespace_def)
    then show ?thesis using join_skip(1) [of ws rest] Cons.prems False by (simp add: s_def)
  qed
  note T = word_token [OF w sw]
  have R: "parseredirs c (join ws @ rest) = Ret (c, join ws @ rest)" for c
    using join_skip(2) [of ws rest] Cons.prems by (intro no_redirs) simp
  have step: "parse_args k (Exec as) (w @ s) = parse_args (k + 1) (Exec (as @ [(w @ s, s)])) (join ws @ rest)"
    using Cons.prems(3) by (subst parse_args.simps) (simp add: word_peek [OF w] symbols_def T(1) sk R)
  obtain args where "parse_args (k + 1) (Exec (as @ [(w @ s, s)])) (join ws @ rest) = Ret (Exec ((as @ [(w @ s, s)]) @ args), rest)"
    "map (\<lambda>(q, eq). tok_text q) args = ws"
    using Cons.IH [of "k + 1" "as @ [(w @ s, s)]"] Cons.prems by auto
  then show ?case
    unfolding js step by (intro exI [of _ "(w @ s, s) # args"]) (simp add: T(2))
qed

lemma unparse_skip: "wf_cmd a \<Longrightarrow> closes rest \<Longrightarrow> skip_ws (unparse a @ rest) = unparse a @ rest"
  using join_skip(1) [of _ rest] by (cases a) (auto simp: symbol_skip symbols_def)

text \<open>A command in parentheses, given that the command inside is parsed.\<close>

lemma parse_block:
  assumes wf: "wf_cmd a" and "closes (41 # t)"
    and inner: "\<And>n. 4 * length (unparse a @ 41 # t) + 4 \<le> n \<Longrightarrow> \<exists>c. parseline n (unparse a @ 41 # t) = Ret (c, 41 # t) \<and> abs_cmd c = a"
    and n: "4 * length (40 # unparse a @ 41 # t) + 2 \<le> n"
  shows "\<exists>c. parseexec n (40 # unparse a @ 41 # t) = parseredirs c (skip_ws t) \<and> abs_cmd c = a"
proof -
  obtain m where m: "n = Suc (Suc m)" using n by (cases n; cases "n - 1") auto
  obtain c where c: "parseline m (unparse a @ 41 # t) = Ret (c, 41 # t)" "abs_cmd c = a"
    using inner [of m] n m by auto
  have sk: "skip_ws (unparse a @ 41 # t) = unparse a @ 41 # t" by (rule unparse_skip [OF wf assms(2)])
  have "parseexec n (40 # unparse a @ 41 # t) = parseredirs c (skip_ws t)"
    by (simp add: m symbol_peek symbol_token symbols_def sk c(1))
  then show ?thesis using c(2) by blast
qed

lemma pipe_of_exec:
  assumes "parseexec n s = Ret (c, rest)" and "closes rest"
  shows "parsepipe (Suc n) s = Ret (c, rest)"
  using assms by (simp add: closes_peek)

lemma amps_closes: "closes rest \<Longrightarrow> parse_amps c rest = (c, rest)"
  by (subst parse_amps.simps) (simp add: closes_peek)

lemma amps_symbol: "x \<in> set symbols \<Longrightarrow> x \<noteq> 38 \<Longrightarrow> parse_amps c (x # s) = (c, x # s)"
  by (subst parse_amps.simps) (simp add: symbol_peek)

lemma line_of_pipe:
  assumes "parsepipe n s = Ret (c, rest)" and "closes rest"
  shows "parseline (Suc n) s = Ret (c, rest)"
  using assms by (simp add: amps_closes closes_peek)

lemma line_of_exec:
  assumes "parseexec n s = Ret (c, rest)" and "closes rest"
  shows "parseline (Suc (Suc n)) s = Ret (c, rest)"
  by (rule line_of_pipe [OF pipe_of_exec [OF assms] assms(2)])

lemma parse_redirect:
  assumes f: "wordp f" and rest: "closes rest"
  shows "\<exists>c'. parseredirs c ((if wr then 62 else 60) # f @ rest) = Ret (c', rest) \<and> abs_cmd c' = ARedir (abs_cmd c) f wr"
proof -
  let ?x = "(if wr then 62 else 60) :: u8"
  have h: "f @ rest \<noteq> []" "hd (f @ rest) \<noteq> 62" using f by (auto simp: wordp_def word_char_def symbols_def hd_append)
  have t1: "gettoken (?x # f @ rest) = (?x, ?x # f @ rest, f @ rest, f @ rest)"
    using symbol_token [of 60 "f @ rest"] gt_token [OF h] word_skip [OF f] by simp
  note t2 = word_token [OF f not_word [OF rest]]
  let ?c = "if wr then Redir c (f @ rest) rest (O_WRONLY + O_CREATE) 1 else Redir c (f @ rest) rest O_RDONLY 0"
  have "parseredirs c (?x # f @ rest) = parseredirs ?c rest"
    using symbol_peek [of ?x "[60, 62]" "f @ rest"]
    by (subst parseredirs.simps) (simp add: symbols_def t1 t2(1) closes_skip [OF rest])
  also have "\<dots> = Ret (?c, rest)" by (rule closes_redirs [OF rest])
  finally show ?thesis using t2(2) by (intro exI [of _ ?c]) simp
qed

lemma parseline_unparse:
  assumes "wf_cmd a" and "closes rest" and "4 * length (unparse a @ rest) + 4 \<le> n"
  shows "\<exists>c. parseline n (unparse a @ rest) = Ret (c, rest) \<and> abs_cmd c = a"
  using assms
proof (induction a arbitrary: rest n)
  case (AExec ws)
  obtain m where m: "n = Suc (Suc (Suc m))" using AExec.prems(3) by (cases n; cases "n - 1"; cases "n - 2") auto
  obtain args where a: "parse_args 0 (Exec []) (join ws @ rest) = Ret (Exec ([] @ args), rest)" "map (\<lambda>(q, eq). tok_text q) args = ws"
    using parse_args_join [of ws rest 0 "[]"] AExec.prems by auto
  have "parseexec (Suc m) (join ws @ rest) = Ret (Exec args, rest)"
    using AExec.prems join_skip [of ws rest] a(1) by (simp add: no_redirs)
  from line_of_exec [OF this AExec.prems(2)] show ?case using a(2) by (simp add: m)
next
  case (ARedir a f wr)
  obtain m where m: "n = Suc (Suc m)" using ARedir.prems(3) by (cases n; cases "n - 1") auto
  let ?t = "(if wr then 62 else 60) # f @ rest"
  have cl: "closes (41 # ?t)" by (simp add: closes_def)
  obtain c where c: "parseexec m (40 # unparse a @ 41 # ?t) = parseredirs c (skip_ws ?t)" "abs_cmd c = a"
    using parse_block [OF _ cl, of a m] ARedir.IH [OF _ cl] ARedir.prems m by (auto split: if_splits)
  have "skip_ws ?t = ?t" by (simp add: symbol_skip symbols_def)
  then obtain c' where c': "parseexec m (40 # unparse a @ 41 # ?t) = Ret (c', rest)" "abs_cmd c' = ARedir a f wr"
    using parse_redirect [of f rest c wr] ARedir.prems c by auto
  from line_of_exec [OF c'(1) ARedir.prems(2)] show ?case using c'(2) by (simp add: m)
next
  case (APipe l r)
  obtain m where m: "n = Suc (Suc (Suc m))" using APipe.prems(3) by (cases n; cases "n - 1"; cases "n - 2") auto
  let ?r = "40 # unparse r @ 41 # rest" and ?t = "124 # 40 # unparse r @ 41 # rest"
  have cl: "closes (41 # ?t)" "closes (41 # rest)" by (simp_all add: closes_def)
  obtain c where c: "parseexec (Suc m) (40 # unparse l @ 41 # ?t) = parseredirs c (skip_ws ?t)" "abs_cmd c = l"
    using parse_block [OF _ cl(1), of l "Suc m"] APipe.IH(1) [OF _ cl(1)] APipe.prems m by auto
  have sk: "skip_ws ?t = ?t" "skip_ws ?r = ?r" by (simp_all add: symbol_skip symbols_def)
  have 1: "parseexec (Suc m) (40 # unparse l @ 41 # ?t) = Ret (c, ?t)"
    unfolding c(1) sk by (rule no_redirs) (simp add: symbol_peek symbols_def)
  obtain d where d: "parseexec m ?r = parseredirs d (skip_ws rest)" "abs_cmd d = r"
    using parse_block [OF _ cl(2), of r m] APipe.IH(2) [OF _ cl(2)] APipe.prems m by auto
  have 2: "parsepipe (Suc m) ?r = Ret (d, rest)"
    using d(1) by (intro pipe_of_exec [OF _ APipe.prems(2)]) (simp add: closes_skip closes_redirs APipe.prems(2))
  have "parsepipe (Suc (Suc m)) (40 # unparse l @ 41 # ?t) = Ret (PipeCmd c d, rest)"
    by (subst parsepipe.simps(2)) (simp only: 1 obind.simps prod.case, simp add: symbol_peek symbols_def symbol_token sk(2) 2 del: parsepipe.simps)
  from line_of_pipe [OF this APipe.prems(2)] show ?case using c(2) d(2) by (simp add: m)
next
  case (AList l r)
  obtain m where m: "n = Suc (Suc (Suc m))" using AList.prems(3) by (cases n; cases "n - 1"; cases "n - 2") auto
  let ?r = "40 # unparse r @ 41 # rest" and ?t = "59 # 40 # unparse r @ 41 # rest"
  have cl: "closes (41 # ?t)" "closes (41 # rest)" by (simp_all add: closes_def)
  obtain c where c: "parseexec (Suc m) (40 # unparse l @ 41 # ?t) = parseredirs c (skip_ws ?t)" "abs_cmd c = l"
    using parse_block [OF _ cl(1), of l "Suc m"] AList.IH(1) [OF _ cl(1)] AList.prems m by auto
  have sk: "skip_ws ?t = ?t" "skip_ws ?r = ?r" by (simp_all add: symbol_skip symbols_def)
  have 1: "parseexec (Suc m) (40 # unparse l @ 41 # ?t) = Ret (c, ?t)"
    unfolding c(1) sk by (rule no_redirs) (simp add: symbol_peek symbols_def)
  have 2: "parsepipe (Suc (Suc m)) (40 # unparse l @ 41 # ?t) = Ret (c, ?t)"
    by (subst parsepipe.simps(2)) (simp only: 1 obind.simps prod.case, simp add: symbol_peek symbols_def)
  obtain d where d: "parseexec m ?r = parseredirs d (skip_ws rest)" "abs_cmd d = r"
    using parse_block [OF _ cl(2), of r m] AList.IH(2) [OF _ cl(2)] AList.prems m by auto
  have 3: "parseline (Suc (Suc m)) ?r = Ret (d, rest)"
    using d(1) by (intro line_of_exec [OF _ AList.prems(2)]) (simp add: closes_skip closes_redirs AList.prems(2))
  have "parseline n (40 # unparse l @ 41 # ?t) = Ret (ListCmd c d, rest)"
    by (subst m, subst parseline.simps(2))
      (simp only: 2 obind.simps prod.case, simp add: amps_symbol symbol_peek symbols_def symbol_token sk(2) 3 del: parseline.simps)
  then show ?case using c(2) d(2) by simp
next
  case (ABack a)
  obtain m where m: "n = Suc (Suc m)" using ABack.prems(3) by (cases n; cases "n - 1") auto
  let ?t = "38 # rest"
  have cl: "closes (41 # ?t)" by (simp add: closes_def)
  obtain c where c: "parseexec m (40 # unparse a @ 41 # ?t) = parseredirs c (skip_ws ?t)" "abs_cmd c = a"
    using parse_block [OF _ cl, of a m] ABack.IH [OF _ cl] ABack.prems m by auto
  have "skip_ws ?t = ?t" by (simp add: symbol_skip symbols_def)
  then have 1: "parseexec m (40 # unparse a @ 41 # ?t) = Ret (c, ?t)"
    unfolding c(1) by (simp add: no_redirs symbol_peek symbols_def)
  have 2: "parsepipe (Suc m) (40 # unparse a @ 41 # ?t) = Ret (c, ?t)"
    by (subst parsepipe.simps(2)) (simp only: 1 obind.simps prod.case, simp add: symbol_peek symbols_def)
  have 3: "parse_amps c ?t = (Back c, rest)"
    by (subst parse_amps.simps)
      (simp add: symbol_peek symbols_def symbol_token closes_skip [OF ABack.prems(2)] amps_closes [OF ABack.prems(2)])
  have "parseline n (40 # unparse a @ 41 # ?t) = Ret (Back c, rest)"
    by (subst m, subst parseline.simps(2))
      (simp only: 2 obind.simps prod.case, simp add: 3 closes_peek [OF ABack.prems(2)])
  then show ?case using c(2) by simp
qed

section \<open>Properties\<close>

text \<open>
  C24. The shell's parser ends on every command line: the recursion of \<open>parseline\<close>, \<open>parsepipe\<close>, \<open>parseexec\<close> and
  \<open>parseblock\<close> and the loops for arguments, redirections and ampersands stop after at most four
  calls per byte, with a command or with a call of \<open>panic\<close>.
\<close>

theorem parsecmd_ends: "parsecmd s \<noteq> Loop"
proof -
  have "ends (length s) (parseline (4 * length s + 4) s)" by (rule parse_ends) simp
  then show ?thesis
    by (cases "parseline (4 * length s + 4) s") (auto simp: parsecmd_def ends_def split: prod.splits)
qed

text \<open>
  C23. Parsing inverts printing: every command, printed with parentheses around its parts, is parsed
  back to the command with the same structure and the same words, if its words are non-empty and free of blanks and
  symbols and there are fewer than \<open>MAXARGS\<close> of them in a simple command.
\<close>

theorem parsecmd_unparse:
  assumes "wf_cmd a"
  shows "\<exists>c. parsecmd (unparse a) = Ret c \<and> abs_cmd c = a"
proof -
  have cl: "closes []" by (simp add: closes_def)
  obtain c where "parseline (4 * length (unparse a) + 4) (unparse a) = Ret (c, [])" "abs_cmd c = a"
    using parseline_unparse [OF assms cl, of "4 * length (unparse a) + 4"] by auto
  then show ?thesis by (simp add: parsecmd_def closes_peek [OF cl])
qed

theorem parsecmd_unparse_witness:
  "\<exists>c. parsecmd [40, 97, 32, 98, 41, 124, 40, 99, 41] = Ret c \<and> abs_cmd c = APipe (AExec [[97], [98]]) (AExec [[99]])"
  using parsecmd_unparse [of "APipe (AExec [[97], [98]]) (AExec [[99]])"]
  by (simp add: wordp_def word_char_def whitespace_def symbols_def MAXARGS_def)

text \<open>
  C25. After \<open>nulterminate\<close> every word of a parsed command is the C string of its text: at each argument and file name
  pointer, the bytes up to the next zero are the word as it stood in the line. Writing the zeros damages no other word.
\<close>

theorem nulterminate_words:
  assumes "parsecmd buf = Ret c" and "0 \<notin> set buf" and "(q, eq) \<in> set (tokens_of c)"
  shows "cstr_at (nulterminate c (buf @ [0])) q = tok_text q \<and> tok_text q \<noteq> [] \<and> q = tok_text q @ eq"
proof -
  have ok: "\<forall>t \<in> set (tokens_of c). word_tok buf t" using parsecmd_toks [OF assms(1)] by (simp add: toks_ok_def)
  have "length (snd t) < length (buf @ [0])" if "t \<in> set (tokens_of c)" for t
  proof -
    have "suffix (fst t) buf" "snd t = dropWhile word_char (fst t)" using ok that by (simp_all add: word_tok_def)
    then have "length (snd t) \<le> length buf" using suffix_length_le length_dropWhile_le le_trans by metis
    then show ?thesis by simp
  qed
  then have "zeroed (tokens_of c) (buf @ [0]) (nulterminate c (buf @ [0]))" by (intro nulterminate_zeroed) blast
  from zeroed_words [OF this ok assms(3,2)] ok assms(3) show ?thesis
    by (cases q) (auto simp: tok_text_def word_tok_def)
qed

theorem nulterminate_words_witness:
  "\<exists>c q eq. parsecmd [40, 97, 98, 41, 62, 99] = Ret c \<and> (q, eq) \<in> set (tokens_of c)
    \<and> cstr_at (nulterminate c [40, 97, 98, 41, 62, 99, 0]) q = [99]"
proof -
  have wf: "wf_cmd (ARedir (AExec [[97, 98]]) [99] True)"
    by (simp add: wordp_def word_char_def whitespace_def symbols_def MAXARGS_def)
  have cl: "closes []" by (simp add: closes_def)
  obtain c where c: "parseline (4 * length [40, 97, 98, 41, 62, 99 :: u8] + 4) [40, 97, 98, 41, 62, 99] = Ret (c, [])"
    "abs_cmd c = ARedir (AExec [[97, 98]]) [99] True"
    using parseline_unparse [OF wf cl, of "4 * length [40, 97, 98, 41, 62, 99 :: u8] + 4"] by (simp del: parseline.simps) blast
  have p: "parsecmd [40, 97, 98, 41, 62, 99] = Ret c"
    unfolding parsecmd_def c(1) by (simp add: closes_peek [OF cl])
  obtain c0 q eq mode fd where r: "c = Redir c0 q eq mode fd" "tok_text q = [99]" using c(2) by (cases c) auto
  have t: "(q, eq) \<in> set (tokens_of c)" by (simp add: r(1))
  have "cstr_at (nulterminate c [40, 97, 98, 41, 62, 99, 0]) q = [99]"
    using conjunct1 [OF nulterminate_words [OF p _ t]] r(2) by simp
  with p t show ?thesis by blast
qed

end
