(* ===== verification/ShRun.thy ===== *)
theory ShRun
  imports Sh Ulib
begin

text \<open>
  The rest of \<open>sh.c\<close>: \<open>runcmd\<close>, \<open>getcmd\<close> and \<open>main\<close>. What a process of the shell does is the list of the system
  calls it makes; \<open>Fork1\<close> has the list of the child, which never returns to the code of its parent. \<open>FdR\<close> and \<open>FdW\<close>
  are \<open>p[0]\<close> and \<open>p[1]\<close> of the pipe created last in the same call of \<open>runcmd\<close>. The branch taken when a call
  fails is part of the call.

  \<open>run_acts\<close> executes such a list on a table of file descriptors, as the kernel's calls change it (\<open>dup\<close>, \<open>open\<close> and
  \<open>pipe\<close> take the lowest free ones), and collects the tables with which programs are started.
\<close>

section \<open>The code\<close>

datatype fdref = Fd nat | FdR | FdW

datatype act =
    Close fdref
  | Dup fdref
  | PipeOrPanic
  | OpenOr "u8 list" s32 "act list"
  | ExecProg "u8 list" "u8 list list"
  | Fork1 "act list"
  | Wait
  | Chdir "u8 list"
  | Print string "u8 list"
  | Exit

definition exit_with :: "string \<Rightarrow> act list" where
  "exit_with msg = [Print msg [], Exit]"

text \<open>\<open>str\<close> gives the C string at a pointer into the command line.\<close>

primrec runcmd :: "(ptr \<Rightarrow> u8 list) \<Rightarrow> cmd \<Rightarrow> act list" where
  "runcmd str (Exec args) =
     (if args = [] then [Exit]
      else [ExecProg (str (fst (hd args))) (map (\<lambda>(q, eq). str q) args),
            Print ''exec %s failed'' (str (fst (hd args))), Exit])"
| "runcmd str (Redir c q eq mode fd) =
     [Close (Fd (unat fd)), OpenOr (str q) mode [Print ''open %s failed'' (str q), Exit]] @ runcmd str c"
| "runcmd str (ListCmd l r) = [Fork1 (runcmd str l), Wait] @ runcmd str r"
| "runcmd str (PipeCmd l r) =
     [PipeOrPanic,
      Fork1 ([Close (Fd 1), Dup FdW, Close FdR, Close FdW] @ runcmd str l),
      Fork1 ([Close (Fd 0), Dup FdR, Close FdR, Close FdW] @ runcmd str r),
      Close FdR, Close FdW, Wait, Wait, Exit]"
| "runcmd str (Back c) = [Fork1 (runcmd str c), Exit]"

definition getcmd :: "u8 list \<Rightarrow> (u8 list \<times> u8 list) option" where
  "getcmd inp =
     (let (buf, inp) = gets 100 inp; line = takeWhile (\<lambda>c. c \<noteq> 0) buf
      in if line = [] then None else Some (line, inp))"

text \<open>One turn of the loop of \<open>main\<close>; in the child, a line that does not parse ends in \<open>panic\<close>.\<close>

definition sh_turn :: "u8 list \<Rightarrow> act list" where
  "sh_turn line =
     (if take 3 line = [99, 100, 32] then [Chdir (drop 3 (butlast line))]
      else [Fork1 (case parsecmd line of
                     Ret c \<Rightarrow> runcmd (\<lambda>q. cstr_at (nulterminate c (line @ [0])) q) c
                   | Panic msg \<Rightarrow> exit_with msg
                   | _ \<Rightarrow> []),
            Wait])"

section \<open>File descriptors\<close>

datatype fobj = Inherited nat | PipeRead nat | PipeWrite nat | Opened "u8 list" s32

type_synonym fdtable = "nat \<Rightarrow> fobj option"

definition free_fd :: "fdtable \<Rightarrow> nat" where
  "free_fd t = (LEAST n. t n = None)"

definition fd_of :: "nat \<times> nat \<Rightarrow> fdref \<Rightarrow> nat" where
  "fd_of pp r = (case r of Fd n \<Rightarrow> n | FdR \<Rightarrow> fst pp | FdW \<Rightarrow> snd pp)"

text \<open>\<open>k\<close> counts the pipes, \<open>pp\<close> is the array \<open>p\<close>; all calls succeed but the \<open>exec\<close>, after which the program runs.\<close>

function run_acts :: "act list \<Rightarrow> nat \<times> nat \<Rightarrow> fdtable \<Rightarrow> nat \<Rightarrow> (u8 list \<times> fdtable) list" where
  "run_acts [] pp t k = []"
| "run_acts (Close r # as) pp t k = run_acts as pp (t(fd_of pp r := None)) k"
| "run_acts (Dup r # as) pp t k = run_acts as pp (t(free_fd t := t (fd_of pp r))) k"
| "run_acts (PipeOrPanic # as) pp t k =
     (let r = free_fd t; t = t(r := Some (PipeRead k)); w = free_fd t; t = t(w := Some (PipeWrite k))
      in run_acts as (r, w) t (Suc k))"
| "run_acts (OpenOr f mode fail # as) pp t k = run_acts as pp (t(free_fd t := Some (Opened f mode))) k"
| "run_acts (ExecProg f argv # as) pp t k = [(f, t)]"
| "run_acts (Fork1 child # as) pp t k = run_acts child pp t k @ run_acts as pp t k"
| "run_acts (Wait # as) pp t k = run_acts as pp t k"
| "run_acts (Chdir d # as) pp t k = run_acts as pp t k"
| "run_acts (Print m a # as) pp t k = run_acts as pp t k"
| "run_acts (Exit # as) pp t k = []"
  by pat_completeness auto
termination by (relation "measure (\<lambda>(as, _). size_list size as)") auto

definition std_fds :: "fdtable \<Rightarrow> bool" where
  "std_fds t \<longleftrightarrow> dom t = {0, 1, 2}"

lemma free_fd_eq: "t n = None \<Longrightarrow> (\<And>m. m < n \<Longrightarrow> t m \<noteq> None) \<Longrightarrow> free_fd t = n"
  unfolding free_fd_def by (rule Least_equality, assumption) (metis not_less)

lemma std_fdsD: "std_fds t \<Longrightarrow> t n = None \<longleftrightarrow> 3 \<le> n"
proof -
  assume t: "std_fds t"
  have "t n = None \<longleftrightarrow> n \<notin> dom t" by auto
  also have "\<dots> \<longleftrightarrow> 3 \<le> n" using t by (auto simp: std_fds_def)
  finally show ?thesis .
qed

lemma std_open: "std_fds t \<Longrightarrow> m < 3 \<Longrightarrow> \<exists>y. t m = Some y"
  using std_fdsD [of t m] by auto

lemma lt3: "(m :: nat) < 3 \<longleftrightarrow> m = 0 \<or> m = 1 \<or> m = 2"
  by auto

lemma std_free: "std_fds t \<Longrightarrow> free_fd t = 3"
  by (rule free_fd_eq) (auto simp: std_fdsD)

lemma closed_free:
  assumes "std_fds t" and "n < 3"
  shows "free_fd (t(n := None)) = n"
  by (rule free_fd_eq) (use assms in \<open>auto simp: std_fdsD\<close>)

lemma std_refill: "std_fds t \<Longrightarrow> n < 3 \<Longrightarrow> std_fds (t(n := Some v))"
  by (auto simp: std_fds_def lt3)

definition with_pipe :: "nat \<Rightarrow> fdtable \<Rightarrow> fdtable" where
  "with_pipe k t = t(3 := Some (PipeRead k), 4 := Some (PipeWrite k))"

lemma pipe_call: "std_fds t \<Longrightarrow> run_acts (PipeOrPanic # as) pp t k = run_acts as (3, 4) (with_pipe k t) (Suc k)"
proof -
  assume t: "std_fds t"
  have "free_fd (t(3 := Some (PipeRead k))) = 4" by (rule free_fd_eq) (use t in \<open>auto simp: std_fdsD intro: std_open\<close>)
  then show ?thesis using std_free [OF t] by (simp add: with_pipe_def Let_def)
qed

text \<open>The two children of a pipe: standard output or input is the pipe, and both its ends are closed elsewhere.\<close>

lemma pipe_children:
  assumes t: "std_fds t"
  shows "run_acts ([Close (Fd 1), Dup FdW, Close FdR, Close FdW] @ as) (3, 4) (with_pipe k t) n = run_acts as (3, 4) (t(1 := Some (PipeWrite k))) n"
    and "run_acts ([Close (Fd 0), Dup FdR, Close FdR, Close FdW] @ as) (3, 4) (with_pipe k t) n = run_acts as (3, 4) (t(0 := Some (PipeRead k))) n"
proof -
  have f1: "free_fd ((with_pipe k t)(1 := None)) = 1" "free_fd ((with_pipe k t)(0 := None)) = 0"
    by (rule free_fd_eq; use t in \<open>auto simp: with_pipe_def std_fdsD\<close>)+
  have n: "t 3 = None" "t 4 = None" using t by (simp_all add: std_fdsD)
  have e: "((with_pipe k t)(1 := None))(1 := Some (PipeWrite k), 3 := None, 4 := None) = t(1 := Some (PipeWrite k))"
    "((with_pipe k t)(0 := None))(0 := Some (PipeRead k), 3 := None, 4 := None) = t(0 := Some (PipeRead k))"
    using n by (auto simp: with_pipe_def fun_eq_iff)
  show "run_acts ([Close (Fd 1), Dup FdW, Close FdR, Close FdW] @ as) (3, 4) (with_pipe k t) n = run_acts as (3, 4) (t(1 := Some (PipeWrite k))) n"
    using f1(1) e(1) by (simp add: fd_of_def) (simp add: with_pipe_def)
  show "run_acts ([Close (Fd 0), Dup FdR, Close FdR, Close FdW] @ as) (3, 4) (with_pipe k t) n = run_acts as (3, 4) (t(0 := Some (PipeRead k))) n"
    using f1(2) e(2) by (simp add: fd_of_def) (simp add: with_pipe_def)
qed

lemma run_pipe:
  assumes t: "std_fds t"
  shows "run_acts (runcmd str (PipeCmd l r)) pp t k =
    run_acts (runcmd str l) (3, 4) (t(1 := Some (PipeWrite k))) (Suc k) @ run_acts (runcmd str r) (3, 4) (t(0 := Some (PipeRead k))) (Suc k)"
  unfolding runcmd.simps
  by (subst pipe_call [OF t], simp only: run_acts.simps(7) pipe_children [OF t]) simp

lemma run_redir:
  assumes t: "std_fds t" and fd: "unat fd < 3"
  shows "run_acts (runcmd str (Redir c q eq mode fd)) pp t k = run_acts (runcmd str c) pp (t(unat fd := Some (Opened (str q) mode))) k"
  using closed_free [OF t fd] by (simp add: fd_of_def)

lemma run_std: "redirs_std c \<Longrightarrow> std_fds t \<Longrightarrow> (f, t') \<in> set (run_acts (runcmd str c) pp t k) \<Longrightarrow> std_fds t'"
proof (induction c arbitrary: pp t k)
  case (Exec args)
  then show ?case by (auto split: if_splits)
next
  case (Redir c q eq mode fd)
  have fd: "unat fd < 3" "redirs_std c" using Redir.prems(1) by auto
  from Redir.IH [OF fd(2) std_refill [OF Redir.prems(2) fd(1)]] Redir.prems(3)
  show ?case unfolding run_redir [OF Redir.prems(2) fd(1)] by blast
next
  case (PipeCmd l r)
  have c: "redirs_std l" "redirs_std r" using PipeCmd.prems(1) by simp_all
  have s: "std_fds (t(1 := Some (PipeWrite k)))" "std_fds (t(0 := Some (PipeRead k)))"
    by (rule std_refill [OF PipeCmd.prems(2)]; simp)+
  show ?case
    using PipeCmd.prems(3) PipeCmd.IH(1) [OF c(1) s(1)] PipeCmd.IH(2) [OF c(2) s(2)]
    unfolding run_pipe [OF PipeCmd.prems(2)] set_append by blast
next
  case (ListCmd l r)
  have c: "redirs_std l" "redirs_std r" using ListCmd.prems(1) by simp_all
  have "(f, t') \<in> set (run_acts (runcmd str l) pp t k) \<union> set (run_acts (runcmd str r) pp t k)" using ListCmd.prems(3) by simp
  then show ?case using ListCmd.IH(1) [OF c(1) ListCmd.prems(2)] ListCmd.IH(2) [OF c(2) ListCmd.prems(2)] by blast
next
  case (Back c)
  have "redirs_std c" "(f, t') \<in> set (run_acts (runcmd str c) pp t k)" using Back.prems(1,3) by simp_all
  then show ?case using Back.IH [OF _ Back.prems(2)] by blast
qed

section \<open>Properties\<close>



end
