(* ===== verification/Spec2Isabelle.thy ===== *)
theory Spec2Isabelle
  imports Sysfile Counters Console DirLink Filters ShRun
begin

text \<open>
  A verification development for the xv6 kernel of this repository: a small Unix kernel for the x86 in C, with
  the repository's own scheduler (three policies, among them a multi-level queue), process accounting
  and extra system calls; and its shell, user library and small user programs.

  \<^bold>\<open>The program.\<close> At the bottom is the machine: byte-addressed memory, CPUs with an interrupt flag, a disk of blocks. On it
  the kernel has a page allocator (\<open>kalloc.c\<close>), page tables (\<open>vm.c\<close>), spin locks (\<open>spinlock.c\<close>), processes and their
  scheduling (\<open>proc.c\<close>), and sleep locks (\<open>sleeplock.c\<close>). The file system is a tower: buffer cache (\<open>bio.c\<close>),
  redo log (\<open>log.c\<close>), blocks, inodes, contents and directories (\<open>fs.c\<close>), open files (\<open>file.c\<close>) and pipes (\<open>pipe.c\<close>), and above it
  the system calls (\<open>syscall.c\<close>, \<open>sysproc.c\<close>, \<open>sysfile.c\<close>). The console (\<open>console.c\<close>) is the device that the device switch of
  \<open>readi\<close> and \<open>writei\<close> leads to. User programs see system calls only.

  \<^bold>\<open>Data, state and effects.\<close> C integers are words of their width (\<open>Prelude\<close>); signed comparison is by \<open>sint\<close>, unsigned by the order
  of words, and sums wrap. Memory is a function from addresses to bytes (\<open>Memory\<close>), and what C keeps in pages (free
  list, page tables, trap frames, the counters of system calls) is in it. The variables of the kernel are
  records that extend each other: \<open>kmem\<close> (memory and free list, \<open>Kalloc\<close>), \<open>kst\<close> (CPUs, process table, queues, ticks, \<open>Proc\<close>), \<open>bst\<close>
  (buffers and disk, \<open>Bio\<close>), \<open>lst\<close> (log, \<open>Log\<close>), \<open>fsst\<close> (superblock and inode cache, \<open>Inode\<close>), \<open>filst\<close> (file table and pipes,
  \<open>File\<close>). A routine takes the scheme of the record it works on, so that it applies to every extension. Pointers to
  table entries are indices. A routine that can fail to return has type \<open>outcome\<close>: \<open>Ret\<close>, \<open>Panic\<close> with the message,
  \<open>Fault\<close> for an access that C leaves undefined, \<open>Block\<close> when it has to sleep first, \<open>Loop\<close> when a loop does not end. Routines
  that sleep in the middle (pipes, \<open>wait\<close>, the console) return \<open>PSleep\<close> with what is left to do. Critical sections are
  single steps, except in \<open>Spinlock\<close>, \<open>Proc\<close> and \<open>Sched\<close>, where the locks are the subject.

  \<^bold>\<open>The theories.\<close>
  \<^item> \<open>Prelude\<close>, \<open>Memory\<close>, \<open>Bytes\<close>, \<open>Ring\<close>: shared vocabulary; loads and stores; integers in byte lists, with the laws of
    reading after writing; ring buffers with counters that wrap around (the locale \<open>ringbuf\<close>, for pipes and the console).
  \<^item> \<open>Strings\<close> (\<open>string.c\<close>): \<open>memmove\<close> copies the old bytes for every overlap; \<open>safestrcpy\<close> always terminates inside its buffer.
  \<^item> \<open>Kalloc\<close> (\<open>kalloc.c\<close>): the free list in memory refines a list of pages; no page is handed out twice or lost, in any
    sequence of requests (the locale \<open>page_allocator\<close>); what \<open>freerange\<close> frees.
  \<^item> \<open>Spinlock\<close> (\<open>spinlock.c\<close>): a step relation of several CPUs; mutual exclusion, and interrupts off while a lock is held.
  \<^item> \<open>Vm\<close> (\<open>vm.c\<close>): definitions, used by \<open>Proc\<close> and \<open>ProcLife\<close>.
  \<^item> \<open>Queue\<close>, \<open>Proc\<close>, \<open>Sched\<close> (\<open>proc.c\<close>): the rings of the scheduler are round-robin queues (the locale \<open>rr_queue\<close>); \<open>yield\<close> and
    \<open>sleep\<close> hand over the lock and lose no wakeup; \<open>findPriority\<close> selects the least process; no pass of the scheduler
    fails under any policy (the locale \<open>process_run\<close> is the contract of the process that is run).
  \<^item> \<open>Sleeplock\<close>, \<open>Bio\<close>, \<open>Log\<close>: the cache is transparent; a crash during a commit is atomic after recovery, \<open>end_op\<close> is durable,
    the reservation of \<open>begin_op\<close> suffices.
  \<^item> \<open>Inode\<close>, \<open>Blocks\<close>, \<open>FileData\<close> (\<open>fs.c\<close>): contracts for reading and logging blocks; the allocator delivers free blocks, with its
    error paths; \<open>writei\<close> changes exactly the given bytes and \<open>readi\<close> returns them, the budget of logged blocks included.
  \<^item> \<open>Dir\<close>, \<open>DirData\<close>, \<open>DirLink\<close> (\<open>fs.c\<close>): paths are split into their components; \<open>dirlookup\<close> finds the first entry with a name,
    and \<open>dirlink\<close> changes the lookup of its name only.
  \<^item> \<open>Pipe\<close>, \<open>File\<close>: a pipe is a bounded first-in first-out channel in every interleaving, also across the wrap-around of its counters,
    and no sleeper could go on; the file table.
  \<^item> \<open>Syscall\<close>, \<open>Counters\<close> (\<open>syscall.c\<close>): what the kernel accepts from a process lies in its memory; the list of counters refines
    a map. \<open>ProcLife\<close>, \<open>Sysproc\<close>, \<open>Sysfile\<close> (\<open>proc.c\<close>, \<open>sysproc.c\<close>, \<open>sysfile.c\<close>): the handlers.
  \<^item> \<open>Console\<close> (\<open>console.c\<close>): the cursor stays on the screen; the input ring is a line editor.
  \<^item> \<open>Ulib\<close>, \<open>Grep\<close>, \<open>Filters\<close>, \<open>Sh\<close>, \<open>ShRun\<close>: user programs. \<open>printint\<close> and \<open>atoi\<close> are inverse; \<open>grep\<close>'s matcher decides the language of
    the pattern; \<open>wc\<close> counts; the shell's parser ends and reads back every printed command, and \<open>runcmd\<close> starts programs with
    the right descriptors.

  \<^bold>\<open>Bounds and fuel.\<close> Loops over lists and tables are structural. Loops with a termination proof: \<open>freerange\<close> (addresses below
  \<open>PHYSTOP\<close> do not wrap), \<open>readi\<close>, \<open>writei\<close>, \<open>filewrite\<close> (bytes left), \<open>namex\<close> (path left), control-U of the console (length of the line). The
  functions of the parser that call each other take a bound on their depth; \<open>4 * length + 4\<close> is proved enough for every
  line. The loops over pages in \<open>Vm\<close> carry a bound computed from the range. A list of counters that is cyclic
  would not end: \<open>hist_find\<close> is a partial function, and is shown to end on every list the code builds. \<open>FSSIZE\<close> blocks fit in
  one block of the free map, as \<open>fs_geom\<close> requires; it also requires of the disk what \<open>mkfs\<close> lays out. Other data
  structures have the sizes of \<open>param.h\<close>.

  \<^bold>\<open>Parameters.\<close> Linker symbols (\<open>end\<close>, \<open>data\<close>), code addresses, the handlers called by \<open>syscall\<close>, the functions of the device switch, what
  a process does between two context switches, and for user programs the results of system calls. The laws assumed of a process that is run
  are the locale \<open>process_run\<close>, interpreted on a process that yields.

  \<^bold>\<open>Not modelled.\<close> Assembly and boot code (\<open>bootasm.S\<close>, \<open>bootmain.c\<close>, \<open>entry.S\<close>, \<open>swtch.S\<close>, \<open>trapasm.S\<close>, \<open>vectors.pl\<close>, \<open>usys.S\<close>, \<open>initcode.S\<close>, \<open>main.c\<close>)
  and the drivers of interrupt controllers, serial line and disk (\<open>lapic.c\<close>, \<open>ioapic.c\<close>, \<open>picirq.c\<close>, \<open>mp.c\<close>, \<open>uart.c\<close>, \<open>ide.c\<close>,
  \<open>memide.c\<close>): they are accesses to device registers, whose meaning is not in this repository. \<open>kbd.c\<close> is a table lookup on such accesses.
  \<open>exec.c\<close> with \<open>loaduvm\<close> and \<open>sys_exec\<close>, \<open>trap.c\<close>, \<open>umalloc.c\<close>, \<open>init.c\<close> and \<open>mkfs.c\<close> (which runs on the build host) are left out. The
  test programs exercise the calls modelled here.
\<close>

end
